(* ===== verification/Prelude.thy ===== *)
theory Prelude imports Main "HOL-Library.Multiset" begin

text \<open>
  Shared vocabulary of the development: effectful code as functions of a world that return
  a Rust \<open>Result\<close> (a sum, \<open>Inl\<close> for \<open>Err\<close>) and the next world, unbounded loops as
  \<open>iterate\<close>, the standard library's \<open>Vec::swap_remove\<close> with the worker-reaping loop
  written on it, decimal rendering, and the generic lemmas the components share.
\<close>

named_theorems io_simps "unfolding rules of the effect combinators"
named_theorems wire_simps "projections of wire values"

section \<open>Fallible effects\<close>

type_synonym ('w, 'e, 'a) io = "'w \<Rightarrow> ('e + 'a) \<times> 'w"

definition io_ret :: "'a \<Rightarrow> ('w, 'e, 'a) io" where
  "io_ret a w = (Inr a, w)"

definition io_fail :: "'e \<Rightarrow> ('w, 'e, 'a) io" where
  "io_fail e w = (Inl e, w)"

text \<open>The \<open>?\<close> operator: the first error ends the computation.\<close>

definition io_bind :: "('w, 'e, 'a) io \<Rightarrow> ('a \<Rightarrow> ('w, 'e, 'b) io) \<Rightarrow> ('w, 'e, 'b) io" where
  "io_bind m f w = (case m w of (Inl e, w') \<Rightarrow> (Inl e, w') | (Inr a, w') \<Rightarrow> f a w')"

text \<open>\<open>map_err\<close>, and a result that the code matches on or drops (\<open>let _ = ...\<close>).\<close>

definition io_map_err :: "('e \<Rightarrow> 'f) \<Rightarrow> ('w, 'e, 'a) io \<Rightarrow> ('w, 'f, 'a) io" where
  "io_map_err h m w = (case m w of (Inl e, w') \<Rightarrow> (Inl (h e), w') | (Inr a, w') \<Rightarrow> (Inr a, w'))"

definition io_try :: "('w, 'e, 'a) io \<Rightarrow> ('w, 'f, 'e + 'a) io" where
  "io_try m w = (case m w of (r, w') \<Rightarrow> (Inr r, w'))"

definition io_of_sum :: "'e + 'a \<Rightarrow> ('w, 'e, 'a) io" where
  "io_of_sum r w = (r, w)"

lemmas io_basic [io_simps] =
  io_ret_def io_fail_def io_bind_def io_map_err_def io_try_def io_of_sum_def

lemma io_bind_ret [simp]: "io_bind (io_ret a) f = f a"
  by (simp add: io_bind_def io_ret_def fun_eq_iff)

lemma io_bind_fail [simp]: "io_bind (io_fail e) f = io_fail e"
  by (simp add: io_bind_def io_fail_def fun_eq_iff)

lemma io_bind_assoc: "io_bind (io_bind m f) g = io_bind m (\<lambda>a. io_bind (f a) g)"
  by (auto simp: io_bind_def fun_eq_iff split: prod.splits sum.splits)

lemma io_bind_okE:
  assumes "io_bind m f w = (Inr b, w')"
  obtains a w1 where "m w = (Inr a, w1)" and "f a w1 = (Inr b, w')"
  using assms by (auto simp: io_bind_def split: prod.splits sum.splits)

section \<open>Loops that may not return\<close>

text \<open>
  A \<open>loop\<close> of the source is its body, which ends with a result (\<open>Inl\<close>) or goes round
  again (\<open>Inr\<close>). \<open>None\<close> is a loop that never returns.
\<close>

partial_function (option) iterate :: "('x \<Rightarrow> 'r + 'x) \<Rightarrow> 'x \<Rightarrow> 'r option" where
  "iterate f x = (case f x of Inl r \<Rightarrow> Some r | Inr y \<Rightarrow> iterate f y)"

text \<open>The state after \<open>n\<close> rounds, if the loop has not returned before.\<close>

fun rounds :: "('x \<Rightarrow> 'r + 'x) \<Rightarrow> nat \<Rightarrow> 'x \<Rightarrow> 'x option" where
  "rounds f 0 x = Some x"
| "rounds f (Suc n) x = (case f x of Inl _ \<Rightarrow> None | Inr y \<Rightarrow> rounds f n y)"

lemma iterate_done: "f x = Inl r \<Longrightarrow> iterate f x = Some r"
  by (subst iterate.simps) simp

lemma iterate_again: "f x = Inr y \<Longrightarrow> iterate f x = iterate f y"
  by (subst iterate.simps) simp

lemma iterate_invariant:
  assumes "iterate f x = Some r" and "I x"
    and step: "\<And>x y. I x \<Longrightarrow> f x = Inr y \<Longrightarrow> I y"
    and last: "\<And>x r. I x \<Longrightarrow> f x = Inl r \<Longrightarrow> Q r"
  shows "Q r"
proof -
  let ?P = "\<lambda>g x r. g = f \<longrightarrow> I x \<longrightarrow> Q r"
  have "(case (f, x) of (g, x) \<Rightarrow> iterate g x) = Some r"
    using assms(1) by simp
  then have "(case (f, x) of (g, x) \<Rightarrow> ?P g x) r"
  proof (rule iterate.raw_induct [rotated])
    fix it g x r
    assume IH: "\<And>g x r. it g x = Some r \<Longrightarrow> ?P g x r"
      and eq: "(case g x of Inl r \<Rightarrow> Some r | Inr y \<Rightarrow> it g y) = Some r"
    show "?P g x r"
      using eq IH step last by (auto split: sum.splits)
  qed
  with \<open>I x\<close> show ?thesis by simp
qed

lemma iterate_Some_rounds:
  "rounds f n x = Some y \<Longrightarrow> f y = Inl r \<Longrightarrow> iterate f x = Some r"
proof (induction n arbitrary: x)
  case 0
  then show ?case by (simp add: iterate_done)
next
  case (Suc n)
  then show ?case by (auto simp: iterate_again split: sum.splits)
qed

lemma rounds_Suc_end:
  "rounds f (Suc n) x = (case rounds f n x of None \<Rightarrow> None
     | Some y \<Rightarrow> (case f y of Inl _ \<Rightarrow> None | Inr z \<Rightarrow> Some z))"
proof (induction n arbitrary: x)
  case 0
  then show ?case by (simp split: sum.splits)
next
  case (Suc n)
  show ?case
  proof (cases "f x")
    case (Inl r)
    then show ?thesis by simp
  next
    case (Inr y)
    then have "rounds f (Suc (Suc n)) x = rounds f (Suc n) y" and "rounds f (Suc n) x = rounds f n y"
      by simp_all
    with Suc.IH [of y] show ?thesis by (simp del: rounds.simps)
  qed
qed

text \<open>The only way not to return is to go round for ever.\<close>

lemma iterate_None_iff: "iterate f x = None \<longleftrightarrow> (\<forall>n. rounds f n x \<noteq> None)"
proof
  assume none: "iterate f x = None"
  show "\<forall>n. rounds f n x \<noteq> None"
  proof
    fix n
    show "rounds f n x \<noteq> None"
    proof (induction n)
      case 0
      show ?case by simp
    next
      case (Suc n)
      then obtain y where y: "rounds f n x = Some y" by auto
      with none have "\<nexists>r. f y = Inl r" by (metis iterate_Some_rounds option.distinct(1))
      then obtain z where "f y = Inr z" by (cases "f y") auto
      with y show ?case by (simp only: rounds_Suc_end) simp
    qed
  qed
next
  assume all: "\<forall>n. rounds f n x \<noteq> None"
  show "iterate f x = None"
  proof (rule ccontr)
    assume "iterate f x \<noteq> None"
    then obtain r where "iterate f x = Some r" by auto
    then have "\<exists>n. rounds f n x = None"
    proof (rule iterate_invariant [where I = "\<lambda>y. \<exists>n. rounds f n x = Some y"])
      show "\<exists>n. rounds f n x = Some x" by (rule exI [of _ 0]) simp
      show "\<exists>n. rounds f n x = Some z"
        if "\<exists>n. rounds f n x = Some y" "f y = Inr z" for y z
        using that by (metis (no_types, lifting) option.simps(5) rounds_Suc_end sum.simps(6))
      show "\<exists>n. rounds f n x = None"
        if "\<exists>n. rounds f n x = Some y" "f y = Inl r" for y r
        using that by (metis (no_types, lifting) option.simps(5) rounds_Suc_end sum.simps(5))
    qed
    with all show False by blast
  qed
qed

lemma iterate_measure:
  assumes "\<And>x y. f x = Inr y \<Longrightarrow> m y < (m x :: nat)"
  shows "\<exists>r. iterate f x = Some r"
proof (induction "m x" arbitrary: x rule: less_induct)
  case less
  show ?case
  proof (cases "f x")
    case (Inl r)
    then show ?thesis by (auto simp: iterate_done)
  next
    case (Inr y)
    with less assms show ?thesis by (simp add: iterate_again)
  qed
qed

section \<open>Vectors of workers\<close>

text \<open>
  \<open>Vec::swap_remove\<close>: the element at the index, and the vector with its last element moved
  there. Out of range the call panics, here \<open>None\<close>.
\<close>

definition swap_remove :: "'a list \<Rightarrow> nat \<Rightarrow> ('a \<times> 'a list) option" where
  "swap_remove ws i = (if i < length ws then Some (ws ! i, butlast (ws[i := last ws])) else None)"

text \<open>
  The reaping loop of the two servers: each worker is looked at once; a finished one is
  removed and joined, the index moves past a running one.
\<close>

function reap :: "('a \<Rightarrow> bool) \<Rightarrow> 'a list \<Rightarrow> nat \<Rightarrow> 'a list \<Rightarrow> ('a list \<times> 'a list) option" where
  "reap finished ws i joined =
     (if i < length ws
      then (if finished (ws ! i)
            then (case swap_remove ws i of
                    None \<Rightarrow> None
                  | Some (worker, ws') \<Rightarrow> reap finished ws' i (joined @ [worker]))
            else reap finished ws (Suc i) joined)
      else Some (ws, joined))"
  by pat_completeness auto
termination
  by (relation "measure (\<lambda>(_, ws, i, _). length ws - i)")
     (auto simp: swap_remove_def split: if_splits)

declare reap.simps [simp del]

lemma last_update_last: "i < length ws \<Longrightarrow> last (ws[i := last ws]) = last ws"
  by (cases ws rule: rev_cases) (auto simp: last_list_update)

lemma mset_swap_remove:
  assumes "swap_remove ws i = Some (w, ws')"
  shows "mset ws = add_mset w (mset ws')"
proof -
  let ?vs = "ws[i := last ws]"
  from assms have i: "i < length ws" and w: "w = ws ! i" and ws': "ws' = butlast ?vs"
    by (auto simp: swap_remove_def split: if_splits)
  then have "mset ?vs = add_mset (last ?vs) (mset (butlast ?vs))"
    by (metis append_butlast_last_id length_0_conv length_list_update less_nat_zero_code mset.simps(2)
        mset_append union_mset_add_mset_right add.right_neutral mset.simps(1))
  with i have "mset (butlast ?vs) = mset ws - {#ws ! i#}"
    by (simp add: last_update_last mset_update)
  with i w ws' show ?thesis by simp
qed

lemma reap_partition:
  "\<exists>ws' out. reap finished ws i joined = Some (ws', joined @ out) \<and> mset ws = mset ws' + mset out \<and>
     (\<forall>w \<in> set out. finished w) \<and> (\<forall>j < length ws'. i \<le> j \<longrightarrow> \<not> finished (ws' ! j)) \<and>
     take i ws' = take i ws \<and> (i \<le> length ws \<longrightarrow> i \<le> length ws')"
proof (induction finished ws i joined rule: reap.induct)
  case (1 finished ws i joined)
  consider (past) "\<not> i < length ws" | (fin) "i < length ws" "finished (ws ! i)"
    | (run) "i < length ws" "\<not> finished (ws ! i)" by blast
  then show ?case
  proof cases
    case past
    then show ?thesis by (auto simp: reap.simps [of finished ws])
  next
    case run
    from "1.IH"(2) [OF run] obtain ws' out where
      r: "reap finished ws (Suc i) joined = Some (ws', joined @ out)" "mset ws = mset ws' + mset out"
         "\<forall>w \<in> set out. finished w" "\<forall>j < length ws'. Suc i \<le> j \<longrightarrow> \<not> finished (ws' ! j)"
         "take (Suc i) ws' = take (Suc i) ws" "Suc i \<le> length ws'"
      using run by auto
    have eq: "reap finished ws i joined = reap finished ws (Suc i) joined"
      using run by (simp add: reap.simps [of finished ws i])
    have nth: "ws' ! i = ws ! i" using r(5) by (metis lessI nth_take)
    have pre: "take i ws' = take i ws" using r(5)
      by (metis le_less lessI min.absorb1 take_take)
    have "\<forall>j < length ws'. i \<le> j \<longrightarrow> \<not> finished (ws' ! j)"
      using r(4) nth run(2) by (metis Suc_leI le_neq_implies_less)
    with r eq pre show ?thesis by auto
  next
    case fin
    let ?vs = "butlast (ws[i := last ws])"
    have sr: "swap_remove ws i = Some (ws ! i, ?vs)" using fin by (simp add: swap_remove_def)
    from "1.IH"(1) [OF fin sr] obtain ws' out where
      r: "reap finished ?vs i (joined @ [ws ! i]) = Some (ws', (joined @ [ws ! i]) @ out)"
         "mset ?vs = mset ws' + mset out" "\<forall>w \<in> set out. finished w"
         "\<forall>j < length ws'. i \<le> j \<longrightarrow> \<not> finished (ws' ! j)"
         "take i ws' = take i ?vs" "i \<le> length ?vs \<longrightarrow> i \<le> length ws'"
      by auto
    moreover have "take i ?vs = take i ws" using fin by (simp add: take_butlast)
    ultimately show ?thesis
      using fin sr mset_swap_remove [OF sr]
      by (intro exI [of _ ws'] exI [of _ "ws ! i # out"]) (auto simp: reap.simps [of finished ws])
  qed
qed

text \<open>From the start of the list: the finished are joined, the others kept.\<close>

lemma reap_split:
  obtains kept joined where "reap finished ws 0 [] = Some (kept, joined)"
    and "mset kept = filter_mset (\<lambda>w. \<not> finished w) (mset ws)" and "mset joined = filter_mset finished (mset ws)"
proof -
  obtain kept joined where r: "reap finished ws 0 [] = Some (kept, joined)" and ms: "mset ws = mset kept + mset joined"
    and joined: "\<forall>x \<in> set joined. finished x" and kept: "\<forall>j < length kept. \<not> finished (kept ! j)"
    using reap_partition [of finished ws 0 "[]"] by auto
  from kept have kept: "\<forall>x \<in> set kept. \<not> finished x" by (metis in_set_conv_nth)
  have none: "filter_mset P (mset xs) = {#}" if "\<forall>x \<in> set xs. \<not> P x" for P and xs :: "'a list"
    using that by (metis filter_False mset_filter mset_zero_iff)
  have all: "filter_mset P (mset xs) = mset xs" if "\<forall>x \<in> set xs. P x" for P and xs :: "'a list"
    using that by (metis filter_True mset_filter)
  show thesis
  proof (rule that [OF r])
    show "mset kept = filter_mset (\<lambda>w. \<not> finished w) (mset ws)"
      using ms kept joined by (simp add: all none)
    show "mset joined = filter_mset finished (mset ws)"
      using ms kept joined by (simp add: all none)
  qed
qed

text \<open>
  What a server promises of its workers: a hired worker is held, reaping moves workers from the
  held to the joined, and dismissing joins all that are held. Then no worker is ever lost, and
  after the dismissal everyone hired has been joined.
\<close>

locale crew =
  fixes held :: "'s \<Rightarrow> 'w multiset" and gone :: "'s \<Rightarrow> 'w multiset" and hired :: "'s \<Rightarrow> 'w multiset"
    and hire :: "'c \<Rightarrow> 's \<Rightarrow> 's" and who :: "'c \<Rightarrow> 's \<Rightarrow> 'w" and tidy :: "'f \<Rightarrow> 's \<Rightarrow> 's" and dismiss :: "'s \<Rightarrow> 's"
  assumes hire_held: "held (hire c s) = add_mset (who c s) (held s)"
    and hire_gone: "gone (hire c s) = gone s"
    and hire_hired: "hired (hire c s) = add_mset (who c s) (hired s)"
    and tidy_keeps: "held (tidy f s) + gone (tidy f s) = held s + gone s"
    and tidy_hired: "hired (tidy f s) = hired s"
    and dismiss_held: "held (dismiss s) = {#}"
    and dismiss_gone: "gone (dismiss s) = gone s + held s"
    and dismiss_hired: "hired (dismiss s) = hired s"
begin

lemma none_lost_hire: "held s + gone s = hired s \<Longrightarrow> held (hire c s) + gone (hire c s) = hired (hire c s)"
  by (simp add: hire_held hire_gone hire_hired)

lemma none_lost_tidy: "held s + gone s = hired s \<Longrightarrow> held (tidy f s) + gone (tidy f s) = hired (tidy f s)"
  by (simp add: tidy_keeps tidy_hired)

lemma dismissed: "held s + gone s = hired s \<Longrightarrow> held (dismiss s) = {#} \<and> gone (dismiss s) = hired (dismiss s)"
  by (simp add: dismiss_held dismiss_gone dismiss_hired add.commute)

end

section \<open>Decimal text\<close>

definition digit :: "nat \<Rightarrow> char" where
  "digit n = char_of (48 + n)"

fun decimal :: "nat \<Rightarrow> string" where
  "decimal n = (if n < 10 then [digit n] else decimal (n div 10) @ [digit (n mod 10)])"

declare decimal.simps [simp del]

definition decimal_int :: "int \<Rightarrow> string" where
  "decimal_int i = (if i < 0 then CHR ''-'' # decimal (nat (- i)) else decimal (nat i))"

lemma decimal_nonempty: "decimal n \<noteq> []"
  by (subst decimal.simps) simp

end
