(* ===== verification/Text.thy ===== *)
theory Text imports Prelude begin

text \<open>
  The string operations of the Rust standard library that the code uses, on byte strings
  (a \<open>char\<close> is one byte): \<open>split\<close>, \<open>lines\<close>, \<open>split_whitespace\<close>, \<open>rsplit_once\<close>, integer
  parsing and \<open>to_string\<close>. White space is the ASCII one.
\<close>

section \<open>Splitting\<close>

fun split_by :: "(char \<Rightarrow> bool) \<Rightarrow> string \<Rightarrow> string list" where
  "split_by p [] = [[]]"
| "split_by p (x # xs) =
     (if p x then [] # split_by p xs
      else (case split_by p xs of [] \<Rightarrow> [[x]] | y # ys \<Rightarrow> (x # y) # ys))"

definition white :: "char \<Rightarrow> bool" where
  "white c \<longleftrightarrow> c = CHR '' '' \<or> of_char c \<in> {9, 10, 11, 12, 13 :: nat}"

definition split_whitespace :: "string \<Rightarrow> string list" where
  "split_whitespace s = filter (\<lambda>w. w \<noteq> []) (split_by white s)"

text \<open>\<open>str::lines\<close>: lines end at a line feed, which takes one carriage return with it; the
  text after the last line feed is a line only if it is not empty.\<close>

definition strip_cr :: "string \<Rightarrow> string" where
  "strip_cr l = (if l \<noteq> [] \<and> last l = CHR 0x0D then butlast l else l)"

definition str_lines :: "string \<Rightarrow> string list" where
  "str_lines s = (let ls = split_by (\<lambda>c. c = CHR 0x0A) s in
     map strip_cr (butlast ls) @ (if last ls = [] then [] else [last ls]))"

fun rsplit_once :: "string \<Rightarrow> string \<Rightarrow> (string \<times> string) option" where
  "rsplit_once d [] = None"
| "rsplit_once d (x # xs) =
     (case rsplit_once d xs of
        Some (a, b) \<Rightarrow> Some (x # a, b)
      | None \<Rightarrow> if take (length d) (x # xs) = d then Some ([], drop (length d) (x # xs)) else None)"

fun join_words :: "string list \<Rightarrow> string" where
  "join_words [] = []"
| "join_words [w] = w"
| "join_words (w # ws) = w @ CHR '' '' # join_words ws"

lemma split_by_nonempty [simp]: "split_by p s \<noteq> []"
  by (induction s) (auto split: list.splits)

lemma split_by_clean: "\<forall>c \<in> set w. \<not> p c \<Longrightarrow> split_by p w = [w]"
  by (induction w) auto

lemma split_by_append:
  "\<forall>c \<in> set w. \<not> p c \<Longrightarrow> p x \<Longrightarrow> split_by p (w @ x # rest) = w # split_by p rest"
  by (induction w) auto

lemma split_whitespace_join:
  "\<forall>w \<in> set ws. w \<noteq> [] \<and> (\<forall>c \<in> set w. \<not> white c) \<Longrightarrow> split_whitespace (join_words ws) = ws"
proof (induction ws rule: join_words.induct)
  case (3 w v ws)
  have "white CHR '' ''" by (simp add: white_def)
  with 3 show ?case by (simp add: split_whitespace_def split_by_append)
qed (auto simp: split_whitespace_def split_by_clean)

lemma rsplit_once_absent: "d = c # e \<Longrightarrow> c \<notin> set s \<Longrightarrow> rsplit_once d s = None"
  by (induction s) auto

lemma rsplit_once_last:
  assumes "c \<notin> set e" and "c \<notin> set rest"
  shows "rsplit_once (c # e) (pre @ (c # e) @ rest) = Some (pre, rest)"
proof (induction pre)
  case Nil
  have "rsplit_once (c # e) (e @ rest) = None"
    using assms by (intro rsplit_once_absent) auto
  then show ?case by simp
next
  case (Cons x pre)
  then show ?case by simp
qed

lemma split_by_line: "c \<notin> set l \<Longrightarrow> split_by (\<lambda>x. x = c) (l @ c # rest) = l # split_by (\<lambda>x. x = c) rest"
  by (rule split_by_append) auto

section \<open>Integers as text\<close>

definition is_digit :: "char \<Rightarrow> bool" where
  "is_digit c \<longleftrightarrow> 48 \<le> (of_char c :: nat) \<and> (of_char c :: nat) \<le> 57"

definition digits_value :: "string \<Rightarrow> nat" where
  "digits_value ds = foldl (\<lambda>n c. 10 * n + (of_char c - 48)) 0 ds"

definition parse_nat :: "string \<Rightarrow> nat option" where
  "parse_nat ds = (if ds \<noteq> [] \<and> list_all is_digit ds then Some (digits_value ds) else None)"

text \<open>\<open>str::parse::<i64>\<close>: an optional sign, digits, and the value in range.\<close>

definition parse_i64 :: "string \<Rightarrow> int option" where
  "parse_i64 s =
     (case s of
        [] \<Rightarrow> None
      | c # ds \<Rightarrow>
          if c = CHR ''-'' then
            (case parse_nat ds of None \<Rightarrow> None | Some n \<Rightarrow> if n \<le> 2 ^ 63 then Some (- int n) else None)
          else
            (case parse_nat (if c = CHR ''+'' then ds else s) of
               None \<Rightarrow> None | Some n \<Rightarrow> if n < 2 ^ 63 then Some (int n) else None))"

lemma of_char_digit: "n < 10 \<Longrightarrow> of_char (digit n) = 48 + n"
  by (simp add: digit_def)

lemma is_digit_digit [simp]: "n < 10 \<Longrightarrow> is_digit (digit n)"
  by (simp add: is_digit_def of_char_digit)

lemma decimal_digits: "list_all is_digit (decimal n)"
proof (induction n rule: decimal.induct)
  case (1 n)
  then show ?case by (subst decimal.simps) simp
qed

lemma digits_value_snoc: "digits_value (ds @ [c]) = 10 * digits_value ds + (of_char c - 48)"
  by (simp add: digits_value_def)

lemma digits_value_decimal: "digits_value (decimal n) = n"
proof (induction n rule: decimal.induct)
  case (1 n)
  show ?case
  proof (cases "n < 10")
    case True
    then show ?thesis by (subst decimal.simps) (simp add: digits_value_def of_char_digit)
  next
    case False
    with 1 show ?thesis
      by (subst decimal.simps) (simp add: digits_value_snoc of_char_digit)
  qed
qed

lemma parse_decimal [simp]: "parse_nat (decimal n) = Some n"
  by (simp add: parse_nat_def decimal_nonempty decimal_digits digits_value_decimal)

lemma decimal_inj: "decimal m = decimal n \<longleftrightarrow> m = n"
  by (metis digits_value_decimal)

lemma digit_not_sign: "is_digit c \<Longrightarrow> c \<noteq> CHR ''-'' \<and> c \<noteq> CHR ''+'' \<and> \<not> white c \<and> c \<noteq> CHR '')'' \<and> c \<noteq> CHR '':''"
  by (auto simp: is_digit_def white_def)

lemma decimal_Cons: "\<exists>c ds. decimal n = c # ds \<and> is_digit c"
  using decimal_nonempty [of n] decimal_digits [of n] by (cases "decimal n") auto

lemma parse_i64_decimal:
  assumes "- (2 ^ 63) \<le> i" and "i < 2 ^ 63"
  shows "parse_i64 (decimal_int i) = Some i"
proof (cases "i < 0")
  case True
  with assms show ?thesis by (simp add: parse_i64_def decimal_int_def nat_le_iff)
next
  case False
  obtain c ds where d: "decimal (nat i) = c # ds" and "is_digit c"
    using decimal_Cons by blast
  then have "c \<noteq> CHR ''-''" and "c \<noteq> CHR ''+''" using digit_not_sign by auto
  moreover have "parse_nat (c # ds) = Some (nat i)" using d parse_decimal by metis
  ultimately show ?thesis using False assms d by (simp add: parse_i64_def decimal_int_def nat_less_iff)
qed

lemma decimal_int_clean: "c \<in> set (decimal_int i) \<Longrightarrow> \<not> white c \<and> c \<noteq> CHR '')''"
proof -
  assume c: "c \<in> set (decimal_int i)"
  have d: "x \<in> set (decimal n) \<Longrightarrow> \<not> white x \<and> x \<noteq> CHR '')''" for n x
    using decimal_digits [of n] digit_not_sign by (auto simp: list_all_iff)
  have m: "\<not> white CHR ''-''" by (simp add: white_def)
  show ?thesis using c d m by (auto simp: decimal_int_def split: if_splits)
qed

lemma decimal_int_nonempty: "decimal_int i \<noteq> []"
  by (simp add: decimal_int_def decimal_nonempty)

section \<open>UTF-8\<close>

text \<open>
  \<open>String::from_utf8_lossy\<close>: each maximal ill-formed prefix is replaced by U+FFFD.
  \<open>utf8_step\<close> looks at the head of a non-empty byte string: how many bytes belong to it, and
  whether they are a well-formed character.
\<close>

definition byte_in :: "nat \<Rightarrow> nat \<Rightarrow> char \<Rightarrow> bool" where
  "byte_in lo hi c \<longleftrightarrow> lo \<le> (of_char c :: nat) \<and> (of_char c :: nat) \<le> hi"

definition cont :: "char \<Rightarrow> bool" where
  "cont = byte_in 0x80 0xBF"

definition second_ok :: "char \<Rightarrow> char \<Rightarrow> bool" where
  "second_ok b =
     (if b = CHR 0xE0 then byte_in 0xA0 0xBF
      else if b = CHR 0xED then byte_in 0x80 0x9F
      else if b = CHR 0xF0 then byte_in 0x90 0xBF
      else if b = CHR 0xF4 then byte_in 0x80 0x8F
      else cont)"

definition sequence_width :: "char \<Rightarrow> nat" where
  "sequence_width b =
     (if byte_in 0 0x7F b then 1
      else if byte_in 0xC2 0xDF b then 2
      else if byte_in 0xE0 0xEF b then 3
      else if byte_in 0xF0 0xF4 b then 4
      else 0)"

definition tail_ok :: "char \<Rightarrow> nat \<Rightarrow> char \<Rightarrow> bool" where
  "tail_ok b k = (if k = 1 then second_ok b else cont)"

text \<open>Accepts bytes \<open>k, k + 1, ...\<close> of the sequence that \<open>b\<close> opens, up to its width.\<close>

fun utf8_tail :: "char \<Rightarrow> nat \<Rightarrow> string \<Rightarrow> nat \<times> bool" where
  "utf8_tail b k [] = (k, sequence_width b \<le> k)"
| "utf8_tail b k (c # cs) =
     (if sequence_width b \<le> k then (k, True)
      else if tail_ok b k c then utf8_tail b (Suc k) cs
      else (k, False))"

definition utf8_step :: "string \<Rightarrow> nat \<times> bool" where
  "utf8_step s =
     (case s of [] \<Rightarrow> (0, False)
      | b # bs \<Rightarrow> if sequence_width b = 0 then (1, False) else utf8_tail b 1 bs)"

definition replacement :: string where
  "replacement = [CHR 0xEF, CHR 0xBF, CHR 0xBD]"

lemma utf8_tail_ge: "k \<le> fst (utf8_tail b k cs)"
proof (induction b k cs rule: utf8_tail.induct)
  case (2 b k c cs)
  then show ?case by (auto dest: Suc_leD)
qed simp

lemma utf8_step_pos: "s \<noteq> [] \<Longrightarrow> 0 < fst (utf8_step s)"
  using utf8_tail_ge [of 1] by (auto simp: utf8_step_def Suc_le_eq split: list.splits)

function utf8_lossy :: "string \<Rightarrow> string" where
  "utf8_lossy s =
     (if s = [] then []
      else (if snd (utf8_step s) then take (fst (utf8_step s)) s else replacement) @
           utf8_lossy (drop (fst (utf8_step s)) s))"
  by pat_completeness auto
termination
  by (relation "measure length") (simp_all add: utf8_step_pos)

function utf8_valid :: "string \<Rightarrow> bool" where
  "utf8_valid s = (if s = [] then True
      else snd (utf8_step s) \<and> utf8_valid (drop (fst (utf8_step s)) s))"
  by pat_completeness auto
termination
  by (relation "measure length") (simp_all add: utf8_step_pos)

declare utf8_lossy.simps [simp del] utf8_valid.simps [simp del]

lemma utf8_tail_append:
  "utf8_tail b k cs = (n, True) \<Longrightarrow> k \<le> sequence_width b \<Longrightarrow>
   utf8_tail b k (take (n - k) cs @ t) = (n, True) \<and> n - k \<le> length cs"
proof (induction b k cs rule: utf8_tail.induct)
  case (1 b k)
  then show ?case by (cases t) auto
next
  case (2 b k c cs)
  show ?case
  proof (cases "sequence_width b \<le> k")
    case True
    with 2 show ?thesis by (cases t) auto
  next
    case False
    with 2 have "tail_ok b k c" and t: "utf8_tail b (Suc k) cs = (n, True)"
      by (auto split: if_splits)
    moreover from t utf8_tail_ge [of "Suc k" b cs] have "Suc k \<le> n" by simp
    then have "n - k = Suc (n - Suc k)" by simp
    ultimately show ?thesis using 2 False by auto
  qed
qed

lemma utf8_step_append:
  assumes "utf8_step s = (k, True)"
  shows "utf8_step (take k s @ t) = (k, True)" and "k \<le> length s"
proof -
  from assms obtain b bs where s: "s = b # bs" and w: "sequence_width b \<noteq> 0"
    and u: "utf8_tail b 1 bs = (k, True)"
    by (auto simp: utf8_step_def split: list.splits if_splits)
  from u utf8_tail_ge [of 1 b bs] have "1 \<le> k" by simp
  then obtain m where k: "k = Suc m" by (cases k) auto
  from utf8_tail_append [OF u] w have "utf8_tail b 1 (take (k - 1) bs @ t) = (k, True) \<and> k - 1 \<le> length bs"
    by simp
  then show "utf8_step (take k s @ t) = (k, True)" and "k \<le> length s"
    using s w k by (auto simp: utf8_step_def)
qed

lemma replacement_step: "utf8_step (replacement @ t) = (3, True)"
  by (cases t) (simp_all add: utf8_step_def replacement_def sequence_width_def tail_ok_def second_ok_def cont_def byte_in_def)

lemma utf8_valid_step:
  "utf8_step s = (k, True) \<Longrightarrow> s \<noteq> [] \<Longrightarrow> utf8_valid s = utf8_valid (drop k s)"
  by (subst utf8_valid.simps) simp

lemma utf8_lossy_valid: "utf8_valid (utf8_lossy s)"
proof (induction s rule: utf8_lossy.induct)
  case (1 s)
  show ?case
  proof (cases "s = []")
    case True
    then show ?thesis by (simp add: utf8_lossy.simps [of "[]"] utf8_valid.simps [of "[]"])
  next
    case False
    obtain k ok where st: "utf8_step s = (k, ok)" by fastforce
    let ?rest = "utf8_lossy (drop k s)"
    have IH: "utf8_valid ?rest" using "1" [OF False] st by simp
    have eq: "utf8_lossy s = (if ok then take k s else replacement) @ ?rest"
      using False st by (subst utf8_lossy.simps) simp
    show ?thesis
    proof (cases ok)
      case True
      with st have "utf8_step (take k s @ ?rest) = (k, True)" and "k \<le> length s"
        using utf8_step_append by auto
      moreover have "0 < k" using utf8_step_pos [OF False] st by simp
      ultimately show ?thesis using eq True IH False
        by (simp add: utf8_valid_step [of _ k])
    next
      case no: False
      have "utf8_valid (replacement @ ?rest) = utf8_valid (drop 3 (replacement @ ?rest))"
        by (rule utf8_valid_step [OF replacement_step]) (simp add: replacement_def)
      with eq no IH show ?thesis by (simp add: replacement_def)
    qed
  qed
qed

lemma utf8_valid_lossy: "utf8_valid s \<Longrightarrow> utf8_lossy s = s"
proof (induction s rule: utf8_valid.induct)
  case (1 s)
  show ?case
  proof (cases "s = []")
    case True
    then show ?thesis by (simp add: utf8_lossy.simps [of "[]"])
  next
    case False
    obtain k ok where st: "utf8_step s = (k, ok)" by fastforce
    with "1.prems" False have ok and v: "utf8_valid (drop k s)"
      by (simp_all add: utf8_valid.simps [of s])
    with "1.IH" [OF False] \<open>ok\<close> st have "utf8_lossy (drop k s) = drop k s" by simp
    with st False \<open>ok\<close> show ?thesis by (subst utf8_lossy.simps) simp
  qed
qed

lemma utf8_valid_iff: "utf8_valid s \<longleftrightarrow> utf8_lossy s = s"
  using utf8_lossy_valid utf8_valid_lossy by metis

lemma utf8_lossy_idem: "utf8_lossy (utf8_lossy s) = utf8_lossy s"
  by (simp add: utf8_valid_lossy utf8_lossy_valid)

end
