(* ===== verification/Wire.thy ===== *)
theory Wire imports Prelude begin

text \<open>
  The values Message exchanges with Flow and with its own clients. The contracts themselves
  (\<open>signal-flow\<close>, \<open>signal-message\<close>, \<open>meta-signal-message\<close>) are other packages; only the
  fields and variants that the code under src/ constructs, reads or matches are written here.
  A variant the code never names stands behind an \<open>Other\<close> constructor carrying its archive as
  opaque text, so every match of the code keeps its catch-all branch. Two enumerations are
  complete because the code matches them without a catch-all: Flow's refusal
  (\<open>MapsFlowRefusal\<close> in service.rs) and Message's response (\<open>terminal_for\<close> in
  message-mcp-send).
\<close>

section \<open>Identities\<close>

datatype aspect = Mind | Field | Other_Aspect string
datatype layer = Primary | Secondary | Other_Layer string

record address =
  addr_aspect :: aspect
  addr_topic :: string
  addr_layer :: layer

record process =
  proc_pid :: int
  proc_started :: int

text \<open>A lock names who took it, whom it reaches and the Unix second it lapses at.\<close>

record lock =
  lock_sender :: address
  lock_address :: address
  lock_until :: int

record configuration =
  conf_ordinary :: string
  conf_meta :: string
  conf_flow :: string

section \<open>Sending\<close>

datatype recipient = To_Address address | Up
datatype delivery = Wake | Queue | Other_Delivery string
datatype request = Question string | Other_Request string
datatype message = Soft request | MiddleAbrupt request | Other_Message string

record send_request =
  req_recipient :: recipient
  req_delivery :: delivery
  req_message :: message

record native_receipt =
  nat_harness :: string
  nat_session :: string
  nat_prompt :: string

record payload_size =
  actual_bytes :: int
  maximum_bytes :: int

text \<open>Flow's refusal, complete.\<close>

datatype flow_unknown = Unknown_Address address | Unknown_Lock lock | Unknown_Other string

datatype refusal =
    Locked
  | Held lock
  | Asleep
  | Lapsed
  | Unknown flow_unknown
  | NoLayer
  | NoneAbove
  | NotMessage
  | NotConfigured
  | NotSendServer process
  | Unidentified process
  | Store string
  | Oversized payload_size
  | Awake string
  | Taken string
  | OffRoute
  | Direct string

datatype failure_reason =
    Reason_Refused refusal
  | ReceiptUncertain
  | NotSent string
  | QueueNotPermitted
  | Other_Reason string

record send_failure =
  fail_id :: "string option"
  fail_reason :: failure_reason

datatype delivery_state =
    Queued
  | Delivered native_receipt
  | Delivery_Failed string
  | Other_State string

record delivery_snapshot =
  snap_cursor :: int
  snap_id :: string
  snap_sent_by :: string
  snap_address :: address
  snap_state :: delivery_state

record send_observation =
  obs_cursor :: int
  obs_snapshots :: "delivery_snapshot list"

record send_acceptance =
  acc_id :: string
  acc_cursor :: int
  acc_state :: delivery_state

record send_receipt =
  rcpt_id :: string
  rcpt_native :: native_receipt

section \<open>Message to Flow\<close>

datatype flow_query =
    Ask_Bind address process
  | Ask_Identify process
  | Ask_IdentifyThread process string
  | Ask_Lock address recipient
  | Ask_Deliver lock delivery message
  | Ask_ObserveSender process "string option" "int option"
  | Ask_Release lock

datatype flow_response =
    Flow_Bound string
  | Flow_Identified address
  | Flow_Locked lock
  | Flow_SendAccepted send_acceptance
  | Flow_Sent send_receipt
  | Flow_Failed send_failure
  | Flow_Released
  | Flow_SendsObserved send_observation
  | Flow_SendChanged delivery_snapshot
  | Flow_Refused refusal
  | Flow_Other string

section \<open>Clients to Message\<close>

datatype query =
    Configure configuration
  | Send send_request
  | SendThread send_request string
  | ObserveSends "int option"
  | ObserveThread "int option" string

datatype message_unknown = Msg_Unknown_Address address | Msg_Unknown_Lock lock

datatype send_refusal =
    Send_Locked
  | Send_Held lock
  | Send_Asleep
  | Send_Lapsed
  | Send_Unknown message_unknown
  | Send_NoLayer
  | Send_NoneAbove
  | Send_NotMessage
  | Send_NotConfigured
  | Send_NotSendServer process
  | Send_Unidentified process
  | Send_Store string
  | Send_Oversized payload_size
  | Send_FlowUnreachable
  | Send_AlreadyConfigured

text \<open>Message's response, complete.\<close>

datatype response =
    Configured
  | Refused send_refusal
  | Sent send_receipt
  | Failed send_failure
  | SendAccepted send_acceptance
  | SendsObserved send_observation
  | SendChanged delivery_snapshot
  | ObservationInterrupted "int option" string

datatype meta_query = Meta_Configure configuration

datatype meta_response = Meta_RestartRequired | Meta_Configured | Meta_StoreRefused

section \<open>Questions the code asks of these values\<close>

text \<open>\<open>!matches!(message, Message::Soft(_))\<close>.\<close>

definition abrupt :: "message \<Rightarrow> bool" where
  "abrupt m = (case m of Soft _ \<Rightarrow> False | _ \<Rightarrow> True)"

text \<open>\<open>TerminalDeliveryState::is_terminal\<close> of listener.rs.\<close>

definition is_terminal :: "delivery_state \<Rightarrow> bool" where
  "is_terminal s = (case s of Delivered _ \<Rightarrow> True | Delivery_Failed _ \<Rightarrow> True | _ \<Rightarrow> False)"

lemma abrupt_simps [simp]:
  "\<not> abrupt (Soft r)" "abrupt (MiddleAbrupt r)" "abrupt (Other_Message t)"
  by (simp_all add: abrupt_def)

lemma is_terminal_simps [simp]:
  "\<not> is_terminal Queued" "is_terminal (Delivered n)" "is_terminal (Delivery_Failed t)"
  "\<not> is_terminal (Other_State t)"
  by (simp_all add: is_terminal_def)

end
