(* ===== verification/Frame.thy ===== *)
theory Frame imports Wire "HOL-Library.Word" begin

unbundle bit_operations_syntax

text \<open>
  message-nexus/src/frame.rs: a Signal frame is a four-byte big-endian length and then the
  archive of one value. The operating system is an oracle: what a call answers may depend on
  every call made before it, so one environment covers any peer, any failure and any
  interleaving with other processes. The archive codec (rkyv) is a pair of functions.
\<close>

section \<open>The operating system\<close>

datatype io_kind = UnexpectedEof | InvalidData | BrokenPipe | Interrupted | WouldBlock | Other_Kind string

record io_error =
  err_kind :: io_kind
  err_text :: string

type_synonym byte = "8 word"
type_synonym stream = nat

datatype shutdown_how = Shut_Read | Shut_Write | Shut_Both

datatype sys_call =
    Connect string
  | Set_Read_Timeout stream "nat option"
  | Set_Write_Timeout stream "nat option"
  | Write_All stream "byte list"
  | Flush stream
  | Read_Exact stream nat
  | Read_Byte stream
  | Try_Clone stream
  | Shutdown stream shutdown_how
  | Clock

text \<open>
  \<open>env_unit\<close> answers the calls that return nothing; \<open>env_read\<close> says which bytes the peer
  has for a read (\<open>read_exact\<close> takes as many as it wants and reports an end of file when
  there are fewer); \<open>env_now\<close> is the wall clock in nanoseconds from the Unix epoch.
\<close>

record env =
  env_connect :: "sys_call list \<Rightarrow> string \<Rightarrow> io_error + stream"
  env_clone :: "sys_call list \<Rightarrow> stream \<Rightarrow> io_error + stream"
  env_unit :: "sys_call list \<Rightarrow> sys_call \<Rightarrow> io_error option"
  env_read :: "sys_call list \<Rightarrow> stream \<Rightarrow> io_error + byte list"
  env_now :: "sys_call list \<Rightarrow> int"

text \<open>A world remembers the calls made so far, oldest first.\<close>

record net =
  calls :: "sys_call list"

definition called :: "sys_call \<Rightarrow> 'z net_scheme \<Rightarrow> 'z net_scheme" where
  "called c w = w\<lparr>calls := calls w @ [c]\<rparr>"

definition sys_connect :: "env \<Rightarrow> string \<Rightarrow> ('z net_scheme, io_error, stream) io" where
  "sys_connect env path w = (env_connect env (calls w) path, called (Connect path) w)"

definition sys_clone :: "env \<Rightarrow> stream \<Rightarrow> ('z net_scheme, io_error, stream) io" where
  "sys_clone env s w = (env_clone env (calls w) s, called (Try_Clone s) w)"

definition sys_unit :: "env \<Rightarrow> sys_call \<Rightarrow> ('z net_scheme, io_error, unit) io" where
  "sys_unit env c w =
     (case env_unit env (calls w) c of Some e \<Rightarrow> Inl e | None \<Rightarrow> Inr (), called c w)"

definition write_all :: "env \<Rightarrow> stream \<Rightarrow> byte list \<Rightarrow> ('z net_scheme, io_error, unit) io" where
  "write_all env s bs = sys_unit env (Write_All s bs)"

definition eof :: io_error where
  "eof = \<lparr>err_kind = UnexpectedEof, err_text = ''failed to fill whole buffer''\<rparr>"

definition read_exact :: "env \<Rightarrow> stream \<Rightarrow> nat \<Rightarrow> ('z net_scheme, io_error, byte list) io" where
  "read_exact env s n w =
     (case env_read env (calls w) s of
        Inl e \<Rightarrow> Inl e
      | Inr bs \<Rightarrow> if length bs < n then Inl eof else Inr (take n bs),
      called (Read_Exact s n) w)"

text \<open>\<open>read\<close> into a buffer of one byte: a byte, or nothing at the end of the stream.\<close>

definition read_byte :: "env \<Rightarrow> stream \<Rightarrow> ('z net_scheme, io_error, byte option) io" where
  "read_byte env s w =
     (case env_read env (calls w) s of
        Inl e \<Rightarrow> Inl e
      | Inr bs \<Rightarrow> Inr (case bs of [] \<Rightarrow> None | b # _ \<Rightarrow> Some b),
      called (Read_Byte s) w)"

definition sys_now :: "env \<Rightarrow> ('z net_scheme, 'e, int) io" where
  "sys_now env w = (Inr (env_now env (calls w)), called Clock w)"

section \<open>Lengths\<close>

definition FRAME_LIMIT :: nat where
  "FRAME_LIMIT = 1024 * 1024"

text \<open>\<open>u32::try_from\<close> of a \<open>usize\<close>, \<open>to_be_bytes\<close> and \<open>from_be_bytes\<close>.\<close>

definition u32_try_from :: "nat \<Rightarrow> 32 word option" where
  "u32_try_from n = (if n < 2 ^ 32 then Some (of_nat n) else None)"

definition to_be_bytes :: "32 word \<Rightarrow> byte list" where
  "to_be_bytes w = [ucast (drop_bit 24 w), ucast (drop_bit 16 w), ucast (drop_bit 8 w), ucast w]"

definition from_be_bytes :: "byte list \<Rightarrow> 32 word" where
  "from_be_bytes bs = foldl (\<lambda>acc b. push_bit 8 acc OR ucast b) 0 bs"

section \<open>Frames\<close>

datatype frame_error = Io io_error | Archive string | TooLarge nat | Closed

definition write_frame ::
  "env \<Rightarrow> ('v \<Rightarrow> string + byte list) \<Rightarrow> stream \<Rightarrow> 'v \<Rightarrow> ('z net_scheme, frame_error, unit) io" where
  "write_frame env ser s v =
     io_bind (io_map_err Archive (io_of_sum (ser v))) (\<lambda>bytes.
     io_bind (case u32_try_from (length bytes) of
                None \<Rightarrow> io_fail (TooLarge (length bytes))
              | Some n \<Rightarrow> io_ret n) (\<lambda>len.
     io_bind (io_map_err Io (write_all env s (to_be_bytes len))) (\<lambda>_.
     io_bind (io_map_err Io (write_all env s bytes)) (\<lambda>_.
     io_map_err Io (sys_unit env (Flush s))))))"

definition read_frame ::
  "env \<Rightarrow> (byte list \<Rightarrow> string + 'v) \<Rightarrow> stream \<Rightarrow> ('z net_scheme, frame_error, 'v) io" where
  "read_frame env des s =
     io_bind (io_map_err (\<lambda>e. if err_kind e = UnexpectedEof then Closed else Io e)
                (read_exact env s 4)) (\<lambda>prefix.
     let len = unat (from_be_bytes prefix) in
     if len > FRAME_LIMIT then io_fail (TooLarge len)
     else io_bind (io_map_err Io (read_exact env s len)) (\<lambda>bytes.
          io_map_err Archive (io_of_sum (des bytes))))"

lemma calls_called [simp]: "calls (called c w) = calls w @ [c]"
  by (simp add: called_def)

lemma called_more [simp]: "net.more (called c w) = net.more w"
  by (simp add: called_def)

section \<open>What effects keep\<close>

text \<open>
  A relation between the world before and after that no call of a kind can break holds of every
  computation made of such calls: "the log only grows", "nothing but the log changes", "nothing
  is written to this stream" are of this kind. Only what is written where can matter.
\<close>

locale careful_effects =
  fixes R :: "'z net_scheme \<Rightarrow> 'z net_scheme \<Rightarrow> bool" and ok :: "sys_call \<Rightarrow> bool"
  assumes stable_refl: "R w w"
    and stable_trans: "R u v \<Longrightarrow> R v w \<Longrightarrow> R u w"
    and stable_called: "ok c \<Longrightarrow> R w (called c w)"
    and ok_unless_write: "(\<And>s bs. c \<noteq> Write_All s bs) \<Longrightarrow> ok c"
begin

declare stable_refl [simp] stable_called [simp]

lemma ok_plain [simp]:
  "ok (Connect p)" "ok (Set_Read_Timeout s d)" "ok (Set_Write_Timeout s d)" "ok (Flush s)" "ok (Read_Exact s n)"
  "ok (Read_Byte s)" "ok (Try_Clone s)" "ok (Shutdown s how)" "ok Clock"
  by (simp_all add: ok_unless_write)

lemma stable_sys [simp]:
  "R w (snd (sys_connect env p w))" "ok c \<Longrightarrow> R w (snd (sys_unit env c w))" "R w (snd (sys_now env w))"
  "R w (snd (sys_clone env s w))" "R w (snd (read_exact env s n w))" "R w (snd (io_of_sum x w))"
  "R w (snd (io_ret y w))" "R w (snd (io_fail z w))" "ok (Write_All s bs) \<Longrightarrow> R w (snd (write_all env s bs w))"
  by (simp_all add: sys_connect_def sys_unit_def sys_now_def sys_clone_def read_exact_def io_of_sum_def io_ret_def
      io_fail_def write_all_def)

lemma stable_map_err [simp]: "R w (snd (io_map_err h m w)) \<longleftrightarrow> R w (snd (m w))"
  by (auto simp: io_map_err_def split: prod.splits sum.splits)

lemma stable_try [simp]: "R w (snd (io_try m w)) \<longleftrightarrow> R w (snd (m w))"
  by (auto simp: io_try_def split: prod.splits)

lemma stable_bind_result:
  assumes "R w (snd (m w))" and "\<And>a v. m w = (Inr a, v) \<Longrightarrow> R v (snd (f a v))"
  shows "R w (snd (io_bind m f w))"
proof (cases "m w")
  case (Pair r w1)
  then show ?thesis
    using assms(1) stable_trans [OF _ assms(2)] by (auto simp: io_bind_def split: sum.splits)
qed

lemma stable_bind [intro!]: "R w (snd (m w)) \<Longrightarrow> (\<And>a v. R v (snd (f a v))) \<Longrightarrow> R w (snd (io_bind m f w))"
  by (rule stable_bind_result)

lemma stable_write_frame [simp]: "(\<And>bs. ok (Write_All s bs)) \<Longrightarrow> R w (snd (write_frame env ser s v w))"
  by (auto simp: write_frame_def split: option.split)

lemma stable_read_frame [simp]: "R w (snd (read_frame env des s w))"
  by (auto simp: read_frame_def Let_def)

end

text \<open>The relations that no call at all can break.\<close>

locale stable_effects = careful_effects R "\<lambda>_. True" for R :: "'z net_scheme \<Rightarrow> 'z net_scheme \<Rightarrow> bool"

section \<open>The length prefix\<close>

lemma from_to_be_bytes: "from_be_bytes (to_be_bytes w) = w"
proof (rule bit_word_eqI)
  fix n :: nat
  assume n: "n < LENGTH(32)"
  then consider "n < 8" | "8 \<le> n" "n < 16" | "16 \<le> n" "n < 24" | "24 \<le> n" "n < 32"
    by fastforce
  then show "bit (from_be_bytes (to_be_bytes w)) n = bit w n"
    by cases (auto simp: from_be_bytes_def to_be_bytes_def bit_simps)
qed

lemma length_to_be_bytes: "length (to_be_bytes w) = 4"
  by (simp add: to_be_bytes_def)

text \<open>What a length prefix promises: fixed width, and decoding inverts encoding.\<close>

locale length_prefix =
  fixes enc :: "'n \<Rightarrow> byte list" and dec :: "byte list \<Rightarrow> 'n" and width :: nat
  assumes enc_width: "length (enc n) = width"
    and dec_enc: "dec (enc n) = n"
begin

lemma take_prefix [simp]: "take width (enc n @ bs) = enc n"
  by (simp add: enc_width)

lemma drop_prefix [simp]: "drop width (enc n @ bs) = bs"
  by (simp add: enc_width)

lemma dec_prefix: "dec (take width (enc n @ bs)) = n"
  by (simp only: take_prefix dec_enc)

lemma enc_inj: "enc m = enc n \<longleftrightarrow> m = n"
  by (metis dec_enc)

lemma prefix_unique: "enc m @ bs = enc n @ cs \<longleftrightarrow> m = n \<and> bs = cs"
  by (metis append_eq_append_conv enc_inj enc_width)

end

interpretation be: length_prefix to_be_bytes from_be_bytes 4
  by unfold_locales (rule length_to_be_bytes, rule from_to_be_bytes)

subsection \<open>Single calls\<close>

lemma read_exact_calls [simp]: "calls (snd (read_exact env s n w)) = calls w @ [Read_Exact s n]"
  by (simp add: read_exact_def)

lemma sys_unit_calls [simp]: "calls (snd (sys_unit env c w)) = calls w @ [c]"
  by (simp add: sys_unit_def)

lemma u32_try_from_Some:
  "u32_try_from n = Some k \<longleftrightarrow> n < 2 ^ 32 \<and> k = of_nat n"
  by (auto simp: u32_try_from_def)

lemma unat_u32: "n < 2 ^ 32 \<Longrightarrow> unat (of_nat n :: 32 word) = n"
  by (simp add: unat_of_nat)

text \<open>
  \<open>feeds env s bs tr\<close>: from the calls \<open>tr\<close> on, the peer of \<open>s\<close> has exactly the bytes \<open>bs\<close>
  for this reader, whatever else is called meanwhile.
\<close>

fun taken :: "stream \<Rightarrow> sys_call list \<Rightarrow> nat" where
  "taken s [] = 0"
| "taken s (Read_Exact t n # tr) = (if t = s then n + taken s tr else taken s tr)"
| "taken s (Read_Byte t # tr) = (if t = s then Suc (taken s tr) else taken s tr)"
| "taken s (_ # tr) = taken s tr"

definition feeds :: "env \<Rightarrow> stream \<Rightarrow> byte list \<Rightarrow> sys_call list \<Rightarrow> bool" where
  "feeds env s bs tr \<longleftrightarrow> (\<forall>ext. env_read env (tr @ ext) s = Inr (drop (taken s ext) bs))"

text \<open>What was written to a stream.\<close>

fun written :: "stream \<Rightarrow> sys_call list \<Rightarrow> byte list" where
  "written s [] = []"
| "written s (Write_All t bs # tr) = (if t = s then bs @ written s tr else written s tr)"
| "written s (_ # tr) = written s tr"

lemma feeds_read:
  assumes "feeds env s bs tr"
  shows "env_read env tr s = Inr bs"
  using assms [unfolded feeds_def, THEN spec, of "[]"] by simp

lemma taken_append [simp]: "taken s (a @ b) = taken s a + taken s b"
  by (induction s a rule: taken.induct) auto

lemma written_append [simp]: "written s (a @ b) = written s a @ written s b"
  by (induction s a rule: written.induct) auto

lemma feeds_after_read:
  assumes "feeds env s bs tr"
  shows "feeds env s (drop n bs) (tr @ [Read_Exact s n])"
proof -
  have "env_read env ((tr @ [Read_Exact s n]) @ ext) s = Inr (drop (taken s ext) (drop n bs))" for ext
    using assms [unfolded feeds_def, THEN spec, of "Read_Exact s n # ext"] by (simp add: add.commute)
  then show ?thesis by (simp add: feeds_def)
qed

lemma feeds_later: "feeds env s bs tr \<Longrightarrow> feeds env s (drop (taken s ext) bs) (tr @ ext)"
  by (simp add: feeds_def add.commute)

lemma read_exact_fed:
  assumes "feeds env s (bs @ rest) (calls w)"
  shows "read_exact env s (length bs) w = (Inr bs, called (Read_Exact s (length bs)) w)"
    and "feeds env s rest (calls (called (Read_Exact s (length bs)) w))"
  using feeds_read [OF assms] feeds_after_read [OF assms, of "length bs"]
  by (simp_all add: read_exact_def)

lemma read_exact_short:
  assumes "feeds env s bs (calls w)" and "length bs < n"
  shows "read_exact env s n w = (Inl eof, called (Read_Exact s n) w)"
  using feeds_read [OF assms(1)] assms(2) by (simp add: read_exact_def)

subsection \<open>Writing\<close>

lemma write_frame_ok_calls:
  assumes "write_frame env ser s v w = (Inr (), w')"
  obtains bytes where "ser v = Inr bytes" and "length bytes < 2 ^ 32"
    and "calls w' = calls w @ [Write_All s (to_be_bytes (of_nat (length bytes))), Write_All s bytes, Flush s]"
  using assms
  by (auto simp: write_frame_def io_simps write_all_def sys_unit_def u32_try_from_def
      split: sum.splits option.splits if_splits)

lemma write_frame_accepts:
  assumes "ser v = Inr bytes" and "length bytes < 2 ^ 32" and "\<And>tr c. env_unit env tr c = None"
  shows "write_frame env ser s v w =
    (Inr (), called (Flush s) (called (Write_All s bytes)
       (called (Write_All s (to_be_bytes (of_nat (length bytes)))) w)))"
  using assms
  by (simp add: write_frame_def io_simps write_all_def sys_unit_def u32_try_from_def)

lemma write_frame_refuses:
  assumes "ser v = Inr bytes" and "2 ^ 32 \<le> length bytes"
  shows "write_frame env ser s v w = (Inl (TooLarge (length bytes)), w)"
  using assms by (simp add: write_frame_def io_simps u32_try_from_def)

subsection \<open>Reading\<close>

lemma read_frame_fed:
  assumes fed: "feeds env s (to_be_bytes (of_nat (length bytes)) @ bytes @ rest) (calls w)"
    and lim: "length bytes \<le> FRAME_LIMIT"
  shows "fst (read_frame env des s w) = (case des bytes of Inl e \<Rightarrow> Inl (Archive e) | Inr v \<Rightarrow> Inr v)"
    and "feeds env s rest (calls (snd (read_frame env des s w)))"
proof -
  let ?n = "of_nat (length bytes) :: 32 word"
  let ?w1 = "called (Read_Exact s 4) w"
  let ?w2 = "called (Read_Exact s (length bytes)) ?w1"
  have len: "unat ?n = length bytes"
    using lim by (intro unat_u32) (simp add: FRAME_LIMIT_def)
  have r1: "read_exact env s 4 w = (Inr (to_be_bytes ?n), ?w1)"
    and f1: "feeds env s (bytes @ rest) (calls ?w1)"
    using read_exact_fed [OF fed] by (simp_all add: length_to_be_bytes)
  note r2 = read_exact_fed [OF f1]
  have "read_frame env des s w = (case des bytes of Inl e \<Rightarrow> Inl (Archive e) | Inr v \<Rightarrow> Inr v, ?w2)"
    using lim by (simp add: read_frame_def io_simps r1 r2(1) len from_to_be_bytes split: sum.splits)
  with r2(2) show "fst (read_frame env des s w) = (case des bytes of Inl e \<Rightarrow> Inl (Archive e) | Inr v \<Rightarrow> Inr v)"
    and "feeds env s rest (calls (snd (read_frame env des s w)))"
    by simp_all
qed

lemma read_frame_too_large:
  assumes fed: "feeds env s (to_be_bytes (of_nat n) @ rest) (calls w)"
    and "FRAME_LIMIT < n" and "n < 2 ^ 32"
  shows "fst (read_frame env des s w) = Inl (TooLarge n)"
proof -
  have r: "read_exact env s 4 w = (Inr (to_be_bytes (of_nat n)), called (Read_Exact s 4) w)"
    using read_exact_fed(1) [OF fed] by (simp add: length_to_be_bytes)
  show ?thesis
    using assms(2,3) unat_u32 [OF assms(3)]
    by (simp add: read_frame_def io_simps r from_to_be_bytes)
qed

text \<open>Every read of \<open>read_frame\<close> is on its own stream and never larger than the limit.\<close>

lemma read_frame_calls:
  "\<exists>ext. calls (snd (read_frame env des s w)) = calls w @ ext \<and>
     (\<forall>c \<in> set ext. \<exists>n. c = Read_Exact s n \<and> n \<le> FRAME_LIMIT)"
  by (auto simp: read_frame_def io_simps Let_def read_exact_def FRAME_LIMIT_def
      split: sum.splits prod.splits if_splits)

subsection \<open>A peer for examples\<close>

text \<open>A system where every call succeeds and the peer of each stream holds the given bytes.\<close>

definition quiet_env :: "byte list \<Rightarrow> env" where
  "quiet_env bs = \<lparr>env_connect = (\<lambda>_ _. Inr 0), env_clone = (\<lambda>_ s. Inr (Suc s)),
     env_unit = (\<lambda>_ _. None), env_read = (\<lambda>tr s. Inr (drop (taken s tr) bs)), env_now = (\<lambda>_. 0)\<rparr>"

lemma quiet_env_feeds: "feeds (quiet_env bs) s (drop (taken s tr) bs) tr"
  by (simp add: feeds_def quiet_env_def add.commute)

section \<open>Properties\<close>

text \<open>C25. Framing round trip: what \<open>write_frame\<close> puts on the wire for a value whose archive
  is at most one MiB, \<open>read_frame\<close> reads back as that value, and leaves the reader exactly
  at the byte after the frame, so frames follow each other without loss.\<close>

theorem frame_roundtrip:
  assumes "write_frame env ser s v w = (Inr (), w')"
    and "ser v = Inr bytes" and "des bytes = Inr v" and "length bytes \<le> FRAME_LIMIT"
    and "feeds peer t (written s (drop (length (calls w)) (calls w')) @ rest) (calls r)"
  shows "fst (read_frame peer des t r) = Inr v \<and>
    feeds peer t rest (calls (snd (read_frame peer des t r)))"
proof -
  from assms(1,2) have "calls w' = calls w @
      [Write_All s (to_be_bytes (of_nat (length bytes))), Write_All s bytes, Flush s]"
    by (auto elim!: write_frame_ok_calls)
  with assms(5) have "feeds peer t (to_be_bytes (of_nat (length bytes)) @ bytes @ rest) (calls r)"
    by simp
  with assms(3,4) show ?thesis using read_frame_fed [of peer t bytes rest r des] by simp
qed

lemma frame_roundtrip_witness:
  "fst (read_frame (quiet_env [0, 0, 0, 2, 7, 9, 5]) (\<lambda>bs. Inr bs) 3 \<lparr>calls = []\<rparr>) = Inr [7, 9]"
proof -
  let ?w = "\<lparr>calls = []\<rparr>"
  let ?w' = "snd (write_frame (quiet_env []) Inr 3 [7, 9] ?w)"
  have wr: "write_frame (quiet_env []) Inr 3 [7, 9] ?w = (Inr (), ?w')"
    by (simp add: write_frame_accepts [of _ _ "[7, 9]"] quiet_env_def)
  have "written 3 (drop (length (calls ?w)) (calls ?w')) = [0, 0, 0, 2, 7, 9]"
    by (simp add: write_frame_accepts [of _ _ "[7, 9]"] quiet_env_def to_be_bytes_def)
  then have fd: "feeds (quiet_env [0, 0, 0, 2, 7, 9, 5]) 3
      (written 3 (drop (length (calls ?w)) (calls ?w')) @ [5]) (calls ?w)"
    using quiet_env_feeds [of "[0, 0, 0, 2, 7, 9, 5]" 3 "[]"] by simp
  show ?thesis
    using frame_roundtrip [OF wr refl, of "\<lambda>bs. Inr bs", OF refl _ fd] by (simp add: FRAME_LIMIT_def)
qed

text \<open>A reader is never made to allocate or read more than one MiB for a frame, whatever
  length the peer announces: each read is on the connection itself and within the limit.\<close>

lemma read_frame_bounded:
  "list_all (\<lambda>c. \<exists>n. c = Read_Exact s n \<and> n \<le> FRAME_LIMIT)
     (drop (length (calls w)) (calls (snd (read_frame env des s w))))"
  using read_frame_calls [of env des s w] by (auto simp: list_all_iff)



text \<open>C40. The limit is one-sided: \<open>write_frame\<close> sends a frame of more than one MiB (and less
  than four GiB) without complaint, and every reader of that frame refuses it.\<close>

theorem oversized_frame_written_not_read:
  assumes "ser v = Inr bytes" and "FRAME_LIMIT < length bytes" and "length bytes < 2 ^ 32"
    and "\<And>tr c. env_unit env tr c = None"
    and "feeds peer t (written s (drop (length (calls w)) (calls (snd (write_frame env ser s v w))))) (calls r)"
  shows "fst (write_frame env ser s v w) = Inr () \<and>
    fst (read_frame peer des t r) = Inl (TooLarge (length bytes))"
proof -
  have "write_frame env ser s v w = (Inr (), called (Flush s) (called (Write_All s bytes)
      (called (Write_All s (to_be_bytes (of_nat (length bytes)))) w)))"
    by (rule write_frame_accepts [of ser v bytes]) (rule assms)+
  with assms(2,3,5) show ?thesis
    by (auto intro: read_frame_too_large)
qed

lemma oversized_frame_written_not_read_witness:
  "let bytes = replicate (2 ^ 20 + 1) (0 :: byte) in
   fst (write_frame (quiet_env []) Inr 0 bytes \<lparr>calls = []\<rparr>) = Inr () \<and>
   fst (read_frame (quiet_env (to_be_bytes (2 ^ 20 + 1) @ bytes)) (\<lambda>bs. Inr bs) 0 \<lparr>calls = []\<rparr>) =
     Inl (TooLarge (2 ^ 20 + 1))"
proof -
  let ?bytes = "replicate (2 ^ 20 + 1) (0 :: byte)"
  let ?w = "\<lparr>calls = []\<rparr>"
  have unit: "\<And>tr c. env_unit (quiet_env []) tr c = None" by (simp add: quiet_env_def)
  have len: "length ?bytes = 2 ^ 20 + 1" by (rule length_replicate)
  have "calls (snd (write_frame (quiet_env []) Inr 0 ?bytes ?w)) =
      [Write_All 0 (to_be_bytes (2 ^ 20 + 1)), Write_All 0 ?bytes, Flush 0]"
    using write_frame_accepts [of Inr ?bytes ?bytes "quiet_env []" 0 ?w, OF refl _ unit]
    by (simp only: len) simp
  then have "feeds (quiet_env (to_be_bytes (2 ^ 20 + 1) @ ?bytes)) 0
      (written 0 (drop (length (calls ?w)) (calls (snd (write_frame (quiet_env []) Inr 0 ?bytes ?w))))) (calls ?w)"
    using quiet_env_feeds [of "to_be_bytes (2 ^ 20 + 1) @ ?bytes" 0 "[]"]
    by (simp only: net.simps) (simp del: replicate_Suc)
  from oversized_frame_written_not_read [of Inr ?bytes ?bytes, OF refl _ _ unit this, of Inr]
  show ?thesis by (simp only: len Let_def FRAME_LIMIT_def) simp
qed

end
