(* ===== verification/Store.thy ===== *)
theory Store imports Text Frame begin

text \<open>
  message-nexus/src/store.rs and generated/memory.rs: the one durable record of the Nexus.
  \<open>recognize\<close> decides, without opening a writer, whether an existing file is a current store;
  \<open>open_store\<close> opens it and seeds it when it has no record. The database (redb) and the engine
  (sema-engine) are records of functions; what the code relies on of the engine is
  \<open>engine_contract\<close>.
\<close>

section \<open>Results without effects\<close>

definition sum_bind :: "'e + 'a \<Rightarrow> ('a \<Rightarrow> 'e + 'b) \<Rightarrow> 'e + 'b" where
  "sum_bind r f = (case r of Inl e \<Rightarrow> Inl e | Inr a \<Rightarrow> f a)"

definition map_err :: "('e \<Rightarrow> 'f) \<Rightarrow> 'e + 'a \<Rightarrow> 'f + 'a" where
  "map_err h r = (case r of Inl e \<Rightarrow> Inl (h e) | Inr a \<Rightarrow> Inr a)"

definition err_or_unit :: "'e option \<Rightarrow> 'e + unit" where
  "err_or_unit e = (case e of None \<Rightarrow> Inr () | Some x \<Rightarrow> Inl x)"

lemma sum_bind_simps [simp]: "sum_bind (Inl e) f = Inl e" "sum_bind (Inr a) f = f a"
  by (simp_all add: sum_bind_def)

lemma sum_bind_Inr_iff: "sum_bind r f = Inr b \<longleftrightarrow> (\<exists>a. r = Inr a \<and> f a = Inr b)"
  by (cases r) auto

lemma map_err_Inr_iff [simp]: "map_err h r = Inr a \<longleftrightarrow> r = Inr a"
  by (cases r) (auto simp: map_err_def)

lemma map_err_Inl [simp]: "map_err h (Inl e) = Inl (h e)"
  by (simp add: map_err_def)

section \<open>The record\<close>

record standard =
  std_configuration :: configuration
  std_meta_configured :: bool

definition changed_configuration :: "standard \<Rightarrow> configuration \<Rightarrow> bool \<Rightarrow> standard" where
  "changed_configuration s configuration meta =
     \<lparr>std_configuration = configuration, std_meta_configured = std_meta_configured s \<or> meta\<rparr>"

definition STANDARD_TABLE :: string where "STANDARD_TABLE = ''message_nexus_standard''"
definition STANDARD_KEY :: string where "STANDARD_KEY = ''standard''"
definition STANDARD_FAMILY :: string where "STANDARD_FAMILY = ''message-nexus-standard''"
definition STANDARD_LABEL :: string where "STANDARD_LABEL = ''message-nexus-standard-v2''"

datatype store_error = Engine string | Unrecognized string string | StateInvariant

text \<open>\<open>Display\<close> of a store error.\<close>

definition show_store_error :: "store_error \<Rightarrow> string" where
  "show_store_error e =
     (case e of
        Engine t \<Rightarrow> ''sema-engine: '' @ t
      | Unrecognized path reason \<Rightarrow>
          ''store '' @ path @ '' is not current Message Standard2: '' @ reason
      | StateInvariant \<Rightarrow> ''the store does not hold exactly one Standard record'')"

section \<open>Recognition\<close>

record registration =
  reg_table :: string
  reg_family :: string
  reg_hash :: string

text \<open>Archive decoding, the label hash and the \<open>Debug\<close> rendering of a string.\<close>

record decoders =
  dec_u64 :: "byte list \<Rightarrow> string + nat"
  dec_registration :: "byte list \<Rightarrow> string + registration"
  dec_standard :: "byte list \<Rightarrow> string + standard"
  for_label :: "string \<Rightarrow> string"
  debug_str :: "string \<Rightarrow> string"

text \<open>A table of archives: lookup by key, and its entries, each of which may fail to load.\<close>

record bytes_table =
  tbl_get :: "string \<Rightarrow> string + byte list option"
  tbl_iter :: "string + (string + string \<times> byte list) list"

record redb_read =
  table_u64 :: "string \<Rightarrow> string + (string \<Rightarrow> string + nat option)"
  table_bytes :: "string \<Rightarrow> string + bytes_table"
  table_string_bytes :: "string \<Rightarrow> string + bytes_table"

text \<open>\<open>ReadOnlyDatabase::open\<close>: opened (then \<open>begin_read\<close>), repair needed, or another error.\<close>

datatype ro_open = Ro_Opened "string + redb_read" | Ro_RepairAborted | Ro_Error string

record file_view =
  path_exists :: bool
  path_display :: string
  ro_open :: ro_open
  file_open :: "string option"
  file_lock_shared :: "string option"
  file_bytes :: "string + byte list"
  mem_set_len :: "nat \<Rightarrow> string option"
  mem_write :: "byte list \<Rightarrow> string option"
  mem_create :: "byte list \<Rightarrow> string + (string + redb_read)"

text \<open>The read transaction: of the file, or of a recovered copy of it in memory.\<close>

definition obtain_read :: "file_view \<Rightarrow> string + redb_read" where
  "obtain_read fv =
     (case ro_open fv of
        Ro_Opened r \<Rightarrow> r
      | Ro_RepairAborted \<Rightarrow>
          sum_bind (err_or_unit (file_open fv)) (\<lambda>_.
          sum_bind (err_or_unit (file_lock_shared fv)) (\<lambda>_.
          sum_bind (file_bytes fv) (\<lambda>bytes.
          sum_bind (err_or_unit (mem_set_len fv (length bytes))) (\<lambda>_.
          sum_bind (err_or_unit (mem_write fv bytes)) (\<lambda>_.
          sum_bind (mem_create fv bytes) (\<lambda>begun. begun))))))
      | Ro_Error e \<Rightarrow> Inl e)"

definition debug_option_nat :: "nat option \<Rightarrow> string" where
  "debug_option_nat v = (case v of None \<Rightarrow> ''None'' | Some n \<Rightarrow> ''Some('' @ decimal n @ '')'')"

definition check_version :: "redb_read \<Rightarrow> string + unit" where
  "check_version rd =
     sum_bind (table_u64 rd ''__sema_meta'') (\<lambda>metadata.
     sum_bind (metadata ''schema_version'') (\<lambda>version.
     if version \<noteq> Some 2
     then Inl (''schema version '' @ debug_option_nat version @ '', expected 2'')
     else Inr ()))"

definition check_layout :: "decoders \<Rightarrow> redb_read \<Rightarrow> string + unit" where
  "check_layout dec rd =
     sum_bind (table_bytes rd ''__sema_engine_counters'') (\<lambda>counters.
     sum_bind (tbl_get counters ''engine_storage_layout'') (\<lambda>stored.
     sum_bind (case stored of None \<Rightarrow> Inr None
               | Some bytes \<Rightarrow> sum_bind (dec_u64 dec bytes) (\<lambda>n. Inr (Some n))) (\<lambda>layout.
     if layout \<noteq> Some 7
     then Inl (''engine layout '' @ debug_option_nat layout @ '', expected 7'')
     else Inr ())))"

fun catalog_loop :: "decoders \<Rightarrow> (string + string \<times> byte list) list \<Rightarrow> nat \<Rightarrow> string + nat" where
  "catalog_loop dec [] seen = Inr seen"
| "catalog_loop dec (Inl e # es) seen = Inl e"
| "catalog_loop dec (Inr (key, bytes) # es) seen =
     (case dec_registration dec bytes of
        Inl e \<Rightarrow> Inl e
      | Inr reg \<Rightarrow>
          if key \<noteq> ''message_nexus_standard'' \<or> reg_table reg \<noteq> ''message_nexus_standard''
             \<or> reg_family reg \<noteq> ''message-nexus-standard''
             \<or> reg_hash reg \<noteq> for_label dec ''message-nexus-standard-v2''
          then Inl (''foreign or historical family '' @ debug_str dec key)
          else catalog_loop dec es (seen + 1))"

definition check_catalog :: "decoders \<Rightarrow> redb_read \<Rightarrow> string + unit" where
  "check_catalog dec rd =
     sum_bind (table_bytes rd ''__sema_engine_catalog'') (\<lambda>catalog.
     sum_bind (tbl_iter catalog) (\<lambda>entries.
     sum_bind (catalog_loop dec entries 0) (\<lambda>seen.
     if seen \<noteq> 1 then Inl ''missing Standard2 family'' else Inr ())))"

fun rows_loop :: "decoders \<Rightarrow> (string + string \<times> byte list) list \<Rightarrow> nat \<Rightarrow> string + nat" where
  "rows_loop dec [] seen = Inr seen"
| "rows_loop dec (Inl e # es) seen = Inl e"
| "rows_loop dec (Inr (key, bytes) # es) seen =
     (if key \<noteq> STANDARD_KEY then Inl ''noncanonical Standard key''
      else (case dec_standard dec bytes of
              Inl e \<Rightarrow> Inl e
            | Inr _ \<Rightarrow> rows_loop dec es (seen + 1)))"

definition check_rows :: "decoders \<Rightarrow> redb_read \<Rightarrow> string + unit" where
  "check_rows dec rd =
     sum_bind (table_string_bytes rd ''message_nexus_standard'') (\<lambda>standards.
     sum_bind (tbl_iter standards) (\<lambda>entries.
     sum_bind (rows_loop dec entries 0) (\<lambda>seen.
     if seen \<noteq> 1 then Inl ''missing or duplicate Standard row'' else Inr ())))"

definition recognize :: "decoders \<Rightarrow> file_view \<Rightarrow> store_error + unit" where
  "recognize dec fv =
     (if \<not> path_exists fv then Inr ()
      else map_err (Unrecognized (path_display fv))
        (sum_bind (obtain_read fv) (\<lambda>rd.
         sum_bind (check_version rd) (\<lambda>_.
         sum_bind (check_layout dec rd) (\<lambda>_.
         sum_bind (check_catalog dec rd) (\<lambda>_.
         check_rows dec rd))))))"

section \<open>The engine\<close>

record descriptor =
  desc_table :: string
  desc_family :: string
  desc_hash :: string

text \<open>
  The engine's calls. Its methods take a shared reference and change the database, so the
  writing calls return the next engine state also when they fail.
\<close>

record 'g engine_api =
  eng_open :: "string \<Rightarrow> nat \<Rightarrow> descriptor \<Rightarrow> string + 'g"
  eng_register :: "'g \<Rightarrow> descriptor \<Rightarrow> string + 'g"
  eng_match :: "'g \<Rightarrow> string \<Rightarrow> string \<Rightarrow> string + standard list"
  eng_assert :: "'g \<Rightarrow> string \<Rightarrow> string \<Rightarrow> standard \<Rightarrow> (string + unit) \<times> 'g"
  eng_mutate :: "'g \<Rightarrow> string \<Rightarrow> string \<Rightarrow> standard \<Rightarrow> (string + unit) \<times> 'g"

definition standards :: "'g engine_api \<Rightarrow> 'g \<Rightarrow> store_error + standard list" where
  "standards api g = map_err Engine (eng_match api g STANDARD_TABLE STANDARD_KEY)"

definition read_standard :: "'g engine_api \<Rightarrow> 'g \<Rightarrow> store_error + standard" where
  "read_standard api g =
     sum_bind (standards api g) (\<lambda>rows. case rows of [s] \<Rightarrow> Inr s | _ \<Rightarrow> Inl StateInvariant)"

definition replace_standard :: "'g engine_api \<Rightarrow> standard \<Rightarrow> ('g, store_error, unit) io" where
  "replace_standard api s = io_map_err Engine (\<lambda>g. eng_mutate api g STANDARD_TABLE STANDARD_KEY s)"

definition standard_descriptor :: "decoders \<Rightarrow> descriptor" where
  "standard_descriptor dec = \<lparr>desc_table = STANDARD_TABLE, desc_family = STANDARD_FAMILY,
     desc_hash = for_label dec STANDARD_LABEL\<rparr>"

definition open_store ::
  "decoders \<Rightarrow> 'g engine_api \<Rightarrow> file_view \<Rightarrow> string \<Rightarrow> standard \<Rightarrow> store_error + 'g" where
  "open_store dec api fv path seed =
     sum_bind (recognize dec fv) (\<lambda>_.
     sum_bind (map_err Engine (eng_open api path 2 (standard_descriptor dec))) (\<lambda>engine.
     sum_bind (map_err Engine (eng_register api engine (standard_descriptor dec))) (\<lambda>g.
     sum_bind (standards api g) (\<lambda>rows.
     if rows = [] then
       (case eng_assert api g STANDARD_TABLE STANDARD_KEY seed of
          (Inl e, _) \<Rightarrow> Inl (Engine e) | (Inr _, g') \<Rightarrow> Inr g')
     else Inr g))))"

section \<open>What recognition accepts\<close>

text \<open>The identity of a current store, as a predicate on what the database holds.\<close>

definition standard2_identity :: "decoders \<Rightarrow> redb_read \<Rightarrow> bool" where
  "standard2_identity dec rd \<longleftrightarrow>
     (\<exists>metadata. table_u64 rd ''__sema_meta'' = Inr metadata \<and> metadata ''schema_version'' = Inr (Some 2)) \<and>
     (\<exists>counters bytes. table_bytes rd ''__sema_engine_counters'' = Inr counters \<and>
        tbl_get counters ''engine_storage_layout'' = Inr (Some bytes) \<and> dec_u64 dec bytes = Inr 7) \<and>
     (\<exists>catalog bytes reg. table_bytes rd ''__sema_engine_catalog'' = Inr catalog \<and>
        tbl_iter catalog = Inr [Inr (''message_nexus_standard'', bytes)] \<and>
        dec_registration dec bytes = Inr reg \<and> reg_table reg = ''message_nexus_standard'' \<and>
        reg_family reg = ''message-nexus-standard'' \<and>
        reg_hash reg = for_label dec ''message-nexus-standard-v2'') \<and>
     (\<exists>rows bytes s. table_string_bytes rd ''message_nexus_standard'' = Inr rows \<and>
        tbl_iter rows = Inr [Inr (STANDARD_KEY, bytes)] \<and> dec_standard dec bytes = Inr s)"

lemma check_version_ok:
  "check_version rd = Inr () \<longleftrightarrow>
   (\<exists>metadata. table_u64 rd ''__sema_meta'' = Inr metadata \<and> metadata ''schema_version'' = Inr (Some 2))"
  by (auto simp: check_version_def sum_bind_Inr_iff split: if_splits)

lemma check_layout_ok:
  "check_layout dec rd = Inr () \<longleftrightarrow>
   (\<exists>counters bytes. table_bytes rd ''__sema_engine_counters'' = Inr counters \<and>
      tbl_get counters ''engine_storage_layout'' = Inr (Some bytes) \<and> dec_u64 dec bytes = Inr 7)"
  by (auto simp: check_layout_def sum_bind_Inr_iff split: if_splits option.splits)

definition catalog_entry_ok :: "decoders \<Rightarrow> string + string \<times> byte list \<Rightarrow> bool" where
  "catalog_entry_ok dec entry \<longleftrightarrow> (\<exists>bytes reg. entry = Inr (''message_nexus_standard'', bytes) \<and>
     dec_registration dec bytes = Inr reg \<and> reg_table reg = ''message_nexus_standard'' \<and>
     reg_family reg = ''message-nexus-standard'' \<and>
     reg_hash reg = for_label dec ''message-nexus-standard-v2'')"

definition row_ok :: "decoders \<Rightarrow> string + string \<times> byte list \<Rightarrow> bool" where
  "row_ok dec entry \<longleftrightarrow> (\<exists>bytes s. entry = Inr (STANDARD_KEY, bytes) \<and> dec_standard dec bytes = Inr s)"

lemma catalog_loop_Inr:
  "catalog_loop dec es n = Inr m \<longleftrightarrow> list_all (catalog_entry_ok dec) es \<and> m = n + length es"
  by (induction dec es n rule: catalog_loop.induct)
     (auto simp: catalog_entry_ok_def split: sum.splits if_splits)

lemma rows_loop_Inr:
  "rows_loop dec es n = Inr m \<longleftrightarrow> list_all (row_ok dec) es \<and> m = n + length es"
  by (induction dec es n rule: rows_loop.induct) (auto simp: row_ok_def split: sum.splits if_splits)

lemma guard_Inr [simp]: "(if c then Inl e else Inr ()) = Inr () \<longleftrightarrow> \<not> c"
  by simp

lemma check_catalog_ok:
  "check_catalog dec rd = Inr () \<longleftrightarrow>
   (\<exists>catalog e. table_bytes rd ''__sema_engine_catalog'' = Inr catalog \<and>
      tbl_iter catalog = Inr [e] \<and> catalog_entry_ok dec e)"
  by (auto simp: check_catalog_def sum_bind_Inr_iff catalog_loop_Inr length_Suc_conv)

lemma check_rows_ok:
  "check_rows dec rd = Inr () \<longleftrightarrow>
   (\<exists>rows e. table_string_bytes rd ''message_nexus_standard'' = Inr rows \<and>
      tbl_iter rows = Inr [e] \<and> row_ok dec e)"
  by (auto simp: check_rows_def sum_bind_Inr_iff rows_loop_Inr length_Suc_conv)

text \<open>C21. Recognition accepts exactly an absent file, or one whose database (opened read-only, or
  recovered into memory after a crash) is schema 2 with engine layout 7, holds the one
  registered family and one decodable row under the one key.\<close>

theorem recognize_iff:
  "recognize dec fv = Inr () \<longleftrightarrow>
   (if path_exists fv then \<exists>rd. obtain_read fv = Inr rd \<and> standard2_identity dec rd else True)"
  unfolding recognize_def standard2_identity_def
  by (auto simp: sum_bind_Inr_iff check_version_ok check_layout_ok check_catalog_ok check_rows_ok
      catalog_entry_ok_def row_ok_def)

section \<open>What the code relies on of the engine\<close>

text \<open>
  \<open>rows g\<close> is the keyed table: a match by key answers the row under it, an assertion adds a
  row where there was none, a mutation replaces one; a failed write leaves the table alone.
\<close>

definition engine_contract :: "'g engine_api \<Rightarrow> ('g \<Rightarrow> string \<Rightarrow> standard option) \<Rightarrow> bool" where
  "engine_contract api rows \<longleftrightarrow>
     (\<forall>g k xs. eng_match api g STANDARD_TABLE k = Inr xs \<longrightarrow>
        xs = (case rows g k of None \<Rightarrow> [] | Some s \<Rightarrow> [s])) \<and>
     (\<forall>g k s g'. eng_assert api g STANDARD_TABLE k s = (Inr (), g') \<longrightarrow> rows g' = (rows g)(k \<mapsto> s)) \<and>
     (\<forall>g k s e g'. eng_assert api g STANDARD_TABLE k s = (Inl e, g') \<longrightarrow> rows g' = rows g) \<and>
     (\<forall>g k s g'. eng_mutate api g STANDARD_TABLE k s = (Inr (), g') \<longrightarrow> rows g' = (rows g)(k \<mapsto> s)) \<and>
     (\<forall>g k s e g'. eng_mutate api g STANDARD_TABLE k s = (Inl e, g') \<longrightarrow> rows g' = rows g)"

lemma contract_match:
  "engine_contract api rows \<Longrightarrow> eng_match api g STANDARD_TABLE k = Inr xs \<Longrightarrow>
   xs = (case rows g k of None \<Rightarrow> [] | Some s \<Rightarrow> [s])"
  unfolding engine_contract_def by (elim conjE) simp

lemma contract_assert:
  "engine_contract api rows \<Longrightarrow> eng_assert api g STANDARD_TABLE k s = (Inr (), g') \<Longrightarrow>
   rows g' = (rows g)(k \<mapsto> s)"
  unfolding engine_contract_def by blast

lemma contract_mutate:
  "engine_contract api rows \<Longrightarrow> eng_mutate api g STANDARD_TABLE k s = (Inr (), g') \<Longrightarrow>
   rows g' = (rows g)(k \<mapsto> s)"
  unfolding engine_contract_def by blast

lemma contract_mutate_err:
  "engine_contract api rows \<Longrightarrow> eng_mutate api g STANDARD_TABLE k s = (Inl e, g') \<Longrightarrow> rows g' = rows g"
  unfolding engine_contract_def by blast

lemmas engine_laws = contract_match contract_assert contract_mutate contract_mutate_err

text \<open>The \<open>KeepsStandard\<close> interface: one current record, read and replaced.\<close>

locale keeps_standard =
  fixes read :: "'st \<Rightarrow> store_error + standard"
    and replace :: "standard \<Rightarrow> ('st, store_error, unit) io"
    and ok :: "'st \<Rightarrow> bool"
    and current :: "'st \<Rightarrow> standard"
  assumes read_current: "ok st \<Longrightarrow> read st = Inr s \<Longrightarrow> s = current st"
    and replace_done: "ok st \<Longrightarrow> replace s st = (Inr (), st') \<Longrightarrow> ok st' \<and> current st' = s"
    and replace_failed: "ok st \<Longrightarrow> replace s st = (Inl e, st') \<Longrightarrow> ok st' \<and> current st' = current st"
begin

lemma replace_then_read:
  "ok st \<Longrightarrow> replace s st = (Inr (), st') \<Longrightarrow> read st' = Inr t \<Longrightarrow> t = s"
  using replace_done read_current by blast

lemma replace_keeps_ok: "ok st \<Longrightarrow> ok (snd (replace s st))"
proof (cases "replace s st")
  case (Pair r st')
  assume "ok st"
  with Pair replace_done [of st s st'] replace_failed [of st s _ st'] show "ok (snd (replace s st))"
    by (cases r) auto
qed

lemma failed_replace_then_read:
  "ok st \<Longrightarrow> replace s st = (Inl e, st') \<Longrightarrow> read st = Inr t \<Longrightarrow> read st' = Inr t' \<Longrightarrow> t' = t"
  using replace_failed read_current by metis

end

definition store_ok :: "'g engine_api \<Rightarrow> ('g \<Rightarrow> string \<Rightarrow> standard option) \<Rightarrow> 'g \<Rightarrow> bool" where
  "store_ok api rows g \<longleftrightarrow> engine_contract api rows \<and> rows g STANDARD_KEY \<noteq> None"

definition stored :: "('g \<Rightarrow> string \<Rightarrow> standard option) \<Rightarrow> 'g \<Rightarrow> standard" where
  "stored rows g = (case rows g STANDARD_KEY of Some s \<Rightarrow> s
     | None \<Rightarrow> \<lparr>std_configuration = \<lparr>conf_ordinary = [], conf_meta = [], conf_flow = []\<rparr>, std_meta_configured = False\<rparr>)"

lemma standards_stored:
  assumes "store_ok api rows g" and "standards api g = Inr xs"
  shows "xs = [stored rows g]"
proof -
  from assms(2) have "eng_match api g STANDARD_TABLE STANDARD_KEY = Inr xs"
    by (simp add: standards_def)
  with assms(1) show ?thesis
    using contract_match [of api rows g STANDARD_KEY xs] by (auto simp: store_ok_def stored_def)
qed

lemma read_standard_stored:
  "store_ok api rows g \<Longrightarrow> read_standard api g = Inr s \<Longrightarrow> s = stored rows g"
proof -
  assume ok: "store_ok api rows g" and rd: "read_standard api g = Inr s"
  from rd obtain xs where xs: "standards api g = Inr xs"
    by (auto simp: read_standard_def sum_bind_Inr_iff)
  from standards_stored [OF ok xs] rd xs show "s = stored rows g"
    by (simp add: read_standard_def)
qed

lemma read_standard_fails:
  "store_ok api rows g \<Longrightarrow> read_standard api g = Inl e \<Longrightarrow> \<exists>t. e = Engine t"
proof (cases "standards api g")
  case (Inl e')
  then show "read_standard api g = Inl e \<Longrightarrow> \<exists>t. e = Engine t"
    by (cases "eng_match api g STANDARD_TABLE STANDARD_KEY") (auto simp: read_standard_def standards_def map_err_def)
next
  case (Inr xs)
  assume "store_ok api rows g" and "read_standard api g = Inl e"
  with Inr standards_stored [of api rows g xs] show "\<exists>t. e = Engine t"
    by (simp add: read_standard_def)
qed

lemma replace_standard_done:
  "store_ok api rows g \<Longrightarrow> replace_standard api s g = (Inr (), g') \<Longrightarrow>
   store_ok api rows g' \<and> stored rows g' = s"
  by (auto simp: store_ok_def stored_def replace_standard_def io_map_err_def dest!: contract_mutate
      split: prod.splits sum.splits)

lemma replace_standard_failed:
  "store_ok api rows g \<Longrightarrow> replace_standard api s g = (Inl e, g') \<Longrightarrow>
   store_ok api rows g' \<and> stored rows g' = stored rows g"
  by (auto simp: store_ok_def stored_def replace_standard_def io_map_err_def dest!: contract_mutate_err
      split: prod.splits sum.splits)

interpretation kept: keeps_standard "read_standard api" "replace_standard api" "store_ok api rows" "stored rows"
  for api rows
  by unfold_locales (rule read_standard_stored replace_standard_done replace_standard_failed; assumption)+

text \<open>An engine over one in-memory table, for the examples.\<close>

definition mem_engine :: "(string \<Rightarrow> standard option) engine_api" where
  "mem_engine = \<lparr>eng_open = (\<lambda>_ _ _. Inr (\<lambda>_. None)), eng_register = (\<lambda>g _. Inr g),
     eng_match = (\<lambda>g _ k. Inr (case g k of None \<Rightarrow> [] | Some s \<Rightarrow> [s])),
     eng_assert = (\<lambda>g _ k s. if g k = None then (Inr (), g(k \<mapsto> s)) else (Inl ''exists'', g)),
     eng_mutate = (\<lambda>g _ k s. if g k = None then (Inl ''absent'', g) else (Inr (), g(k \<mapsto> s)))\<rparr>"

lemma mem_engine_contract: "engine_contract mem_engine (\<lambda>g. g)"
  by (auto simp: engine_contract_def mem_engine_def split: if_splits)

lemma open_store_result:
  assumes "engine_contract api rows" and "open_store dec api fv path seed = Inr g'"
  shows "recognize dec fv = Inr () \<and>
    (\<exists>engine g. eng_open api path 2 (standard_descriptor dec) = Inr engine \<and>
      eng_register api engine (standard_descriptor dec) = Inr g \<and>
      rows g' STANDARD_KEY = Some (case rows g STANDARD_KEY of None \<Rightarrow> seed | Some s \<Rightarrow> s)) \<and>
    store_ok api rows g'"
proof -
  from assms(2) obtain engine g xs where r: "recognize dec fv = Inr ()"
    and e: "eng_open api path 2 (standard_descriptor dec) = Inr engine"
    and g: "eng_register api engine (standard_descriptor dec) = Inr g"
    and xs: "eng_match api g STANDARD_TABLE STANDARD_KEY = Inr xs"
    and fin: "(if xs = [] then
       (case eng_assert api g STANDARD_TABLE STANDARD_KEY seed of
          (Inl e, _) \<Rightarrow> Inl (Engine e) | (Inr _, g') \<Rightarrow> Inr g')
     else Inr g) = Inr g'"
    by (auto simp: open_store_def sum_bind_Inr_iff standards_def)
  have "rows g' STANDARD_KEY = Some (case rows g STANDARD_KEY of None \<Rightarrow> seed | Some s \<Rightarrow> s)"
  proof (cases "rows g STANDARD_KEY")
    case None
    with contract_match [OF assms(1) xs] have "xs = []" by simp
    with fin have "eng_assert api g STANDARD_TABLE STANDARD_KEY seed = (Inr (), g')"
      by (simp split: prod.splits sum.splits)
    from contract_assert [OF assms(1) this] None show ?thesis by simp
  next
    case (Some s)
    with contract_match [OF assms(1) xs] fin show ?thesis by simp
  qed
  with r e g assms(1) show ?thesis by (auto simp: store_ok_def)
qed

lemma open_store_ok:
  "engine_contract api rows \<Longrightarrow> open_store dec api fv path seed = Inr g \<Longrightarrow> store_ok api rows g"
  using open_store_result [of api rows dec fv path seed g] by simp

section \<open>Properties\<close>

text \<open>C22. Opening never rewrites a store: an opened store holds the record it held before, and
  only a store with no record gets the seed; and a file that is not recognised is never opened.\<close>

theorem open_store_seeds_or_resumes:
  assumes "engine_contract api rows" and "open_store dec api fv path seed = Inr g'"
  shows "recognize dec fv = Inr () \<and>
    (\<exists>engine g. eng_open api path 2 (standard_descriptor dec) = Inr engine \<and>
      eng_register api engine (standard_descriptor dec) = Inr g \<and>
      rows g' STANDARD_KEY = Some (case rows g STANDARD_KEY of None \<Rightarrow> seed | Some s \<Rightarrow> s)) \<and>
    store_ok api rows g'"
  by (rule open_store_result [OF assms])

definition sample_fresh_file :: file_view where
  "sample_fresh_file = \<lparr>path_exists = False, path_display = ''/s/message.sema'', ro_open = Ro_Error [],
     file_open = None, file_lock_shared = None, file_bytes = Inr [], mem_set_len = (\<lambda>_. None),
     mem_write = (\<lambda>_. None), mem_create = (\<lambda>_. Inl [])\<rparr>"

definition sample_decoders :: decoders where
  "sample_decoders = \<lparr>dec_u64 = (\<lambda>bs. Inr (length bs)), dec_registration = (\<lambda>_. Inl ''bad''),
     dec_standard = (\<lambda>_. Inl ''bad''), for_label = (\<lambda>l. l), debug_str = (\<lambda>s. s)\<rparr>"

definition sample_standard :: standard where
  "sample_standard = \<lparr>std_configuration = \<lparr>conf_ordinary = ''/r/m'', conf_meta = ''/r/o'', conf_flow = ''/r/f''\<rparr>,
     std_meta_configured = False\<rparr>"

lemma open_store_seeds_or_resumes_witness:
  "\<exists>g. open_store sample_decoders mem_engine sample_fresh_file ''/s/message.sema'' sample_standard = Inr g \<and>
     store_ok mem_engine (\<lambda>g. g) g \<and> stored (\<lambda>g. g) g = sample_standard"
proof -
  let ?g = "[STANDARD_KEY \<mapsto> sample_standard]"
  have o: "open_store sample_decoders mem_engine sample_fresh_file ''/s/message.sema'' sample_standard = Inr ?g"
    by (simp add: open_store_def recognize_def sample_fresh_file_def mem_engine_def standards_def map_err_def)
  from open_store_seeds_or_resumes [OF mem_engine_contract o] show ?thesis
    using o by (auto simp: stored_def)
qed

end
