(* ===== verification/Flow_Edge.thy ===== *)
theory Flow_Edge imports Store "HOL-Library.Sublist" begin

text \<open>
  message-nexus/src/flow_edge.rs: the typed operations Message sends to Flow, each one
  connection, one query frame and one response frame, plus the status subscription. Flow
  itself is the environment. A world also keeps the transcript of the typed contacts with
  Flow: the query and what came of it. The transcript is read by theorems only.
\<close>

datatype edge_failure = Unreachable | Broken | Edge_Refused refusal | Unexpected

datatype flow_send_reply =
  Flow_Reply_Queued send_acceptance | Flow_Reply_Sent send_receipt | Flow_Reply_Failed send_failure

datatype contact =
    Exchanged flow_query "edge_failure + flow_response"
  | Subscribed flow_query "edge_failure + stream"

record flow_world = net +
  contacts :: "contact list"

text \<open>The rkyv archives of the Flow contract.\<close>

record flow_codec =
  ser_query :: "flow_query \<Rightarrow> string + byte list"
  de_response :: "byte list \<Rightarrow> string + flow_response"

section \<open>One exchange\<close>

definition read_timeout :: "flow_query \<Rightarrow> nat option" where
  "read_timeout q =
     (case q of
        Ask_Deliver _ d m \<Rightarrow> if d = Wake \<and> abrupt m then None else Some 2
      | _ \<Rightarrow> Some 2)"

definition raw_exchange ::
  "env \<Rightarrow> flow_codec \<Rightarrow> string \<Rightarrow> flow_query \<Rightarrow> ('z net_scheme, edge_failure, flow_response) io" where
  "raw_exchange env cod path q =
     io_bind (io_map_err (\<lambda>_. Unreachable) (sys_connect env path)) (\<lambda>s.
     io_bind (io_map_err (\<lambda>_. Broken) (sys_unit env (Set_Read_Timeout s (read_timeout q)))) (\<lambda>_.
     io_bind (io_map_err (\<lambda>_. Broken) (sys_unit env (Set_Write_Timeout s (Some 2)))) (\<lambda>_.
     io_bind (io_map_err (\<lambda>_. Unreachable) (write_frame env (ser_query cod) s q)) (\<lambda>_.
     io_map_err (\<lambda>_. Broken) (read_frame env (de_response cod) s)))))"

definition noted :: "contact \<Rightarrow> 'z flow_world_scheme \<Rightarrow> 'z flow_world_scheme" where
  "noted c w = w\<lparr>contacts := contacts w @ [c]\<rparr>"

definition exchange ::
  "env \<Rightarrow> flow_codec \<Rightarrow> string \<Rightarrow> flow_query \<Rightarrow> ('z flow_world_scheme, edge_failure, flow_response) io" where
  "exchange env cod path q w =
     (case raw_exchange env cod path q w of (r, w') \<Rightarrow> (r, noted (Exchanged q r) w'))"

section \<open>The operations\<close>

text \<open>Every operation answers its own variant, reports a refusal and calls anything else unexpected.\<close>

definition expecting :: "(flow_response \<Rightarrow> 'a option) \<Rightarrow> flow_response \<Rightarrow> edge_failure + 'a" where
  "expecting pick r =
     (case pick r of
        Some a \<Rightarrow> Inr a
      | None \<Rightarrow> (case r of Flow_Refused refusal \<Rightarrow> Inl (Edge_Refused refusal) | _ \<Rightarrow> Inl Unexpected))"

definition pick_bound :: "flow_response \<Rightarrow> string option" where
  "pick_bound r = (case r of Flow_Bound flow_id \<Rightarrow> Some flow_id | _ \<Rightarrow> None)"

definition pick_identified :: "flow_response \<Rightarrow> address option" where
  "pick_identified r = (case r of Flow_Identified a \<Rightarrow> Some a | _ \<Rightarrow> None)"

definition pick_locked :: "flow_response \<Rightarrow> lock option" where
  "pick_locked r = (case r of Flow_Locked l \<Rightarrow> Some l | _ \<Rightarrow> None)"

definition pick_released :: "flow_response \<Rightarrow> unit option" where
  "pick_released r = (case r of Flow_Released \<Rightarrow> Some () | _ \<Rightarrow> None)"

definition pick_delivered :: "bool \<Rightarrow> flow_response \<Rightarrow> flow_send_reply option" where
  "pick_delivered is_abrupt r =
     (case r of
        Flow_SendAccepted acceptance \<Rightarrow>
          if is_abrupt
          then Some (Flow_Reply_Failed \<lparr>fail_id = Some (acc_id acceptance), fail_reason = ReceiptUncertain\<rparr>)
          else Some (Flow_Reply_Queued acceptance)
      | Flow_Sent receipt \<Rightarrow> Some (Flow_Reply_Sent receipt)
      | Flow_Failed failure \<Rightarrow> Some (Flow_Reply_Failed failure)
      | _ \<Rightarrow> None)"

definition flow_bind :: "env \<Rightarrow> flow_codec \<Rightarrow> string \<Rightarrow> address \<Rightarrow> process \<Rightarrow>
    ('z flow_world_scheme, edge_failure, string) io" where
  "flow_bind env cod path a p =
     io_bind (exchange env cod path (Ask_Bind a p)) (\<lambda>r. io_of_sum (expecting pick_bound r))"

definition identify :: "env \<Rightarrow> flow_codec \<Rightarrow> string \<Rightarrow> process \<Rightarrow>
    ('z flow_world_scheme, edge_failure, address) io" where
  "identify env cod path p =
     io_bind (exchange env cod path (Ask_Identify p)) (\<lambda>r. io_of_sum (expecting pick_identified r))"

definition identify_thread :: "env \<Rightarrow> flow_codec \<Rightarrow> string \<Rightarrow> process \<Rightarrow> string \<Rightarrow>
    ('z flow_world_scheme, edge_failure, address) io" where
  "identify_thread env cod path p native_session_id =
     io_bind (exchange env cod path (Ask_IdentifyThread p native_session_id))
       (\<lambda>r. io_of_sum (expecting pick_identified r))"

definition flow_lock :: "env \<Rightarrow> flow_codec \<Rightarrow> string \<Rightarrow> address \<Rightarrow> recipient \<Rightarrow>
    ('z flow_world_scheme, edge_failure, lock) io" where
  "flow_lock env cod path sender to =
     io_bind (exchange env cod path (Ask_Lock sender to)) (\<lambda>r. io_of_sum (expecting pick_locked r))"

definition deliver :: "env \<Rightarrow> flow_codec \<Rightarrow> string \<Rightarrow> lock \<Rightarrow> send_request \<Rightarrow>
    ('z flow_world_scheme, edge_failure, flow_send_reply) io" where
  "deliver env cod path l request =
     io_bind (exchange env cod path (Ask_Deliver l (req_delivery request) (req_message request)))
       (\<lambda>r. io_of_sum (expecting (pick_delivered (abrupt (req_message request))) r))"

definition release :: "env \<Rightarrow> flow_codec \<Rightarrow> string \<Rightarrow> lock \<Rightarrow>
    ('z flow_world_scheme, edge_failure, unit) io" where
  "release env cod path l =
     io_bind (exchange env cod path (Ask_Release l)) (\<lambda>r. io_of_sum (expecting pick_released r))"

text \<open>A subscription is the connection its query was written to; it has no read timeout.\<close>

definition raw_subscribe ::
  "env \<Rightarrow> flow_codec \<Rightarrow> string \<Rightarrow> flow_query \<Rightarrow> ('z net_scheme, edge_failure, stream) io" where
  "raw_subscribe env cod path q =
     io_bind (io_map_err (\<lambda>_. Unreachable) (sys_connect env path)) (\<lambda>s.
     io_bind (io_map_err (\<lambda>_. Broken) (sys_unit env (Set_Write_Timeout s (Some 2)))) (\<lambda>_.
     io_bind (io_map_err (\<lambda>_. Unreachable) (write_frame env (ser_query cod) s q)) (\<lambda>_.
     io_ret s)))"

definition observe_sender :: "env \<Rightarrow> flow_codec \<Rightarrow> string \<Rightarrow> process \<Rightarrow> string option \<Rightarrow> int option \<Rightarrow>
    ('z flow_world_scheme, edge_failure, stream) io" where
  "observe_sender env cod path p thread cursor w =
     (let q = Ask_ObserveSender p thread cursor in
      case raw_subscribe env cod path q w of (r, w') \<Rightarrow> (r, noted (Subscribed q r) w'))"

definition subscription_next :: "env \<Rightarrow> flow_codec \<Rightarrow> stream \<Rightarrow> ('z net_scheme, edge_failure, flow_response) io" where
  "subscription_next env cod s = io_map_err (\<lambda>_. Broken) (read_frame env (de_response cod) s)"

definition interrupt_handle :: "env \<Rightarrow> stream \<Rightarrow> ('z net_scheme, edge_failure, stream) io" where
  "interrupt_handle env s = io_map_err (\<lambda>_. Broken) (sys_clone env s)"

section \<open>What a typed channel promises\<close>

text \<open>
  The interface the service relies on: an exchange adds exactly its own query and outcome to
  the transcript, and when it fails it is unreachable or broken: a refusal is always an answer.
  The operations then tell the truth about that outcome.
\<close>

locale flow_channel =
  fixes exch :: "flow_query \<Rightarrow> ('w, edge_failure, flow_response) io"
    and log :: "'w \<Rightarrow> contact list"
  assumes exch_logged: "log (snd (exch q w)) = log w @ [Exchanged q (fst (exch q w))]"
    and exch_failure: "fst (exch q w) = Inl f \<Longrightarrow> f = Unreachable \<or> f = Broken"
begin

lemma typed_call:
  "log (snd (io_bind (exch q) (\<lambda>r. io_of_sum (f r)) w)) = log w @ [Exchanged q (fst (exch q w))]"
  "fst (io_bind (exch q) (\<lambda>r. io_of_sum (f r)) w) = sum_bind (fst (exch q w)) f"
  using exch_logged [of q w]
  by (auto simp: io_bind_def io_of_sum_def split: prod.splits sum.splits)

lemma typed_callE:
  assumes "io_bind (exch q) (\<lambda>r. io_of_sum (f r)) w = (res, w')"
  obtains answer where "res = sum_bind answer f" and "log w' = log w @ [Exchanged q answer]"
    and "\<And>e. answer = Inl e \<Longrightarrow> e = Unreachable \<or> e = Broken"
  using assms typed_call [of q f w] exch_failure [of q w] by (metis fst_conv snd_conv)

end

text \<open>The calls of one exchange do not touch the transcript.\<close>

lemma contacts_called [simp]: "contacts (called c w) = contacts w"
  by (simp add: called_def)

lemma sys_connect_contacts [simp]: "contacts (snd (sys_connect env p w)) = contacts w"
  by (simp add: sys_connect_def)

lemma sys_unit_contacts [simp]: "contacts (snd (sys_unit env c w)) = contacts w"
  by (simp add: sys_unit_def)

lemma io_bind_contacts:
  "contacts (snd (m w)) = contacts w \<Longrightarrow> (\<And>a w. contacts (snd (f a w)) = contacts w) \<Longrightarrow>
   contacts (snd (io_bind m f w)) = contacts (w :: 'z flow_world_scheme)"
  by (auto simp: io_bind_def split: prod.splits sum.splits)

lemma io_map_err_contacts [simp]:
  "contacts (snd (io_map_err h m w)) = contacts (snd (m w))"
  by (auto simp: io_map_err_def split: prod.splits sum.splits)

lemma write_frame_contacts [simp]:
  "contacts (snd (write_frame env ser s v w)) = contacts (w :: 'z flow_world_scheme)"
  by (auto simp: write_frame_def io_simps write_all_def sys_unit_def split: prod.splits sum.splits option.splits)

lemma read_frame_contacts [simp]:
  "contacts (snd (read_frame env des s w)) = contacts (w :: 'z flow_world_scheme)"
  by (auto simp: read_frame_def io_simps Let_def read_exact_def split: prod.splits sum.splits if_splits)

lemma raw_exchange_contacts [simp]:
  "contacts (snd (raw_exchange env cod path q w)) = contacts (w :: 'z flow_world_scheme)"
  unfolding raw_exchange_def by (intro io_bind_contacts) simp_all

lemma raw_subscribe_contacts [simp]:
  "contacts (snd (raw_subscribe env cod path q w)) = contacts (w :: 'z flow_world_scheme)"
  unfolding raw_subscribe_def by (intro io_bind_contacts) (simp_all add: io_ret_def)

lemma contacts_noted [simp]: "contacts (noted c w) = contacts w @ [c]"
  by (simp add: noted_def)

lemma exchange_logged:
  "contacts (snd (exchange env cod path q w)) = contacts w @ [Exchanged q (fst (exchange env cod path q w))]"
  using raw_exchange_contacts [of env cod path q w]
  by (cases "raw_exchange env cod path q w") (simp add: exchange_def)

lemma raw_exchange_failure:
  "raw_exchange env cod path q w = (Inl f, w') \<Longrightarrow> f = Unreachable \<or> f = Broken"
  by (auto simp: raw_exchange_def io_simps split: prod.splits sum.splits)

lemma exchange_failure: "fst (exchange env cod path q w) = Inl f \<Longrightarrow> f = Unreachable \<or> f = Broken"
  by (auto simp: exchange_def dest!: raw_exchange_failure split: prod.splits)

interpretation edge: flow_channel "exchange env cod path" contacts for env cod path
  by unfold_locales (rule exchange_logged, rule exchange_failure)

lemma observe_sender_logged:
  "contacts (snd (observe_sender env cod path p thread cursor w)) =
   contacts w @ [Subscribed (Ask_ObserveSender p thread cursor) (fst (observe_sender env cod path p thread cursor w))]"
  using raw_subscribe_contacts [of env cod path "Ask_ObserveSender p thread cursor" w]
  by (cases "raw_subscribe env cod path (Ask_ObserveSender p thread cursor) w") (simp add: observe_sender_def Let_def)

section \<open>A scripted Flow\<close>

text \<open>
  For examples: a system on which every call succeeds and the connection number \<open>k\<close> is
  answered by the \<open>k\<close>-th response of a script, as the tests' fake Flow does.
\<close>

fun connects :: "sys_call list \<Rightarrow> nat" where
  "connects [] = 0"
| "connects (Connect _ # tr) = Suc (connects tr)"
| "connects (_ # tr) = connects tr"

definition scripted_env :: env where
  "scripted_env = \<lparr>env_connect = (\<lambda>tr _. Inr (connects tr)), env_clone = (\<lambda>_ s. Inr s),
     env_unit = (\<lambda>_ _. None),
     env_read = (\<lambda>tr s. Inr (drop (taken s tr) [0, 0, 0, 1, of_nat s])), env_now = (\<lambda>_. 0)\<rparr>"

definition scripted_codec :: "flow_response list \<Rightarrow> flow_codec" where
  "scripted_codec script = \<lparr>ser_query = (\<lambda>_. Inr [1]),
     de_response = (\<lambda>bs. case bs of
         [b] \<Rightarrow> if unat b < length script then Inr (script ! unat b) else Inl ''no answer''
       | _ \<Rightarrow> Inl ''bad archive'')\<rparr>"

definition exchange_calls :: "string \<Rightarrow> nat \<Rightarrow> flow_query \<Rightarrow> sys_call list" where
  "exchange_calls path k q =
     [Connect path, Set_Read_Timeout k (read_timeout q), Set_Write_Timeout k (Some 2),
      Write_All k [0, 0, 0, 1], Write_All k [1], Flush k, Read_Exact k 4, Read_Exact k 1]"

lemma connects_append [simp]: "connects (a @ b) = connects a + connects b"
  by (induction a rule: connects.induct) auto

lemma scripted_write:
  "write_frame scripted_env (ser_query (scripted_codec script)) k q w =
   (Inr (), called (Flush k) (called (Write_All k [1]) (called (Write_All k [0, 0, 0, 1]) w)))"
  by (subst write_frame_accepts [of _ _ "[1]"]) (simp_all add: scripted_codec_def scripted_env_def to_be_bytes_def)

lemma scripted_read:
  assumes "taken k (calls w) = 0" and "k < length script" and "length script \<le> 256"
  shows "read_frame scripted_env (de_response (scripted_codec script)) k w =
    (Inr (script ! k), called (Read_Exact k 1) (called (Read_Exact k 4) w))"
proof -
  have "unat (of_nat k :: 8 word) = k" using assms by (simp add: unat_of_nat)
  moreover have "from_be_bytes [0, 0, 0, 1] = 1" by (simp add: from_be_bytes_def)
  ultimately show ?thesis
    using assms
    by (simp add: read_frame_def io_simps read_exact_def scripted_env_def scripted_codec_def FRAME_LIMIT_def)
qed

lemma scripted_exchange:
  assumes "connects (calls w) = k" and "taken k (calls w) = 0" and "k < length script" and "length script \<le> 256"
  shows "exchange scripted_env (scripted_codec script) path q w =
    (Inr (script ! k), w\<lparr>calls := calls w @ exchange_calls path k q,
       contacts := contacts w @ [Exchanged q (Inr (script ! k))]\<rparr>)"
proof -
  have conn: "sys_connect scripted_env path w = (Inr k, called (Connect path) w)"
    using assms(1) by (simp add: sys_connect_def scripted_env_def)
  have unit: "sys_unit scripted_env c v = (Inr (), called c v)" for c and v :: "'z flow_world_scheme"
    by (simp add: sys_unit_def scripted_env_def)
  show ?thesis
    using assms(2-4)
    by (simp add: exchange_def raw_exchange_def io_simps conn unit scripted_write scripted_read
        exchange_calls_def noted_def called_def)
qed

section \<open>The calls of an exchange\<close>

lemma write_frame_steps:
  assumes "ser v = Inr b" and "length b < 2 ^ 32"
  shows "\<exists>k. calls (snd (write_frame env ser s v w)) =
      calls w @ take k [Write_All s (to_be_bytes (of_nat (length b))), Write_All s b, Flush s] \<and>
    (fst (write_frame env ser s v w) = Inr () \<longrightarrow> k = 3)"
proof -
  let ?c = "Write_All s (to_be_bytes (of_nat (length b)))"
  consider (head) "env_unit env (calls w) ?c \<noteq> None"
    | (body) "env_unit env (calls w) ?c = None" "env_unit env (calls w @ [?c]) (Write_All s b) \<noteq> None"
    | (flush) "env_unit env (calls w) ?c = None" "env_unit env (calls w @ [?c]) (Write_All s b) = None"
    by blast
  then show ?thesis
  proof cases
    case head
    then show ?thesis
      using assms by (intro exI [of _ 1]) (auto simp: write_frame_def io_simps u32_try_from_def write_all_def sys_unit_def)
  next
    case body
    then show ?thesis
      using assms by (intro exI [of _ 2]) (auto simp: write_frame_def io_simps u32_try_from_def write_all_def sys_unit_def)
  next
    case flush
    then show ?thesis
      using assms by (intro exI [of _ 3])
        (auto simp: write_frame_def io_simps u32_try_from_def write_all_def sys_unit_def split: option.splits)
  qed
qed

lemma write_frame_shape:
  "\<exists>ext p b. calls (snd (write_frame env ser s v w)) = calls w @ ext \<and>
     prefix ext [Write_All s p, Write_All s b, Flush s] \<and>
     (fst (write_frame env ser s v w) = Inr () \<longrightarrow>
        ser v = Inr b \<and> length b < 2 ^ 32 \<and> p = to_be_bytes (of_nat (length b)) \<and>
        ext = [Write_All s p, Write_All s b, Flush s])"
proof (cases "ser v")
  case (Inl e)
  then show ?thesis
    by (intro exI [of _ "[]"]) (simp add: write_frame_def io_simps)
next
  case (Inr b)
  show ?thesis
  proof (cases "length b < 2 ^ 32")
    case False
    then show ?thesis
      using Inr by (intro exI [of _ "[]"]) (simp add: write_frame_def io_simps u32_try_from_def)
  next
    case True
    from write_frame_steps [of ser v b, OF Inr True] show ?thesis
      using Inr True by (metis take_is_prefix numeral_3_eq_3 take_Suc_Cons take_0)
  qed
qed

lemma read_frame_shape:
  "\<exists>ext n. calls (snd (read_frame env des s w)) = calls w @ ext \<and> prefix ext [Read_Exact s 4, Read_Exact s n]"
  by (auto simp: read_frame_def io_simps Let_def read_exact_def split: sum.splits if_splits)


lemma io_map_err_calls [simp]: "calls (snd (io_map_err h m w)) = calls (snd (m w))"
  by (auto simp: io_map_err_def split: prod.splits sum.splits)

lemma calls_noted [simp]: "calls (noted c w) = calls w"
  by (simp add: noted_def)

text \<open>The calls of one exchange when nothing fails, and how far an outcome got among them.\<close>

definition exchange_order :: "string \<Rightarrow> flow_query \<Rightarrow> stream \<Rightarrow> byte list \<Rightarrow> byte list \<Rightarrow> nat \<Rightarrow> sys_call list" where
  "exchange_order path q s p b n =
     [Connect path, Set_Read_Timeout s (read_timeout q), Set_Write_Timeout s (Some 2),
      Write_All s p, Write_All s b, Flush s, Read_Exact s 4, Read_Exact s n]"

text \<open>The part of an exchange after its connection is set up: the frame out, the frame in.\<close>

lemma framed_shape:
  assumes run_def: "run = io_bind (io_map_err (\<lambda>_. Unreachable) (write_frame env (ser_query cod) s q))
    (\<lambda>_. io_map_err (\<lambda>_. Broken) (read_frame env (de_response cod) s)) w"
  shows "\<exists>p b n ext. calls (snd run) = calls w @ ext \<and>
    prefix ext [Write_All s p, Write_All s b, Flush s, Read_Exact s 4, Read_Exact s n] \<and>
    (fst run = Inl Unreachable \<longrightarrow> length ext \<le> 3) \<and>
    (length ext > 3 \<longrightarrow> ser_query cod q = Inr b \<and> length b < 2 ^ 32 \<and> p = to_be_bytes (of_nat (length b)))"
proof -
  let ?wr = "write_frame env (ser_query cod) s q w"
  obtain ext p b where wr: "calls (snd ?wr) = calls w @ ext" "prefix ext [Write_All s p, Write_All s b, Flush s]"
    "fst ?wr = Inr () \<longrightarrow> ser_query cod q = Inr b \<and> length b < 2 ^ 32 \<and> p = to_be_bytes (of_nat (length b)) \<and>
       ext = [Write_All s p, Write_All s b, Flush s]"
    using write_frame_shape [of env "ser_query cod" s q w] by blast
  show ?thesis
  proof (cases "fst ?wr")
    case (Inl e)
    then have "run = (Inl Unreachable, snd ?wr)" by (auto simp: run_def io_bind_def io_map_err_def split: prod.splits)
    moreover have "length ext \<le> 3" using prefix_length_le [OF wr(2)] by simp
    moreover have "prefix ext ([Write_All s p, Write_All s b, Flush s] @ [Read_Exact s 4, Read_Exact s 0])"
      using wr(2) by (rule prefix_order.trans) simp
    ultimately show ?thesis using wr(1)
      by (intro exI [of _ p] exI [of _ b] exI [of _ 0] exI [of _ ext]) simp
  next
    case (Inr u)
    then have full: "ext = [Write_All s p, Write_All s b, Flush s]" "ser_query cod q = Inr b"
      "length b < 2 ^ 32" "p = to_be_bytes (of_nat (length b))" using wr(3) by simp_all
    have run: "run = io_map_err (\<lambda>_. Broken) (read_frame env (de_response cod) s) (snd ?wr)"
      using Inr by (auto simp: run_def io_bind_def io_map_err_def split: prod.splits)
    obtain rest n where rd: "calls (snd (read_frame env (de_response cod) s (snd ?wr))) = calls (snd ?wr) @ rest"
      "prefix rest [Read_Exact s 4, Read_Exact s n]"
      using read_frame_shape [of env "de_response cod" s "snd ?wr"] by blast
    have "calls (snd run) = calls w @ ext @ rest" by (simp only: run io_map_err_calls rd(1) wr(1)) simp
    moreover have "fst run \<noteq> Inl Unreachable" by (simp add: run io_map_err_def split: prod.splits sum.splits)
    ultimately show ?thesis using full rd(2)
      by (intro exI [of _ p] exI [of _ b] exI [of _ n] exI [of _ "ext @ rest"]) simp
  qed
qed

lemma raw_exchange_shape:
  "\<exists>s p b n ext. calls (snd (raw_exchange env cod path q w)) = calls w @ ext \<and>
     prefix ext (exchange_order path q s p b n) \<and>
     (fst (raw_exchange env cod path q w) = Inl Unreachable \<longrightarrow> length ext \<le> 6) \<and>
     (length ext > 6 \<longrightarrow> ser_query cod q = Inr b \<and> length b < 2 ^ 32 \<and> p = to_be_bytes (of_nat (length b)))"
proof (cases "env_connect env (calls w) path")
  case (Inl e)
  then show ?thesis
    by (intro exI [of _ "[Connect path]"] exI)
       (auto simp: raw_exchange_def io_simps sys_connect_def exchange_order_def)
next
  case (Inr s)
  let ?c1 = "Set_Read_Timeout s (read_timeout q)" and ?c2 = "Set_Write_Timeout s (Some 2)"
  let ?w1 = "called (Connect path) w"
  let ?w3 = "called ?c2 (called ?c1 ?w1)"
  consider (t1) "env_unit env (calls ?w1) ?c1 \<noteq> None"
    | (t2) "env_unit env (calls ?w1) ?c1 = None" "env_unit env (calls (called ?c1 ?w1)) ?c2 \<noteq> None"
    | (framed) "env_unit env (calls ?w1) ?c1 = None" "env_unit env (calls (called ?c1 ?w1)) ?c2 = None"
    by blast
  then show ?thesis
  proof cases
    case t1
    with Inr show ?thesis
      by (intro exI [of _ "[Connect path, ?c1]"] exI [of _ s] exI)
         (auto simp: raw_exchange_def io_simps sys_connect_def sys_unit_def exchange_order_def)
  next
    case t2
    with Inr show ?thesis
      by (intro exI [of _ "[Connect path, ?c1, ?c2]"] exI [of _ s] exI)
         (auto simp: raw_exchange_def io_simps sys_connect_def sys_unit_def exchange_order_def)
  next
    case framed
    let ?run = "io_bind (io_map_err (\<lambda>_. Unreachable) (write_frame env (ser_query cod) s q))
      (\<lambda>_. io_map_err (\<lambda>_. Broken) (read_frame env (de_response cod) s))"
    have start: "raw_exchange env cod path q w = ?run ?w3"
      using Inr framed by (simp add: raw_exchange_def io_bind_def [of "io_map_err _ (sys_connect _ _)"]
        io_bind_def [of "io_map_err _ (sys_unit _ _)"] io_map_err_def [of _ "sys_connect _ _"]
        io_map_err_def [of _ "sys_unit _ _"] sys_connect_def sys_unit_def)
    obtain p b n ext where f: "calls (snd (?run ?w3)) = calls ?w3 @ ext"
      "prefix ext [Write_All s p, Write_All s b, Flush s, Read_Exact s 4, Read_Exact s n]"
      "fst (?run ?w3) = Inl Unreachable \<longrightarrow> length ext \<le> 3"
      "length ext > 3 \<longrightarrow> ser_query cod q = Inr b \<and> length b < 2 ^ 32 \<and> p = to_be_bytes (of_nat (length b))"
      using framed_shape [OF refl, of env cod s q ?w3] by blast
    then show ?thesis unfolding start
      by (intro exI [of _ s] exI [of _ p] exI [of _ b] exI [of _ n] exI [of _ "[Connect path, ?c1, ?c2] @ ext"])
         (simp add: exchange_order_def)
  qed
qed

section \<open>Calls are only added\<close>

definition grows :: "'z net_scheme \<Rightarrow> 'z net_scheme \<Rightarrow> bool" where
  "grows w w' \<longleftrightarrow> prefix (calls w) (calls w')"

interpretation grow: stable_effects grows
  by unfold_locales (auto simp: grows_def dest: prefix_order.trans)

lemma grows_noted [simp]: "grows u (noted c w) \<longleftrightarrow> grows u w"
  by (simp add: grows_def)

lemma grows_exchange [simp]: "grows w (snd (exchange env cod path q w))"
  using raw_exchange_shape [of env cod path q w]
  by (cases "raw_exchange env cod path q w") (auto simp: exchange_def grows_def)

lemma grows_operations [simp]:
  "grows w (snd (flow_bind env cod path a p w))" "grows w (snd (identify env cod path p w))"
  "grows w (snd (identify_thread env cod path p t w))" "grows w (snd (flow_lock env cod path a r w))"
  "grows w (snd (deliver env cod path l q w))" "grows w (snd (release env cod path l w))"
  by (auto simp: flow_bind_def identify_def identify_thread_def flow_lock_def deliver_def release_def)

lemma grows_raw_subscribe [simp]: "grows w (snd (raw_subscribe env cod path q w))"
  by (auto simp: raw_subscribe_def)

lemma grows_observe_sender [simp]: "grows w (snd (observe_sender env cod path p th cursor w))"
  using grows_raw_subscribe [of w env cod path "Ask_ObserveSender p th cursor"]
  by (cases "raw_subscribe env cod path (Ask_ObserveSender p th cursor) w") (simp add: observe_sender_def Let_def)

section \<open>Properties\<close>

text \<open>C32. The calls of an exchange, whatever fails on the way, are an initial part of one fixed
  order: connect to Flow's socket, bound the reads, bound the writes by two seconds, write the
  frame of the query, flush, and only then read. "Unreachable" is said only of an exchange that
  has read nothing: once the whole query was written every failure is "broken". Reads are
  unbounded for an abrupt Wake delivery alone, so every other exchange ends and shutdown can
  join its handler.\<close>

theorem exchange_call_order:
  "\<exists>s p b n ext. calls (snd (exchange env cod path q w)) = calls w @ ext \<and>
     prefix ext [Connect path, Set_Read_Timeout s (read_timeout q), Set_Write_Timeout s (Some 2),
       Write_All s p, Write_All s b, Flush s, Read_Exact s 4, Read_Exact s n] \<and>
     (fst (exchange env cod path q w) = Inl Unreachable \<longrightarrow> (\<forall>k. Read_Exact s k \<notin> set ext)) \<and>
     (Read_Exact s 4 \<in> set ext \<longrightarrow> ser_query cod q = Inr b \<and> p = to_be_bytes (of_nat (length b))) \<and>
     (read_timeout q = None \<longleftrightarrow> (\<exists>l m. q = Ask_Deliver l Wake m \<and> abrupt m))"
proof -
  obtain s p b n ext where shape:
    "calls (snd (raw_exchange env cod path q w)) = calls w @ ext" "prefix ext (exchange_order path q s p b n)"
    "fst (raw_exchange env cod path q w) = Inl Unreachable \<longrightarrow> length ext \<le> 6"
    "length ext > 6 \<longrightarrow> ser_query cod q = Inr b \<and> length b < 2 ^ 32 \<and> p = to_be_bytes (of_nat (length b))"
    using raw_exchange_shape [of env cod path q w] by blast
  have reads: "length ext > 6" if "Read_Exact s k \<in> set ext" for k
  proof (rule ccontr)
    assume "\<not> length ext > 6"
    then have "set ext \<subseteq> set (take 6 (exchange_order path q s p b n))"
      using shape(2) by (metis append_eq_conv_conj not_less prefix_def set_take_subset_set_take)
    with that show False by (auto simp: exchange_order_def)
  qed
  have "read_timeout q = None \<longleftrightarrow> (\<exists>l m. q = Ask_Deliver l Wake m \<and> abrupt m)"
    by (auto simp: read_timeout_def split: flow_query.splits)
  moreover have "calls (snd (exchange env cod path q w)) = calls w @ ext"
    "fst (exchange env cod path q w) = fst (raw_exchange env cod path q w)"
    using shape(1) by (cases "raw_exchange env cod path q w"; simp add: exchange_def)+
  ultimately show ?thesis
    using shape(2-4) reads unfolding exchange_order_def by (metis not_less)
qed


lemma exchange_call_order_witness:
  "\<exists>s p b n. prefix (calls (snd (exchange scripted_env (scripted_codec [Flow_Released]) ''/f''
       (Ask_Identify \<lparr>proc_pid = 7, proc_started = 9\<rparr>) \<lparr>calls = [], contacts = []\<rparr>)))
     [Connect ''/f'', Set_Read_Timeout s (Some 2), Set_Write_Timeout s (Some 2),
      Write_All s p, Write_All s b, Flush s, Read_Exact s 4, Read_Exact s n]"
  using exchange_call_order [of scripted_env "scripted_codec [Flow_Released]" "''/f''"
    "Ask_Identify \<lparr>proc_pid = 7, proc_started = 9\<rparr>" "\<lparr>calls = [], contacts = []\<rparr>"]
  by (auto simp: read_timeout_def)

text \<open>A delivery is reported exactly as Flow answered it: queued when Flow accepted a
  message that is not abrupt, sent when Flow says sent, failed when Flow says failed, and an
  acceptance of an abrupt message is a failure with Flow's message id and an uncertain
  receipt, never a success. A refusal is passed on, and nothing is reported without contact.\<close>

lemma deliver_reports_answer:
  "\<exists>answer. contacts (snd (deliver env cod path l q w)) =
       contacts w @ [Exchanged (Ask_Deliver l (req_delivery q) (req_message q)) answer] \<and>
     (fst (deliver env cod path l q w) = Inr (Flow_Reply_Queued a) \<longleftrightarrow>
        answer = Inr (Flow_SendAccepted a) \<and> \<not> abrupt (req_message q)) \<and>
     (fst (deliver env cod path l q w) = Inr (Flow_Reply_Sent rc) \<longleftrightarrow> answer = Inr (Flow_Sent rc)) \<and>
     (fst (deliver env cod path l q w) = Inr (Flow_Reply_Failed f) \<longleftrightarrow>
        answer = Inr (Flow_Failed f) \<or>
        (\<exists>acc. answer = Inr (Flow_SendAccepted acc) \<and> abrupt (req_message q) \<and>
           f = \<lparr>fail_id = Some (acc_id acc), fail_reason = ReceiptUncertain\<rparr>)) \<and>
     (fst (deliver env cod path l q w) = Inl (Edge_Refused k) \<longleftrightarrow> answer = Inr (Flow_Refused k)) \<and>
     (fst (deliver env cod path l q w) = Inl Unreachable \<longleftrightarrow> answer = Inl Unreachable)"
proof (cases "deliver env cod path l q w")
  case (Pair res w')
  obtain answer where "res = sum_bind answer (expecting (pick_delivered (abrupt (req_message q))))"
    and "contacts w' = contacts w @ [Exchanged (Ask_Deliver l (req_delivery q) (req_message q)) answer]"
    and "\<And>e. answer = Inl e \<Longrightarrow> e = Unreachable \<or> e = Broken"
    by (rule edge.typed_callE [OF Pair [unfolded deliver_def]]) (rule that)
  then show ?thesis
    unfolding Pair
    by (intro exI [of _ answer])
       (cases answer; auto simp: sum_bind_def expecting_def pick_delivered_def split: flow_response.splits if_splits)
qed

end
