(* ===== verification/Service.thy ===== *)
theory Service imports Flow_Edge begin

text \<open>
  message-nexus/src/service.rs: Configure and Send over the Nexus memory and the Flow edge.
  A Send reads the Flow socket path from the store once, then identifies the sender, takes a
  lock, delivers under it, gives the lock back where it must, and subscribes to the sender's
  delivery status when the message was queued.
\<close>

section \<open>Configure\<close>

datatype configure_failure = AlreadyConfigured | Store_Failure store_error

text \<open>\<open>configure\<close> over the \<open>KeepsStandard\<close> operations, and the one of the Nexus.\<close>

definition configure_with ::
  "('st \<Rightarrow> store_error + standard) \<Rightarrow> (standard \<Rightarrow> ('st, store_error, unit) io) \<Rightarrow>
   configuration \<Rightarrow> bool \<Rightarrow> ('st, configure_failure, bool) io" where
  "configure_with read replace configuration meta st =
     (case read st of
        Inl e \<Rightarrow> (Inl (Store_Failure e), st)
      | Inr current \<Rightarrow>
          if \<not> meta \<and> std_meta_configured current then (Inl AlreadyConfigured, st)
          else (let restart_required = std_configuration current \<noteq> configuration;
                    updated = changed_configuration current configuration meta
                in io_bind (io_map_err Store_Failure (replace updated)) (\<lambda>_. io_ret restart_required) st))"

definition configure :: "'g engine_api \<Rightarrow> configuration \<Rightarrow> bool \<Rightarrow> ('g, configure_failure, bool) io" where
  "configure api = configure_with (read_standard api) (replace_standard api)"

section \<open>Refusals as Message reports them\<close>

text \<open>The \<open>Debug\<close> renderings of the Flow contract, which belong to another package.\<close>

record debugs =
  debug_refusal :: "refusal \<Rightarrow> string"
  debug_response :: "flow_response \<Rightarrow> string"

definition debug_failure :: "debugs \<Rightarrow> edge_failure \<Rightarrow> string" where
  "debug_failure dbg f =
     (case f of
        Unreachable \<Rightarrow> ''Unreachable''
      | Broken \<Rightarrow> ''Broken''
      | Edge_Refused refusal \<Rightarrow> ''Refused('' @ debug_refusal dbg refusal @ '')''
      | Unexpected \<Rightarrow> ''Unexpected'')"

definition refusal_for_message :: "refusal \<Rightarrow> send_refusal option" where
  "refusal_for_message r =
     (case r of
        Locked \<Rightarrow> Some Send_Locked
      | Held l \<Rightarrow> Some (Send_Held l)
      | Asleep \<Rightarrow> Some Send_Asleep
      | Lapsed \<Rightarrow> Some Send_Lapsed
      | Unknown (Unknown_Address a) \<Rightarrow> Some (Send_Unknown (Msg_Unknown_Address a))
      | Unknown (Unknown_Lock l) \<Rightarrow> Some (Send_Unknown (Msg_Unknown_Lock l))
      | NoLayer \<Rightarrow> Some Send_NoLayer
      | NoneAbove \<Rightarrow> Some Send_NoneAbove
      | NotMessage \<Rightarrow> Some Send_NotMessage
      | NotConfigured \<Rightarrow> Some Send_NotConfigured
      | NotSendServer p \<Rightarrow> Some (Send_NotSendServer p)
      | Unidentified p \<Rightarrow> Some (Send_Unidentified p)
      | Store e \<Rightarrow> Some (Send_Store e)
      | Oversized n \<Rightarrow> Some (Send_Oversized n)
      | Unknown (Unknown_Other _) \<Rightarrow> None
      | Awake _ \<Rightarrow> None
      | Taken _ \<Rightarrow> None
      | OffRoute \<Rightarrow> None
      | Direct _ \<Rightarrow> None)"

definition failure_for_message :: "edge_failure \<Rightarrow> send_refusal" where
  "failure_for_message f =
     (case f of
        Edge_Refused r \<Rightarrow> (case refusal_for_message r of Some m \<Rightarrow> m | None \<Rightarrow> Send_FlowUnreachable)
      | _ \<Rightarrow> Send_FlowUnreachable)"

definition failure_for_send :: "debugs \<Rightarrow> edge_failure \<Rightarrow> bool \<Rightarrow> bool \<Rightarrow> response" where
  "failure_for_send dbg f is_abrupt delivery_may_have_started =
     (if \<not> is_abrupt then Refused (failure_for_message f)
      else Failed \<lparr>fail_id = None, fail_reason =
        (case f of
           Edge_Refused refusal \<Rightarrow> Reason_Refused refusal
         | _ \<Rightarrow>
             if (f = Broken \<or> f = Unexpected) \<and> delivery_may_have_started then ReceiptUncertain
             else NotSent (''Flow exchange ended before delivery: '' @ debug_failure dbg f))\<rparr>)"

section \<open>The clock\<close>

text \<open>Whole seconds since the epoch, 0 before it, and the largest \<open>i64\<close> beyond it.\<close>

definition unix_seconds :: "int \<Rightarrow> int" where
  "unix_seconds nanos =
     (if nanos < 0 then 0
      else let secs = nanos div 10 ^ 9 in if secs < 2 ^ 63 then secs else 2 ^ 63 - 1)"

section \<open>Send\<close>

datatype send_reply =
    Reply_Queued send_acceptance "response + stream"
  | Reply_Sent send_receipt
  | Reply_Failed send_failure

definition flow_edge :: "'g engine_api \<Rightarrow> 'g \<Rightarrow> store_error + string" where
  "flow_edge api g = sum_bind (read_standard api g) (\<lambda>s. Inr (conf_flow (std_configuration s)))"

definition subscription_refusal :: "debugs \<Rightarrow> int option \<Rightarrow> edge_failure \<Rightarrow> response" where
  "subscription_refusal dbg cursor f =
     ObservationInterrupted cursor (''Flow subscription could not open: '' @ debug_failure dbg f)"

text \<open>After the deliver: queued messages are observed, anything else gives the lock back.\<close>

definition settle_delivery :: "env \<Rightarrow> flow_codec \<Rightarrow> debugs \<Rightarrow> string \<Rightarrow> process \<Rightarrow> string option \<Rightarrow> lock \<Rightarrow>
    flow_send_reply \<Rightarrow> ('z flow_world_scheme, response, send_reply) io" where
  "settle_delivery env cod dbg path process thread l reply =
     (case reply of
        Flow_Reply_Sent receipt \<Rightarrow>
          io_bind (io_try (release env cod path l)) (\<lambda>_. io_ret (Reply_Sent receipt))
      | Flow_Reply_Failed failure \<Rightarrow>
          io_bind (io_try (release env cod path l)) (\<lambda>_. io_ret (Reply_Failed failure))
      | Flow_Reply_Queued acceptance \<Rightarrow>
          io_bind (io_try (observe_sender env cod path process thread (Some (acc_cursor acceptance)))) (\<lambda>opened.
          io_ret (Reply_Queued acceptance
            (map_err (subscription_refusal dbg (Some (acc_cursor acceptance))) opened))))"

definition deliver_under_lock :: "env \<Rightarrow> flow_codec \<Rightarrow> debugs \<Rightarrow> string \<Rightarrow> process \<Rightarrow> send_request \<Rightarrow>
    string option \<Rightarrow> lock \<Rightarrow> ('z flow_world_scheme, response, send_reply) io" where
  "deliver_under_lock env cod dbg path process request thread l =
     (let is_abrupt = abrupt (req_message request) in
      io_bind (io_try (deliver env cod path l request)) (\<lambda>delivered.
      case delivered of
        Inr reply \<Rightarrow> settle_delivery env cod dbg path process thread l reply
      | Inl (Edge_Refused refusal) \<Rightarrow>
          io_fail (failure_for_send dbg (Edge_Refused refusal) is_abrupt True)
      | Inl failure \<Rightarrow>
          io_bind (io_try (release env cod path l)) (\<lambda>_.
          io_fail (failure_for_send dbg failure is_abrupt True))))"

text \<open>The sender is known: the queue guard, the lock, its deadline, the delivery.\<close>

definition send_identified :: "env \<Rightarrow> flow_codec \<Rightarrow> debugs \<Rightarrow> string \<Rightarrow> process \<Rightarrow> send_request \<Rightarrow>
    string option \<Rightarrow> address \<Rightarrow> ('z flow_world_scheme, response, send_reply) io" where
  "send_identified env cod dbg path process request thread sender =
     (let is_abrupt = abrupt (req_message request) in
      if is_abrupt \<and> req_delivery request = Queue
      then io_ret (Reply_Failed \<lparr>fail_id = None, fail_reason = QueueNotPermitted\<rparr>)
      else
      io_bind (io_map_err (\<lambda>f. failure_for_send dbg f is_abrupt False)
                 (flow_lock env cod path sender (req_recipient request))) (\<lambda>l.
      io_bind (sys_now env) (\<lambda>now.
      if lock_until l \<le> unix_seconds now
      then io_fail (failure_for_send dbg (Edge_Refused Lapsed) is_abrupt False)
      else deliver_under_lock env cod dbg path process request thread l)))"

definition accept_send :: "env \<Rightarrow> flow_codec \<Rightarrow> debugs \<Rightarrow> 'g engine_api \<Rightarrow> 'g \<Rightarrow> process \<Rightarrow> send_request \<Rightarrow>
    string option \<Rightarrow> ('z flow_world_scheme, response, send_reply) io" where
  "accept_send env cod dbg api g process request thread =
     (let is_abrupt = abrupt (req_message request) in
      case flow_edge api g of
        Inl e \<Rightarrow> io_fail (Refused (Send_Store (show_store_error e)))
      | Inr path \<Rightarrow>
          io_bind (io_map_err (\<lambda>f. failure_for_send dbg f is_abrupt False)
                     (case thread of
                        Some t \<Rightarrow> identify_thread env cod path process t
                      | None \<Rightarrow> identify env cod path process))
            (send_identified env cod dbg path process request thread))"

section \<open>Observation\<close>

definition observe_sends :: "env \<Rightarrow> flow_codec \<Rightarrow> debugs \<Rightarrow> 'g engine_api \<Rightarrow> 'g \<Rightarrow> process \<Rightarrow>
    string option \<Rightarrow> int option \<Rightarrow> ('z flow_world_scheme, response, stream) io" where
  "observe_sends env cod dbg api g process thread cursor =
     (case flow_edge api g of
        Inl e \<Rightarrow> io_fail (Refused (Send_Store (show_store_error e)))
      | Inr path \<Rightarrow>
          io_map_err (\<lambda>f. case f of
               Edge_Refused refusal \<Rightarrow> Refused (failure_for_message (Edge_Refused refusal))
             | _ \<Rightarrow> subscription_refusal dbg cursor f)
            (observe_sender env cod path process thread cursor))"

section \<open>The remaining queries\<close>

definition serve_query :: "'g engine_api \<Rightarrow> query \<Rightarrow> 'g \<Rightarrow> response \<times> 'g" where
  "serve_query api q g =
     (case q of
        Configure configuration \<Rightarrow>
          (case configure api configuration False g of
             (Inr _, g') \<Rightarrow> (Configured, g')
           | (Inl AlreadyConfigured, g') \<Rightarrow> (Refused Send_AlreadyConfigured, g')
           | (Inl (Store_Failure e), g') \<Rightarrow> (Refused (Send_Store (show_store_error e)), g'))
      | _ \<Rightarrow> (Refused Send_FlowUnreachable, g))"

section \<open>Configure, over the interface\<close>

context keeps_standard begin

lemma configure_done:
  assumes "ok st" and "configure_with read replace c meta st = (Inr restart, st')"
  shows "ok st'" and "current st' = changed_configuration (current st) c meta"
    and "restart \<longleftrightarrow> std_configuration (current st) \<noteq> c"
    and "meta \<or> \<not> std_meta_configured (current st)"
proof -
  from assms(2) obtain s where s: "read st = Inr s" and g: "meta \<or> \<not> std_meta_configured s"
    and r: "replace (changed_configuration s c meta) st = (Inr (), st')"
    and b: "restart \<longleftrightarrow> std_configuration s \<noteq> c"
    by (auto simp: configure_with_def io_simps Let_def split: sum.splits prod.splits if_splits)
  from read_current [OF assms(1) s] replace_done [OF assms(1) r] g b
  show "ok st'" and "current st' = changed_configuration (current st) c meta"
    and "restart \<longleftrightarrow> std_configuration (current st) \<noteq> c"
    and "meta \<or> \<not> std_meta_configured (current st)" by auto
qed

lemma configure_refused:
  assumes "ok st" and "configure_with read replace c meta st = (Inl e, st')"
  shows "ok st' \<and> current st' = current st \<and>
    (e = AlreadyConfigured \<longrightarrow> \<not> meta \<and> std_meta_configured (current st) \<and> st' = st)"
proof (cases "read st")
  case (Inl x)
  with assms show ?thesis by (auto simp: configure_with_def)
next
  case (Inr s)
  show ?thesis
  proof (cases "\<not> meta \<and> std_meta_configured s")
    case True
    with Inr assms read_current [OF assms(1) Inr] show ?thesis by (auto simp: configure_with_def)
  next
    case False
    with Inr assms(2) obtain x where "replace (changed_configuration s c meta) st = (Inl x, st')"
      and "e = Store_Failure x"
      by (auto simp: configure_with_def io_simps Let_def split: sum.splits prod.splits if_splits)
    with replace_failed [OF assms(1)] show ?thesis by auto
  qed
qed

lemma configure_closed:
  assumes "ok st" and "std_meta_configured (current st)"
  shows "(\<exists>e. configure_with read replace c False st = (Inl e, st))"
  using assms read_current [OF assms(1)]
  by (auto simp: configure_with_def split: sum.splits)

end

section \<open>Send as a protocol\<close>

definition identity_query :: "process \<Rightarrow> string option \<Rightarrow> flow_query" where
  "identity_query p thread =
     (case thread of None \<Rightarrow> Ask_Identify p | Some t \<Rightarrow> Ask_IdentifyThread p t)"

definition deliver_query :: "lock \<Rightarrow> send_request \<Rightarrow> flow_query" where
  "deliver_query l request = Ask_Deliver l (req_delivery request) (req_message request)"

definition queue_forbidden :: "send_request \<Rightarrow> bool" where
  "queue_forbidden request \<longleftrightarrow> abrupt (req_message request) \<and> req_delivery request = Queue"

text \<open>
  The whole Send as a relation between what is said to Flow and what the client is told: one
  rule per way it can go. \<open>send_protocol dbg ticks p rq th K r\<close>: the contacts \<open>K\<close>, in order,
  give the result \<open>r\<close>, the clock reading one of \<open>ticks\<close> after the lock.
\<close>

inductive send_protocol ::
  "debugs \<Rightarrow> int set \<Rightarrow> process \<Rightarrow> send_request \<Rightarrow> string option \<Rightarrow> contact list \<Rightarrow>
   response + send_reply \<Rightarrow> bool"
  for dbg ticks p rq th where
  unidentified:
    "sum_bind a (expecting pick_identified) = Inl f \<Longrightarrow>
     send_protocol dbg ticks p rq th [Exchanged (identity_query p th) a]
       (Inl (failure_for_send dbg f (abrupt (req_message rq)) False))"
| queue_not_permitted:
    "queue_forbidden rq \<Longrightarrow>
     send_protocol dbg ticks p rq th [Exchanged (identity_query p th) (Inr (Flow_Identified s))]
       (Inr (Reply_Failed \<lparr>fail_id = None, fail_reason = QueueNotPermitted\<rparr>))"
| unlocked:
    "\<not> queue_forbidden rq \<Longrightarrow> sum_bind b (expecting pick_locked) = Inl f \<Longrightarrow>
     send_protocol dbg ticks p rq th
       [Exchanged (identity_query p th) (Inr (Flow_Identified s)),
        Exchanged (Ask_Lock s (req_recipient rq)) b]
       (Inl (failure_for_send dbg f (abrupt (req_message rq)) False))"
| lapsed:
    "\<not> queue_forbidden rq \<Longrightarrow> t \<in> ticks \<Longrightarrow> lock_until l \<le> t \<Longrightarrow>
     send_protocol dbg ticks p rq th
       [Exchanged (identity_query p th) (Inr (Flow_Identified s)),
        Exchanged (Ask_Lock s (req_recipient rq)) (Inr (Flow_Locked l))]
       (Inl (failure_for_send dbg (Edge_Refused Lapsed) (abrupt (req_message rq)) False))"
| deliver_refused:
    "\<not> queue_forbidden rq \<Longrightarrow> t \<in> ticks \<Longrightarrow> t < lock_until l \<Longrightarrow>
     send_protocol dbg ticks p rq th
       [Exchanged (identity_query p th) (Inr (Flow_Identified s)),
        Exchanged (Ask_Lock s (req_recipient rq)) (Inr (Flow_Locked l)),
        Exchanged (deliver_query l rq) (Inr (Flow_Refused refusal))]
       (Inl (failure_for_send dbg (Edge_Refused refusal) (abrupt (req_message rq)) True))"
| deliver_broken:
    "\<not> queue_forbidden rq \<Longrightarrow> t \<in> ticks \<Longrightarrow> t < lock_until l \<Longrightarrow>
     sum_bind c (expecting (pick_delivered (abrupt (req_message rq)))) = Inl f \<Longrightarrow>
     f \<in> {Unreachable, Broken, Unexpected} \<Longrightarrow>
     send_protocol dbg ticks p rq th
       [Exchanged (identity_query p th) (Inr (Flow_Identified s)),
        Exchanged (Ask_Lock s (req_recipient rq)) (Inr (Flow_Locked l)),
        Exchanged (deliver_query l rq) c,
        Exchanged (Ask_Release l) d]
       (Inl (failure_for_send dbg f (abrupt (req_message rq)) True))"
| sent:
    "\<not> queue_forbidden rq \<Longrightarrow> t \<in> ticks \<Longrightarrow> t < lock_until l \<Longrightarrow>
     send_protocol dbg ticks p rq th
       [Exchanged (identity_query p th) (Inr (Flow_Identified s)),
        Exchanged (Ask_Lock s (req_recipient rq)) (Inr (Flow_Locked l)),
        Exchanged (deliver_query l rq) (Inr (Flow_Sent receipt)),
        Exchanged (Ask_Release l) d]
       (Inr (Reply_Sent receipt))"
| failed:
    "\<not> queue_forbidden rq \<Longrightarrow> t \<in> ticks \<Longrightarrow> t < lock_until l \<Longrightarrow>
     sum_bind c (expecting (pick_delivered (abrupt (req_message rq)))) = Inr (Flow_Reply_Failed failure) \<Longrightarrow>
     send_protocol dbg ticks p rq th
       [Exchanged (identity_query p th) (Inr (Flow_Identified s)),
        Exchanged (Ask_Lock s (req_recipient rq)) (Inr (Flow_Locked l)),
        Exchanged (deliver_query l rq) c,
        Exchanged (Ask_Release l) d]
       (Inr (Reply_Failed failure))"
| queued:
    "\<not> abrupt (req_message rq) \<Longrightarrow> t \<in> ticks \<Longrightarrow> t < lock_until l \<Longrightarrow>
     send_protocol dbg ticks p rq th
       [Exchanged (identity_query p th) (Inr (Flow_Identified s)),
        Exchanged (Ask_Lock s (req_recipient rq)) (Inr (Flow_Locked l)),
        Exchanged (deliver_query l rq) (Inr (Flow_SendAccepted acceptance)),
        Subscribed (Ask_ObserveSender p th (Some (acc_cursor acceptance))) opened]
       (Inr (Reply_Queued acceptance (map_err (subscription_refusal dbg (Some (acc_cursor acceptance))) opened)))"

inductive_cases send_protocolE: "send_protocol dbg ticks p rq th K r"

subsection \<open>Outcomes of the operations\<close>

lemma expecting_simps [simp]:
  "sum_bind a (expecting pick_identified) = Inr s \<longleftrightarrow> a = Inr (Flow_Identified s)"
  "sum_bind a (expecting pick_locked) = Inr l \<longleftrightarrow> a = Inr (Flow_Locked l)"
  by (cases a; auto simp: expecting_def pick_identified_def pick_locked_def split: flow_response.splits)+

lemma delivered_refused:
  "sum_bind c (expecting (pick_delivered x)) = Inl (Edge_Refused refusal) \<Longrightarrow>
   c = Inr (Flow_Refused refusal) \<or> c = Inl (Edge_Refused refusal)"
  by (cases c) (auto simp: expecting_def pick_delivered_def split: flow_response.splits if_splits)

lemma delivered_sent:
  "sum_bind c (expecting (pick_delivered x)) = Inr (Flow_Reply_Sent receipt) \<Longrightarrow> c = Inr (Flow_Sent receipt)"
  by (cases c) (auto simp: expecting_def pick_delivered_def split: flow_response.splits if_splits)

lemma delivered_queued:
  "sum_bind c (expecting (pick_delivered x)) = Inr (Flow_Reply_Queued acceptance) \<Longrightarrow>
   c = Inr (Flow_SendAccepted acceptance) \<and> \<not> x"
  by (cases c) (auto simp: expecting_def pick_delivered_def split: flow_response.splits if_splits)

text \<open>Each operation adds one contact and answers what \<open>expecting\<close> makes of it.\<close>

definition honest :: "edge_failure + 'a \<Rightarrow> bool" where
  "honest a \<longleftrightarrow> (\<forall>e. a = Inl e \<longrightarrow> e = Unreachable \<or> e = Broken)"

lemma identify_call:
  assumes "(case th of Some t \<Rightarrow> identify_thread env cod path p t | None \<Rightarrow> identify env cod path p) w = (res, w')"
  obtains a where "res = sum_bind a (expecting pick_identified)"
    and "contacts w' = contacts w @ [Exchanged (identity_query p th) a]" and "honest a"
  using assms
  by (cases th) (auto simp: identify_def identify_thread_def identity_query_def honest_def elim!: edge.typed_callE)

lemma lock_call:
  assumes "flow_lock env cod path s to w = (res, w')"
  obtains a where "res = sum_bind a (expecting pick_locked)"
    and "contacts w' = contacts w @ [Exchanged (Ask_Lock s to) a]" and "honest a"
  using assms by (auto simp: flow_lock_def honest_def elim!: edge.typed_callE)

lemma deliver_call:
  assumes "deliver env cod path l rq w = (res, w')"
  obtains a where "res = sum_bind a (expecting (pick_delivered (abrupt (req_message rq))))"
    and "contacts w' = contacts w @ [Exchanged (deliver_query l rq) a]" and "honest a"
  using assms by (auto simp: deliver_def deliver_query_def honest_def elim!: edge.typed_callE)

lemma release_call:
  obtains a w' where "release env cod path l w = (a, w')"
    and "\<exists>d. contacts w' = contacts w @ [Exchanged (Ask_Release l) d]"
proof -
  obtain a w' where r: "release env cod path l w = (a, w')" by fastforce
  then have "\<exists>d. contacts w' = contacts w @ [Exchanged (Ask_Release l) d]"
    by (auto simp: release_def elim!: edge.typed_callE)
  with r show ?thesis by (rule that)
qed

lemma observe_call:
  obtains opened w' where "observe_sender env cod path p th cursor w = (opened, w')"
    and "contacts w' = contacts w @ [Subscribed (Ask_ObserveSender p th cursor) opened]"
  using observe_sender_logged [of env cod path p th cursor w] by (metis prod.collapse)

subsection \<open>The code follows the protocol\<close>

abbreviation locked_prefix ::
  "process \<Rightarrow> send_request \<Rightarrow> string option \<Rightarrow> address \<Rightarrow> lock \<Rightarrow> contact list" where
  "locked_prefix p rq th s l \<equiv>
     [Exchanged (identity_query p th) (Inr (Flow_Identified s)),
      Exchanged (Ask_Lock s (req_recipient rq)) (Inr (Flow_Locked l))]"

text \<open>The seconds the clock showed to the reads of a run.\<close>

definition clock_ticks :: "env \<Rightarrow> 'z net_scheme \<Rightarrow> 'z net_scheme \<Rightarrow> int set" where
  "clock_ticks env w w' =
     {unix_seconds (env_now env tr) | tr. prefix (calls w) tr \<and> prefix (tr @ [Clock]) (calls w')}"

lemma clock_ticks_mono: "grows u w \<Longrightarrow> clock_ticks env w w' \<subseteq> clock_ticks env u w'"
  by (auto simp: clock_ticks_def grows_def dest: prefix_order.trans)

lemma clock_ticks_here:
  "grows w v \<Longrightarrow> grows (called Clock v) w' \<Longrightarrow> unix_seconds (env_now env (calls v)) \<in> clock_ticks env w w'"
  by (auto simp: clock_ticks_def grows_def)

lemma send_protocol_mono:
  "send_protocol dbg A p rq th K r \<Longrightarrow> A \<subseteq> B \<Longrightarrow> send_protocol dbg B p rq th K r"
  by (induction rule: send_protocol.induct) (auto intro: send_protocol.intros)

lemma grows_settle_delivery [simp]: "grows w (snd (settle_delivery env cod dbg path p th l reply w))"
  by (auto simp: settle_delivery_def split: flow_send_reply.split)

lemma grows_deliver_under_lock [simp]: "grows w (snd (deliver_under_lock env cod dbg path p rq th l w))"
  by (auto simp: deliver_under_lock_def Let_def split: sum.split edge_failure.split)

lemma grows_send_identified [simp]: "grows w (snd (send_identified env cod dbg path p rq th s w))"
  by (auto simp: send_identified_def Let_def)

lemma settle_delivery_protocol:
  assumes nq: "\<not> queue_forbidden rq" and t: "t \<in> ticks" "t < lock_until l"
    and c: "sum_bind c (expecting (pick_delivered (abrupt (req_message rq)))) = Inr reply"
    and run: "settle_delivery env cod dbg path p th l reply w = (r, w')"
  shows "\<exists>K. contacts w' = contacts w @ K \<and>
    send_protocol dbg ticks p rq th (locked_prefix p rq th s l @ Exchanged (deliver_query l rq) c # K) r"
proof (cases reply)
  case (Flow_Reply_Queued acceptance)
  with c have "c = Inr (Flow_SendAccepted acceptance)" and "\<not> abrupt (req_message rq)"
    by (auto dest: delivered_queued)
  moreover obtain opened w1 where
    "observe_sender env cod path p th (Some (acc_cursor acceptance)) w = (opened, w1)"
    "contacts w1 = contacts w @ [Subscribed (Ask_ObserveSender p th (Some (acc_cursor acceptance))) opened]"
    by (rule observe_call)
  ultimately show ?thesis
    using run Flow_Reply_Queued by (auto simp: settle_delivery_def io_simps intro: send_protocol.queued [OF _ t])
next
  case (Flow_Reply_Sent receipt)
  with c have "c = Inr (Flow_Sent receipt)" by (auto dest: delivered_sent)
  moreover obtain a w1 where "release env cod path l w = (a, w1)"
    "\<exists>d. contacts w1 = contacts w @ [Exchanged (Ask_Release l) d]" by (rule release_call)
  ultimately show ?thesis
    using run nq Flow_Reply_Sent by (auto simp: settle_delivery_def io_simps intro: send_protocol.sent [OF _ t])
next
  case (Flow_Reply_Failed failure)
  obtain a w1 where "release env cod path l w = (a, w1)"
    "\<exists>d. contacts w1 = contacts w @ [Exchanged (Ask_Release l) d]" by (rule release_call)
  then show ?thesis
    using run nq c Flow_Reply_Failed by (auto simp: settle_delivery_def io_simps intro: send_protocol.failed [OF _ t])
qed

lemma deliver_under_lock_protocol:
  assumes nq: "\<not> queue_forbidden rq" and t: "t \<in> ticks" "t < lock_until l"
    and run: "deliver_under_lock env cod dbg path p rq th l w = (r, w')"
  shows "\<exists>K. contacts w' = contacts w @ K \<and> send_protocol dbg ticks p rq th (locked_prefix p rq th s l @ K) r"
proof -
  obtain res w1 where d: "deliver env cod path l rq w = (res, w1)" by fastforce
  then obtain c where res: "res = sum_bind c (expecting (pick_delivered (abrupt (req_message rq))))"
    and log: "contacts w1 = contacts w @ [Exchanged (deliver_query l rq) c]" and h: "honest c"
    by (rule deliver_call)
  show ?thesis
  proof (cases res)
    case (Inr reply)
    with run d have "settle_delivery env cod dbg path p th l reply w1 = (r, w')"
      by (simp add: deliver_under_lock_def io_simps Let_def)
    from settle_delivery_protocol [OF nq t _ this, of c s] Inr res log show ?thesis by auto
  next
    case (Inl f)
    show ?thesis
    proof (cases "\<exists>refusal. f = Edge_Refused refusal")
      case True
      then obtain refusal where f: "f = Edge_Refused refusal" by blast
      with Inl res h have "c = Inr (Flow_Refused refusal)"
        by (auto dest!: delivered_refused simp: honest_def)
      with f Inl run d log nq show ?thesis
        by (auto simp: deliver_under_lock_def io_simps Let_def intro: send_protocol.deliver_refused [OF _ t])
    next
      case False
      then have f: "f \<in> {Unreachable, Broken, Unexpected}" by (cases f) auto
      obtain a w2 where r: "release env cod path l w1 = (a, w2)"
        "\<exists>d. contacts w2 = contacts w1 @ [Exchanged (Ask_Release l) d]" by (rule release_call)
      from f Inl run d r(1) have "w' = w2" and "r = Inl (failure_for_send dbg f (abrupt (req_message rq)) True)"
        by (auto simp: deliver_under_lock_def io_simps Let_def)
      moreover from Inl res have "sum_bind c (expecting (pick_delivered (abrupt (req_message rq)))) = Inl f"
        by simp
      ultimately show ?thesis using r(2) log nq f by (auto intro: send_protocol.deliver_broken [OF _ t])
    qed
  qed
qed

lemma send_identified_protocol:
  assumes run: "send_identified env cod dbg path p rq th s w = (r, w')"
  shows "\<exists>K. contacts w' = contacts w @ K \<and>
    send_protocol dbg (clock_ticks env w w') p rq th (Exchanged (identity_query p th) (Inr (Flow_Identified s)) # K) r"
proof (cases "queue_forbidden rq")
  case True
  with run show ?thesis
    by (auto simp: send_identified_def io_simps Let_def queue_forbidden_def intro: send_protocol.queue_not_permitted)
next
  case nq: False
  obtain res w1 where l: "flow_lock env cod path s (req_recipient rq) w = (res, w1)" by fastforce
  then obtain b where res: "res = sum_bind b (expecting pick_locked)"
    and log: "contacts w1 = contacts w @ [Exchanged (Ask_Lock s (req_recipient rq)) b]" by (rule lock_call)
  show ?thesis
  proof (cases res)
    case (Inl f)
    with run l nq have "w' = w1" and "r = Inl (failure_for_send dbg f (abrupt (req_message rq)) False)"
      by (auto simp: send_identified_def io_simps Let_def queue_forbidden_def)
    with log nq Inl res show ?thesis by (auto intro: send_protocol.unlocked)
  next
    case (Inr lk)
    with res have b: "b = Inr (Flow_Locked lk)" by (metis expecting_simps(2))
    let ?w2 = "called Clock w1"
    let ?t = "unix_seconds (env_now env (calls w1))"
    have w1: "grows w w1" using grows_operations(4) [of w env cod path s "req_recipient rq"] l by simp
    show ?thesis
    proof (cases "lock_until lk \<le> ?t")
      case True
      with Inr run l nq have "w' = ?w2"
        and "r = Inl (failure_for_send dbg (Edge_Refused Lapsed) (abrupt (req_message rq)) False)"
        by (auto simp: send_identified_def io_simps Let_def queue_forbidden_def sys_now_def)
      moreover from this have "?t \<in> clock_ticks env w w'" using w1 by (simp add: clock_ticks_here)
      ultimately show ?thesis using log b nq True by (auto intro: send_protocol.lapsed)
    next
      case False
      with Inr run l nq have d: "deliver_under_lock env cod dbg path p rq th lk ?w2 = (r, w')"
        by (auto simp: send_identified_def io_simps Let_def queue_forbidden_def sys_now_def)
      then have t: "?t \<in> clock_ticks env w w'"
        using w1 grows_deliver_under_lock [of ?w2 env cod dbg path p rq th lk] by (simp add: clock_ticks_here)
      from deliver_under_lock_protocol [OF nq t _ d, of s] False log b show ?thesis by auto
    qed
  qed
qed

lemma accept_send_protocol_run:
  assumes edge: "flow_edge api g = Inr path"
    and run: "accept_send env cod dbg api g p rq th w = (r, w')"
  shows "\<exists>K. contacts w' = contacts w @ K \<and> send_protocol dbg (clock_ticks env w w') p rq th K r"
proof -
  let ?id = "case th of Some t \<Rightarrow> identify_thread env cod path p t | None \<Rightarrow> identify env cod path p"
  obtain res w1 where i: "?id w = (res, w1)" by fastforce
  then obtain a where res: "res = sum_bind a (expecting pick_identified)"
    and log: "contacts w1 = contacts w @ [Exchanged (identity_query p th) a]" by (rule identify_call)
  show ?thesis
  proof (cases res)
    case (Inl f)
    with run i edge have "w' = w1" and "r = Inl (failure_for_send dbg f (abrupt (req_message rq)) False)"
      by (auto simp: accept_send_def io_simps Let_def)
    with log Inl res show ?thesis by (auto intro: send_protocol.unidentified)
  next
    case (Inr s)
    with res have a: "a = Inr (Flow_Identified s)" by (metis expecting_simps(1))
    from Inr run i edge have "send_identified env cod dbg path p rq th s w1 = (r, w')"
      by (simp add: accept_send_def io_simps Let_def)
    moreover have "grows w w1" 
      using i grows_operations(2) [of w env cod path p] grows_operations(3) [of w env cod path p]
      by (cases th; metis option.simps(4,5) snd_conv)
    ultimately show ?thesis
      using send_identified_protocol [of env cod dbg path p rq th s w1 r w'] log a
      by (auto intro: send_protocol_mono [OF _ clock_ticks_mono])
  qed
qed

section \<open>Examples\<close>

text \<open>Sends against a scripted Flow, from a process with no earlier call.\<close>

definition sample_engine :: "string \<Rightarrow> standard option" where
  "sample_engine = [STANDARD_KEY \<mapsto> sample_standard]"

definition sample_address :: address where
  "sample_address = \<lparr>addr_aspect = Mind, addr_topic = ''t'', addr_layer = Primary\<rparr>"

definition sample_lock :: lock where
  "sample_lock = \<lparr>lock_sender = sample_address, lock_address = sample_address, lock_until = 60\<rparr>"

definition sample_request :: "message \<Rightarrow> send_request" where
  "sample_request m = \<lparr>req_recipient = Up, req_delivery = Wake, req_message = m\<rparr>"

definition sample_debugs :: debugs where
  "sample_debugs = \<lparr>debug_refusal = (\<lambda>_. ''refusal''), debug_response = (\<lambda>_. ''response'')\<rparr>"

abbreviation sample_process :: process where
  "sample_process \<equiv> \<lparr>proc_pid = 7, proc_started = 9\<rparr>"

abbreviation start :: flow_world where
  "start \<equiv> \<lparr>calls = [], contacts = []\<rparr>"

abbreviation granting :: "flow_response \<Rightarrow> flow_response list" where
  "granting answer \<equiv> [Flow_Identified sample_address, Flow_Locked sample_lock, answer, Flow_Released]"

abbreviation sample_send :: "flow_response \<Rightarrow> message \<Rightarrow> (response + send_reply) \<times> flow_world" where
  "sample_send answer m \<equiv> accept_send scripted_env (scripted_codec (granting answer)) sample_debugs mem_engine
     sample_engine sample_process (sample_request m) None start"

lemma sample_edge [simp]: "flow_edge mem_engine sample_engine = Inr ''/r/f''"
  by (simp add: flow_edge_def read_standard_def standards_def mem_engine_def map_err_def sample_engine_def
      sample_standard_def)

lemma scripted_connect: "sys_connect scripted_env path w = (Inr (connects (calls w)), called (Connect path) w)"
  by (simp add: sys_connect_def scripted_env_def)

lemma scripted_unit: "sys_unit scripted_env c w = (Inr (), called c w)"
  by (simp add: sys_unit_def scripted_env_def)

lemma scripted_observe:
  "observe_sender scripted_env (scripted_codec script) path p th cursor w =
   (Inr (connects (calls w)), w\<lparr>calls := calls w @ [Connect path, Set_Write_Timeout (connects (calls w)) (Some 2),
        Write_All (connects (calls w)) [0, 0, 0, 1], Write_All (connects (calls w)) [1], Flush (connects (calls w))],
      contacts := contacts w @ [Subscribed (Ask_ObserveSender p th cursor) (Inr (connects (calls w)))]\<rparr>)"
  by (simp add: observe_sender_def raw_subscribe_def io_simps scripted_connect scripted_unit scripted_write
      noted_def called_def Let_def)

lemmas sample_simps = Let_def accept_send_def send_identified_def deliver_under_lock_def settle_delivery_def
  identify_def flow_lock_def deliver_def release_def io_simps scripted_exchange [OF refl] scripted_observe
  sys_now_def exchange_calls_def expecting_def pick_identified_def pick_locked_def pick_released_def
  pick_delivered_def sample_request_def unix_seconds_def called_def sample_lock_def

lemma scripted_now [simp]: "env_now scripted_env tr = 0"
  by (simp add: scripted_env_def)

lemma sample_sent:
  "\<exists>w'. sample_send (Flow_Sent rc) m = (Inr (Reply_Sent rc), w') \<and>
     contacts w' = [Exchanged (Ask_Identify sample_process) (Inr (Flow_Identified sample_address)),
       Exchanged (Ask_Lock sample_address Up) (Inr (Flow_Locked sample_lock)),
       Exchanged (Ask_Deliver sample_lock Wake m) (Inr (Flow_Sent rc)),
       Exchanged (Ask_Release sample_lock) (Inr Flow_Released)]"
  by (simp add: sample_simps)

abbreviation sample_granted :: "contact list" where
  "sample_granted \<equiv> [Exchanged (Ask_Identify sample_process) (Inr (Flow_Identified sample_address)),
     Exchanged (Ask_Lock sample_address Up) (Inr (Flow_Locked sample_lock))]"

lemma sample_uncertain:
  "\<exists>w'. sample_send Flow_Released (MiddleAbrupt q) =
       (Inl (Failed \<lparr>fail_id = None, fail_reason = ReceiptUncertain\<rparr>), w') \<and>
     contacts w' = sample_granted @ [Exchanged (Ask_Deliver sample_lock Wake (MiddleAbrupt q)) (Inr Flow_Released),
       Exchanged (Ask_Release sample_lock) (Inr Flow_Released)]"
  by (simp add: sample_simps failure_for_send_def)

lemma sample_queued:
  "\<exists>w'. sample_send (Flow_SendAccepted acc) (Soft q) = (Inr (Reply_Queued acc (Inr 3)), w') \<and>
     contacts w' = sample_granted @ [Exchanged (Ask_Deliver sample_lock Wake (Soft q)) (Inr (Flow_SendAccepted acc)),
       Subscribed (Ask_ObserveSender sample_process None (Some (acc_cursor acc))) (Inr 3)]"
  by (simp add: sample_simps map_err_def)

abbreviation sample_receipt :: send_receipt where
  "sample_receipt \<equiv> \<lparr>rcpt_id = ''d'', rcpt_native = \<lparr>nat_harness = ''h'', nat_session = ''s'', nat_prompt = ''p''\<rparr>\<rparr>"

abbreviation sample_acceptance :: send_acceptance where
  "sample_acceptance \<equiv> \<lparr>acc_id = ''d'', acc_cursor = 5, acc_state = Queued\<rparr>"

section \<open>Properties\<close>

text \<open>C2. Every Send, on every path, is one run of the protocol: a store error is told before
  anything is said to Flow, and otherwise the conversation with Flow and the answer to the
  client are those of one rule, the lock's deadline judged by a clock reading of this run.\<close>

theorem accept_send_refines_protocol:
  "case flow_edge api g of
     Inl e \<Rightarrow> accept_send env cod dbg api g p rq th w = (Inl (Refused (Send_Store (show_store_error e))), w)
   | Inr path \<Rightarrow>
       \<exists>K. contacts (snd (accept_send env cod dbg api g p rq th w)) = contacts w @ K \<and>
         send_protocol dbg (clock_ticks env w (snd (accept_send env cod dbg api g p rq th w))) p rq th K
           (fst (accept_send env cod dbg api g p rq th w))"
proof (cases "flow_edge api g")
  case (Inl e)
  then show ?thesis by (simp add: accept_send_def io_simps Let_def)
next
  case (Inr path)
  from accept_send_protocol_run [OF this, of env cod dbg p rq th w] show ?thesis
    by (simp add: Inr)
qed

text \<open>The protocol of a given run.\<close>

lemma accept_send_run:
  assumes "accept_send env cod dbg api g p rq th w = (r, w')" and "contacts w' = contacts w @ K" and "K \<noteq> []"
  shows "send_protocol dbg (clock_ticks env w w') p rq th K r"
proof (cases "flow_edge api g")
  case (Inl e)
  then have "w' = w" using assms(1) by (simp add: accept_send_def io_simps Let_def)
  with assms(2,3) show ?thesis by simp
next
  case (Inr path)
  from accept_send_protocol_run [OF Inr assms(1)] assms(2) show ?thesis by auto
qed

text \<open>C1. Flow is asked to deliver at most once in a Send, only after it named the sender and
  granted that sender a lock on the recipient, under that lock, the client's message and
  delivery unchanged, before the lock's deadline on a clock reading of this Send, and never an
  abrupt message to a queue.\<close>

theorem delivery_discipline:
  assumes "accept_send env cod dbg api g p rq th w = (r, w')" and "contacts w' = contacts w @ K"
    and "Exchanged (Ask_Deliver l d m) a \<in> set K"
  shows "d = req_delivery rq \<and> m = req_message rq \<and> \<not> (abrupt m \<and> d = Queue) \<and>
    (\<exists>s t. take 3 K = [Exchanged (identity_query p th) (Inr (Flow_Identified s)),
         Exchanged (Ask_Lock s (req_recipient rq)) (Inr (Flow_Locked l)), Exchanged (Ask_Deliver l d m) a] \<and>
       t \<in> clock_ticks env w w' \<and> t < lock_until l) \<and>
    (\<nexists>l' d' m' a'. Exchanged (Ask_Deliver l' d' m') a' \<in> set (drop 3 K))"
proof -
  from assms(3) have "K \<noteq> []" by auto
  from accept_send_run [OF assms(1,2) this] assms(3) show ?thesis
    by cases (auto simp: identity_query_def deliver_query_def queue_forbidden_def split: option.splits)
qed

lemma delivery_discipline_witness:
  "\<exists>w' t. fst (sample_send (Flow_Sent sample_receipt) (MiddleAbrupt (Question ''q''))) =
       Inr (Reply_Sent sample_receipt) \<and>
     w' = snd (sample_send (Flow_Sent sample_receipt) (MiddleAbrupt (Question ''q''))) \<and>
     t \<in> clock_ticks scripted_env start w' \<and> t < 60"
proof -
  let ?m = "MiddleAbrupt (Question ''q'')" and ?a = "Inr (Flow_Sent sample_receipt)"
  obtain w' where run: "sample_send (Flow_Sent sample_receipt) ?m = (Inr (Reply_Sent sample_receipt), w')"
    and log: "contacts w' = contacts start @ sample_granted @ [Exchanged (Ask_Deliver sample_lock Wake ?m) ?a,
      Exchanged (Ask_Release sample_lock) (Inr Flow_Released)]"
    using sample_sent [of sample_receipt ?m] by auto
  have "\<exists>t. t \<in> clock_ticks scripted_env start w' \<and> t < lock_until sample_lock"
    using delivery_discipline [OF run log, of sample_lock Wake ?m ?a] by auto
  with run show ?thesis by (auto simp: sample_lock_def)
qed

text \<open>C13. The lock is given back exactly when it may still be held by this Send: a delivery was
  asked for under it, and Flow neither refused that delivery nor queued the message. Nothing
  follows the return.\<close>

theorem lock_returned:
  assumes "accept_send env cod dbg api g p rq th w = (r, w')" and "contacts w' = contacts w @ K"
    and "Exchanged (Ask_Lock s q) (Inr (Flow_Locked l)) \<in> set K"
  shows "((\<exists>l' d. Exchanged (Ask_Release l') d \<in> set K) \<longleftrightarrow>
      (\<exists>a. Exchanged (deliver_query l rq) a \<in> set K \<and> (\<forall>x. a \<noteq> Inr (Flow_Refused x)) \<and>
         \<not> (\<not> abrupt (req_message rq) \<and> (\<exists>acc. a = Inr (Flow_SendAccepted acc))))) \<and>
    (\<forall>l' d. Exchanged (Ask_Release l') d \<in> set K \<longrightarrow>
       l' = l \<and> last K = Exchanged (Ask_Release l') d \<and> Exchanged (Ask_Release l') d \<notin> set (butlast K))"
proof -
  from assms(3) have "K \<noteq> []" by auto
  from accept_send_run [OF assms(1,2) this] assms(3) show ?thesis
    by cases
       (auto simp: identity_query_def deliver_query_def queue_forbidden_def sum_bind_def expecting_def
          pick_delivered_def split: option.splits sum.splits flow_response.splits if_splits)
qed

lemma lock_returned_witness:
  "last (contacts (snd (sample_send (Flow_Sent sample_receipt) (MiddleAbrupt (Question ''q''))))) =
     Exchanged (Ask_Release sample_lock) (Inr Flow_Released)"
proof -
  let ?m = "MiddleAbrupt (Question ''q'')" and ?a = "Inr (Flow_Sent sample_receipt)"
  let ?K = "sample_granted @ [Exchanged (Ask_Deliver sample_lock Wake ?m) ?a,
    Exchanged (Ask_Release sample_lock) (Inr Flow_Released)]"
  obtain w' where run: "sample_send (Flow_Sent sample_receipt) ?m = (Inr (Reply_Sent sample_receipt), w')"
    and log: "contacts w' = contacts start @ ?K"
    using sample_sent [of sample_receipt ?m] by auto
  have "Exchanged (Ask_Release sample_lock) (Inr Flow_Released) \<in> set ?K" by simp
  then have "last ?K = Exchanged (Ask_Release sample_lock) (Inr Flow_Released)"
    using lock_returned [OF run log, of sample_address Up sample_lock] by auto
  with run log show ?thesis by simp
qed




text \<open>C35. A soft delivery is reported as Flow answered it, a queued one with the subscription to
  its own cursor. A delivery whose answer was lost is told as "Flow unreachable", as one that
  never reached Flow is: the client cannot tell the two apart.\<close>

theorem soft_report:
  assumes "accept_send env cod dbg api g p rq th w = (r, w')" and "contacts w' = contacts w @ K"
    and "Exchanged (deliver_query l rq) a \<in> set K" and "\<not> abrupt (req_message rq)"
  shows "case a of
      Inl f \<Rightarrow> r = Inl (Refused Send_FlowUnreachable)
    | Inr answer \<Rightarrow> (case answer of
        Flow_SendAccepted acc \<Rightarrow> \<exists>opened.
          last K = Subscribed (Ask_ObserveSender p th (Some (acc_cursor acc))) opened \<and>
          r = Inr (Reply_Queued acc (map_err (subscription_refusal dbg (Some (acc_cursor acc))) opened))
      | Flow_Sent rc \<Rightarrow> r = Inr (Reply_Sent rc)
      | Flow_Failed f \<Rightarrow> r = Inr (Reply_Failed f)
      | Flow_Refused x \<Rightarrow> r = Inl (Refused (failure_for_message (Edge_Refused x)))
      | _ \<Rightarrow> r = Inl (Refused Send_FlowUnreachable))"
proof -
  from assms(3) have "K \<noteq> []" by auto
  from accept_send_run [OF assms(1,2) this] assms(3,4) show ?thesis
    by cases
       (auto simp: identity_query_def deliver_query_def failure_for_send_def failure_for_message_def sum_bind_def
          expecting_def pick_delivered_def split: option.splits sum.splits flow_response.splits if_splits)
qed

lemma soft_report_witness:
  "\<exists>opened. last (contacts (snd (sample_send (Flow_SendAccepted sample_acceptance) (Soft (Question ''q''))))) =
     Subscribed (Ask_ObserveSender sample_process None (Some 5)) opened"
proof -
  let ?m = "Soft (Question ''q'')"
  let ?K = "sample_granted @
      [Exchanged (Ask_Deliver sample_lock Wake ?m) (Inr (Flow_SendAccepted sample_acceptance)),
       Subscribed (Ask_ObserveSender sample_process None (Some (acc_cursor sample_acceptance))) (Inr 3)]"
  obtain w' where run: "sample_send (Flow_SendAccepted sample_acceptance) ?m =
      (Inr (Reply_Queued sample_acceptance (Inr 3)), w')"
    and log: "contacts w' = contacts start @ ?K"
    using sample_queued [of sample_acceptance "Question ''q''"] by auto
  have "Exchanged (deliver_query sample_lock (sample_request ?m)) (Inr (Flow_SendAccepted sample_acceptance)) \<in> set ?K"
    by (simp add: deliver_query_def sample_request_def)
  from soft_report [OF run log this] have "\<exists>opened. last ?K =
      Subscribed (Ask_ObserveSender sample_process None (Some (acc_cursor sample_acceptance))) opened"
    by (simp add: sample_request_def abrupt_def)
  with run log show ?thesis by simp
qed

text \<open>Message's refusals lose nothing: two refusals of Flow that have a name in the Send
  contract have different names, only the five outside that contract have none, and only those
  and the failures of the connection are told as "Flow unreachable".\<close>

lemma refusals_distinguished:
  "inj_on refusal_for_message {x. refusal_for_message x \<noteq> None} \<and>
   (refusal_for_message x = None \<longleftrightarrow>
      x = OffRoute \<or> (\<exists>y. x = Unknown (Unknown_Other y)) \<or> (\<exists>y. x = Awake y) \<or> (\<exists>y. x = Taken y) \<or> (\<exists>y. x = Direct y)) \<and>
   (failure_for_message f = Send_FlowUnreachable \<longleftrightarrow> (\<nexists>x. f = Edge_Refused x \<and> refusal_for_message x \<noteq> None))"
proof (intro conjI)
  have "x = y" if "refusal_for_message x = Some m" "refusal_for_message y = Some m" for x y m
    using that by (cases x; cases y) (auto simp: refusal_for_message_def split: flow_unknown.splits)
  then show "inj_on refusal_for_message {x. refusal_for_message x \<noteq> None}"
    by (auto simp: inj_on_def)
  show "refusal_for_message x = None \<longleftrightarrow>
      x = OffRoute \<or> (\<exists>y. x = Unknown (Unknown_Other y)) \<or> (\<exists>y. x = Awake y) \<or> (\<exists>y. x = Taken y) \<or> (\<exists>y. x = Direct y)"
    by (cases x) (auto simp: refusal_for_message_def split: flow_unknown.splits)
  show "failure_for_message f = Send_FlowUnreachable \<longleftrightarrow> (\<nexists>x. f = Edge_Refused x \<and> refusal_for_message x \<noteq> None)"
    by (auto simp: failure_for_message_def refusal_for_message_def
        split: edge_failure.splits refusal.splits flow_unknown.splits)
qed

text \<open>The clock in seconds is total and monotone and never leaves the range of a
  non-negative \<open>i64\<close>, which it covers, so a deadline check cannot overflow.\<close>

lemma unix_seconds_range:
  "mono unix_seconds \<and> range unix_seconds = {0..<2 ^ 63} \<and>
   unix_seconds nanos = max 0 (min (2 ^ 63 - 1) (nanos div 10 ^ 9))"
proof -
  have eq: "unix_seconds n = max 0 (min (2 ^ 63 - 1) (n div 10 ^ 9))" for n
    by (auto simp: unix_seconds_def Let_def max_def min_def)
  have "mono unix_seconds"
  proof (rule monoI)
    fix x y :: int assume "x \<le> y"
    then have "x div 10 ^ 9 \<le> y div 10 ^ 9" by (intro zdiv_mono1) simp_all
    then show "unix_seconds x \<le> unix_seconds y" by (simp only: eq min.mono max.mono order_refl)
  qed
  moreover have "range unix_seconds = {0..<2 ^ 63}"
  proof (intro equalityI subsetI)
    fix t assume "t \<in> {0..<2 ^ 63 :: int}"
    then have "unix_seconds (t * 10 ^ 9) = t" by (simp add: unix_seconds_def Let_def)
    then show "t \<in> range unix_seconds" by (metis rangeI)
  qed (auto simp: eq)
  ultimately show ?thesis by (simp add: eq)
qed

end
