(* ===== verification/Peer.thy ===== *)
theory Peer imports Text Frame begin

text \<open>
  message-nexus/src/peer.rs: the identity of a connection's peer. The kernel names its pid
  (\<open>SO_PEERCRED\<close>); the start time is field 22 of \<open>/proc/<pid>/stat\<close>, counted after the last
  \<open>") "\<close> because the command name in the second field is arbitrary text. Reading the file is
  an oracle from paths to contents, fixed for one call.
\<close>

definition proc_stat_path :: "int \<Rightarrow> string" where
  "proc_stat_path pid = ''/proc/'' @ decimal_int pid @ ''/stat''"

definition invalid_data :: "string \<Rightarrow> io_error" where
  "invalid_data text = \<lparr>err_kind = InvalidData, err_text = text\<rparr>"

definition list_nth :: "'a list \<Rightarrow> nat \<Rightarrow> 'a option" where
  "list_nth xs n = (if n < length xs then Some (xs ! n) else None)"

definition for_pid :: "(string \<Rightarrow> io_error + string) \<Rightarrow> int \<Rightarrow> io_error + process" where
  "for_pid read_to_string pid =
     (case read_to_string (proc_stat_path pid) of
        Inl e \<Rightarrow> Inl e
      | Inr stat \<Rightarrow>
          (case rsplit_once '') '' stat of
             None \<Rightarrow> Inl (invalid_data ''malformed process stat'')
           | Some (_, parts) \<Rightarrow>
               (case Option.bind (list_nth (split_whitespace parts) 19) parse_i64 of
                  None \<Rightarrow> Inl (invalid_data ''missing process start'')
                | Some started \<Rightarrow> Inr \<lparr>proc_pid = pid, proc_started = started\<rparr>)))"

definition this_process :: "(string \<Rightarrow> io_error + string) \<Rightarrow> nat \<Rightarrow> io_error + process" where
  "this_process read_to_string own_pid = for_pid read_to_string (int own_pid)"

text \<open>\<open>peer_process\<close>: any failure, of the credentials or of \<open>/proc\<close>, is no identity.\<close>

definition peer_process ::
  "(io_error + int) \<Rightarrow> (string \<Rightarrow> io_error + string) \<Rightarrow> process option" where
  "peer_process peercred read_to_string =
     (case peercred of
        Inl _ \<Rightarrow> None
      | Inr pid \<Rightarrow> (case for_pid read_to_string pid of Inl _ \<Rightarrow> None | Inr p \<Rightarrow> Some p))"

definition stat_word :: "string \<Rightarrow> bool" where
  "stat_word w \<longleftrightarrow> w \<noteq> [] \<and> (\<forall>c \<in> set w. \<not> white c \<and> c \<noteq> CHR '')'')"

lemma join_words_set: "c \<in> set (join_words ws) \<Longrightarrow> c = CHR '' '' \<or> (\<exists>w \<in> set ws. c \<in> set w)"
  by (induction ws rule: join_words.induct) auto

lemma for_pid_fields:
  assumes "read_to_string (proc_stat_path pid) = Inr (head @ '') '' @ join_words parts)"
    and "\<forall>w \<in> set parts. stat_word w"
  shows "for_pid read_to_string pid =
    (case Option.bind (list_nth parts 19) parse_i64 of
       None \<Rightarrow> Inl (invalid_data ''missing process start'')
     | Some started \<Rightarrow> Inr \<lparr>proc_pid = pid, proc_started = started\<rparr>)"
proof -
  have "CHR '')'' \<notin> set (join_words parts)"
    using assms(2) join_words_set [of "CHR '')''" parts] by (auto simp: stat_word_def)
  then have "rsplit_once (CHR '')'' # '' '') (head @ (CHR '')'' # '' '') @ join_words parts) =
      Some (head, join_words parts)"
    by (intro rsplit_once_last) auto
  moreover have "split_whitespace (join_words parts) = parts"
    using assms(2) by (intro split_whitespace_join) (auto simp: stat_word_def)
  ultimately show ?thesis
    using assms(1) by (simp add: for_pid_def)
qed

definition sample_stat :: "string \<Rightarrow> io_error + string" where
  "sample_stat path = (if path = ''/proc/42/stat''
     then Inr (''42 (a) b (c) R 1 1 1 0 0 0 0 0 0 0 0 0 0 0 20 0 1 0 777 9'')
     else Inl (invalid_data ''no such process''))"

lemma decimal_42: "decimal_int 42 = ''42''" and decimal_777: "decimal_int 777 = ''777''"
  by code_simp+

lemma sample_for_pid: "for_pid sample_stat 42 = Inr \<lparr>proc_pid = 42, proc_started = 777\<rparr>"
proof -
  let ?parts = "[''R'', ''1'', ''1'', ''1'', ''0'', ''0'', ''0'', ''0'', ''0'', ''0'', ''0'',
    ''0'', ''0'', ''0'', ''0'', ''20'', ''0'', ''1'', ''0'', ''777'', ''9'']"
  have a: "sample_stat (proc_stat_path 42) = Inr (''42 (a) b (c'' @ '') '' @ join_words ?parts)"
    by (simp add: sample_stat_def proc_stat_path_def decimal_42)
  have b: "\<forall>w \<in> set ?parts. stat_word w" by (simp add: stat_word_def white_def)
  have "parse_i64 ''777'' = Some 777" using parse_i64_decimal [of 777] by (simp add: decimal_777)
  then show ?thesis
    using for_pid_fields [of sample_stat 42 "''42 (a) b (c''" ?parts, OF a b] by (simp add: list_nth_def)
qed

section \<open>Properties\<close>



end
