(* ===== verification/Listener.thy ===== *)
theory Listener imports Service Peer begin

text \<open>
  message-nexus/src/listener.rs: how one connection is answered. A handler reads one query,
  answers it, and after a queued Send or for an observation relays Flow's status stream to the
  client until the delivery ends, the stream ends or a write fails. What the handler hears from
  the subscription and tells the client is kept as a transcript, read by theorems only.
\<close>

section \<open>What a handler works with\<close>

datatype talk_event =
    Heard "edge_failure + flow_response"
  | Told response "frame_error + unit"
  | Told_Meta meta_response "frame_error + unit"

record relay_world = flow_world +
  talk :: "talk_event list"

record 'g nexus_world = relay_world +
  memory :: 'g

text \<open>The rkyv archives of Message's own contracts.\<close>

record client_codec =
  de_query :: "byte list \<Rightarrow> string + query"
  ser_response :: "response \<Rightarrow> string + byte list"
  de_meta_query :: "byte list \<Rightarrow> string + meta_query"
  ser_meta_response :: "meta_response \<Rightarrow> string + byte list"

text \<open>
  Everything outside the Nexus: the system, the codecs, the renderings, the engine, the peer
  credentials of a stream and the contents of \<open>/proc\<close>.
\<close>

record 'g host =
  host_env :: env
  host_flow :: flow_codec
  host_client :: client_codec
  host_debugs :: debugs
  host_engine :: "'g engine_api"
  host_peercred :: "stream \<Rightarrow> io_error + int"
  host_proc :: "string \<Rightarrow> io_error + string"

definition tell :: "'g host \<Rightarrow> stream \<Rightarrow> response \<Rightarrow> ('z relay_world_scheme, frame_error, unit) io" where
  "tell h stream r w =
     (case write_frame (host_env h) (ser_response (host_client h)) stream r w of
        (res, w') \<Rightarrow> (res, w'\<lparr>talk := talk w' @ [Told r res]\<rparr>))"

definition tell_meta :: "'g host \<Rightarrow> stream \<Rightarrow> meta_response \<Rightarrow> ('z relay_world_scheme, frame_error, unit) io" where
  "tell_meta h stream r w =
     (case write_frame (host_env h) (ser_meta_response (host_client h)) stream r w of
        (res, w') \<Rightarrow> (res, w'\<lparr>talk := talk w' @ [Told_Meta r res]\<rparr>))"

definition hear :: "'g host \<Rightarrow> stream \<Rightarrow> ('z relay_world_scheme, edge_failure, flow_response) io" where
  "hear h subscription w =
     (case subscription_next (host_env h) (host_flow h) subscription w of
        (res, w') \<Rightarrow> (res, w'\<lparr>talk := talk w' @ [Heard res]\<rparr>))"

section \<open>The relay of a status subscription\<close>

definition observation_finished :: "string option \<Rightarrow> send_observation \<Rightarrow> bool" where
  "observation_finished terminal_id observation =
     (case terminal_id of
        None \<Rightarrow> False
      | Some i \<Rightarrow> list_ex (\<lambda>item. snap_id item = i \<and> is_terminal (snap_state item)) (obs_snapshots observation))"

definition change_finished :: "string option \<Rightarrow> delivery_snapshot \<Rightarrow> bool" where
  "change_finished terminal_id snapshot \<longleftrightarrow>
     terminal_id = Some (snap_id snapshot) \<and> is_terminal (snap_state snapshot)"

text \<open>One round of the loop: \<open>Inl\<close> is \<open>return\<close>, \<open>Inr\<close> goes round with the new cursor.\<close>

definition relay_round ::
  "'g host \<Rightarrow> stream \<Rightarrow> stream \<Rightarrow> string option \<Rightarrow> int option \<times> 'z relay_world_scheme \<Rightarrow>
   ((frame_error + unit) \<times> 'z relay_world_scheme) + (int option \<times> 'z relay_world_scheme)" where
  "relay_round h stream subscription terminal_id = (\<lambda>(last_cursor, w).
     let forward = (\<lambda>response finished cursor w1.
           case tell h stream response w1 of
             (Inl e, w2) \<Rightarrow> Inl (Inl e, w2)
           | (Inr u, w2) \<Rightarrow> if finished then Inl (Inr (), w2) else Inr (cursor, w2))
     in case hear h subscription w of
          (Inl error, w1) \<Rightarrow>
            Inl (tell h stream (ObservationInterrupted last_cursor
              (''Flow status stream ended: '' @ debug_failure (host_debugs h) error)) w1)
        | (Inr (Flow_SendsObserved observation), w1) \<Rightarrow>
            forward (SendsObserved observation) (observation_finished terminal_id observation)
              (Some (obs_cursor observation)) w1
        | (Inr (Flow_SendChanged snapshot), w1) \<Rightarrow>
            forward (SendChanged snapshot) (change_finished terminal_id snapshot)
              (Some (snap_cursor snapshot)) w1
        | (Inr other, w1) \<Rightarrow>
            Inl (tell h stream (ObservationInterrupted last_cursor
              (''Unexpected Flow status response: '' @ debug_response (host_debugs h) other)) w1))"

text \<open>
  The thread beside it watches the client: it reads byte after byte, and when the client's side
  ends it shuts the Flow connection down. To the relay it is part of the environment, which
  may end the subscription at any read. It ends itself once the relay, done, has shut the
  receiving half of the client's connection.
\<close>

definition watch_round ::
  "env \<Rightarrow> stream \<Rightarrow> stream \<Rightarrow> 'z net_scheme \<Rightarrow> 'z net_scheme + 'z net_scheme" where
  "watch_round env client_control flow_control w =
     (case read_byte env client_control w of
        (Inr (Some _), w1) \<Rightarrow> Inr w1
      | (_, w1) \<Rightarrow> Inl (snd (sys_unit env (Shutdown flow_control Shut_Both) w1)))"

definition watch_client :: "env \<Rightarrow> stream \<Rightarrow> stream \<Rightarrow> 'z net_scheme \<Rightarrow> 'z net_scheme option" where
  "watch_client env client_control flow_control = iterate (watch_round env client_control flow_control)"

definition forward_subscription ::
  "'g host \<Rightarrow> stream \<Rightarrow> stream \<Rightarrow> string option \<Rightarrow> 'z relay_world_scheme \<Rightarrow>
   ((frame_error + unit) \<times> 'z relay_world_scheme) option" where
  "forward_subscription h stream subscription terminal_id w =
     (case io_map_err (\<lambda>_. Io \<lparr>err_kind = BrokenPipe, err_text = ''cannot monitor Flow subscription''\<rparr>)
             (interrupt_handle (host_env h) subscription) w of
        (Inl e, w1) \<Rightarrow> Some (Inl e, w1)
      | (Inr _, w1) \<Rightarrow>
          (case io_map_err Io (sys_clone (host_env h) stream) w1 of
             (Inl e, w2) \<Rightarrow> Some (Inl e, w2)
           | (Inr _, w2) \<Rightarrow>
               (case iterate (relay_round h stream subscription terminal_id) (None, w2) of
                  None \<Rightarrow> None
                | Some (result, w3) \<Rightarrow>
                    Some (result, snd (sys_unit (host_env h) (Shutdown stream Shut_Read) w3)))))"

section \<open>Answers\<close>

definition answer_send ::
  "'g host \<Rightarrow> stream \<Rightarrow> process \<Rightarrow> send_request \<Rightarrow> string option \<Rightarrow> 'g nexus_world \<Rightarrow>
   ((frame_error + unit) \<times> 'g nexus_world) option" where
  "answer_send h stream process request thread w =
     (case accept_send (host_env h) (host_flow h) (host_debugs h) (host_engine h) (memory w)
             process request thread w of
        (Inl response, w1) \<Rightarrow> Some (tell h stream response w1)
      | (Inr (Reply_Sent receipt), w1) \<Rightarrow> Some (tell h stream (Sent receipt) w1)
      | (Inr (Reply_Failed failure), w1) \<Rightarrow> Some (tell h stream (Failed failure) w1)
      | (Inr (Reply_Queued accepted subscription), w1) \<Rightarrow>
          (case tell h stream (SendAccepted accepted) w1 of
             (Inl e, w2) \<Rightarrow> Some (Inl e, w2)
           | (Inr _, w2) \<Rightarrow>
               (case subscription of
                  Inr s \<Rightarrow> forward_subscription h stream s (Some (acc_id accepted)) w2
                | Inl response \<Rightarrow> Some (tell h stream response w2))))"

definition answer_observation ::
  "'g host \<Rightarrow> stream \<Rightarrow> process \<Rightarrow> string option \<Rightarrow> int option \<Rightarrow> 'g nexus_world \<Rightarrow>
   ((frame_error + unit) \<times> 'g nexus_world) option" where
  "answer_observation h stream process thread cursor w =
     (case observe_sends (host_env h) (host_flow h) (host_debugs h) (host_engine h) (memory w)
             process thread cursor w of
        (Inl response, w1) \<Rightarrow> Some (tell h stream response w1)
      | (Inr subscription, w1) \<Rightarrow> forward_subscription h stream subscription None w1)"

definition answer_ordinary ::
  "'g host \<Rightarrow> stream \<Rightarrow> 'g nexus_world \<Rightarrow> ((frame_error + unit) \<times> 'g nexus_world) option" where
  "answer_ordinary h stream w =
     (case read_frame (host_env h) (de_query (host_client h)) stream w of
        (Inl e, w1) \<Rightarrow> Some (Inl e, w1)
      | (Inr query, w1) \<Rightarrow>
          (case peer_process (host_peercred h stream) (host_proc h) of
             None \<Rightarrow> Some (Inl (Io (invalid_data ''cannot read the peer process identity'')), w1)
           | Some process \<Rightarrow>
               (case query of
                  Send request \<Rightarrow> answer_send h stream process request None w1
                | SendThread request native_session_id \<Rightarrow>
                    answer_send h stream process request (Some native_session_id) w1
                | ObserveSends cursor \<Rightarrow> answer_observation h stream process None cursor w1
                | ObserveThread cursor native_session_id \<Rightarrow>
                    answer_observation h stream process (Some native_session_id) cursor w1
                | query \<Rightarrow>
                    (case serve_query (host_engine h) query (memory w1) of
                       (response, g) \<Rightarrow> Some (tell h stream response (w1\<lparr>memory := g\<rparr>))))))"

definition meta_answer :: "configure_failure + bool \<Rightarrow> meta_response" where
  "meta_answer r =
     (case r of Inr True \<Rightarrow> Meta_RestartRequired | Inr False \<Rightarrow> Meta_Configured | Inl _ \<Rightarrow> Meta_StoreRefused)"

definition answer_meta ::
  "'g host \<Rightarrow> stream \<Rightarrow> ('g nexus_world, frame_error, unit) io" where
  "answer_meta h stream =
     io_bind (read_frame (host_env h) (de_meta_query (host_client h)) stream) (\<lambda>query w1.
       case query of Meta_Configure configuration \<Rightarrow>
         (case configure (host_engine h) configuration True (memory w1) of
            (r, g) \<Rightarrow> tell_meta h stream (meta_answer r) (w1\<lparr>memory := g\<rparr>)))"

section \<open>The transcript of a relay\<close>

text \<open>What is told for what is heard, when that ends the relay, and the cursor it leaves.\<close>

definition relay_answer :: "debugs \<Rightarrow> int option \<Rightarrow> edge_failure + flow_response \<Rightarrow> response" where
  "relay_answer dbg cursor x =
     (case x of
        Inr (Flow_SendsObserved observation) \<Rightarrow> SendsObserved observation
      | Inr (Flow_SendChanged snapshot) \<Rightarrow> SendChanged snapshot
      | Inr other \<Rightarrow> ObservationInterrupted cursor (''Unexpected Flow status response: '' @ debug_response dbg other)
      | Inl f \<Rightarrow> ObservationInterrupted cursor (''Flow status stream ended: '' @ debug_failure dbg f))"

definition relay_ends :: "string option \<Rightarrow> edge_failure + flow_response \<Rightarrow> bool" where
  "relay_ends terminal_id x =
     (case x of
        Inr (Flow_SendsObserved observation) \<Rightarrow> observation_finished terminal_id observation
      | Inr (Flow_SendChanged snapshot) \<Rightarrow> change_finished terminal_id snapshot
      | _ \<Rightarrow> True)"

definition relay_cursor :: "int option \<Rightarrow> edge_failure + flow_response \<Rightarrow> int option" where
  "relay_cursor cursor x =
     (case x of
        Inr (Flow_SendsObserved observation) \<Rightarrow> Some (obs_cursor observation)
      | Inr (Flow_SendChanged snapshot) \<Rightarrow> Some (snap_cursor snapshot)
      | _ \<Rightarrow> cursor)"

fun relay_talk :: "debugs \<Rightarrow> int option \<Rightarrow>
    ((edge_failure + flow_response) \<times> (frame_error + unit)) list \<Rightarrow> talk_event list" where
  "relay_talk dbg cursor [] = []"
| "relay_talk dbg cursor ((x, res) # xs) =
     Heard x # Told (relay_answer dbg cursor x) res # relay_talk dbg (relay_cursor cursor x) xs"

lemma relay_talk_append:
  "relay_talk dbg c (xs @ ys) = relay_talk dbg c xs @ relay_talk dbg (foldl relay_cursor c (map fst xs)) ys"
  by (induction dbg c xs rule: relay_talk.induct) auto

lemma tell_talk [simp]:
  "talk (snd (tell h stream r w)) = talk (w :: 'z relay_world_scheme) @ [Told r (fst (tell h stream r w))]"
proof -
  have "talk (snd (write_frame env ser s v w)) = talk w" for env ser s v and w :: "'y relay_world_scheme"
    by (auto simp: write_frame_def io_simps write_all_def sys_unit_def called_def
        split: prod.splits sum.splits option.splits)
  from this [of "host_env h" "ser_response (host_client h)" stream r w] show ?thesis
    by (cases "write_frame (host_env h) (ser_response (host_client h)) stream r w") (simp add: tell_def)
qed

lemma hear_talk [simp]:
  "talk (snd (hear h s w)) = talk (w :: 'z relay_world_scheme) @ [Heard (fst (hear h s w))]"
proof -
  have "talk (snd (read_frame env des s w)) = talk w" for env s and des :: "byte list \<Rightarrow> string + 'v"
    and w :: "'y relay_world_scheme"
    by (auto simp: read_frame_def io_simps read_exact_def called_def Let_def split: prod.splits sum.splits if_splits)
  from this [of "host_env h" "de_response (host_flow h)" s w] have "talk (snd (subscription_next (host_env h) (host_flow h) s w)) = talk w"
    by (auto simp: subscription_next_def io_map_err_def split: prod.splits sum.splits)
  then show ?thesis
    by (cases "subscription_next (host_env h) (host_flow h) s w") (simp add: hear_def)
qed

text \<open>One round, in these terms.\<close>

lemma relay_round_step:
  "relay_round h stream sub t (c, w) =
     (case hear h sub w of (x, w1) \<Rightarrow>
      (case tell h stream (relay_answer (host_debugs h) c x) w1 of (res, w2) \<Rightarrow>
         if res = Inr () \<and> \<not> relay_ends t x then Inr (relay_cursor c x, w2) else Inl (res, w2)))"
  by (auto simp: relay_round_def relay_answer_def relay_ends_def relay_cursor_def Let_def
      split: prod.splits sum.splits flow_response.splits)

lemma relay_round_talk:
  assumes "relay_round h stream sub t (c, w) = z"
  obtains x res w2 where "talk w2 = talk w @ relay_talk (host_debugs h) c [(x, res)]"
    and "z = (if res = Inr () \<and> \<not> relay_ends t x then Inr (relay_cursor c x, w2) else Inl (res, w2))"
proof -
  obtain x w1 where x: "hear h sub w = (x, w1)" by fastforce
  obtain res w2 where res: "tell h stream (relay_answer (host_debugs h) c x) w1 = (res, w2)" by fastforce
  have "talk w1 = talk w @ [Heard x]" using hear_talk [of h sub w] x by simp
  moreover have "talk w2 = talk w1 @ [Told (relay_answer (host_debugs h) c x) res]"
    using tell_talk [of h stream "relay_answer (host_debugs h) c x" w1] res by simp
  ultimately show ?thesis
    using that [of w2 x res] assms by (simp add: relay_round_step x res)
qed

text \<open>\<open>xs\<close> were heard from \<open>w\<close> to \<open>v\<close>, each was told, and none ends the relay.\<close>

definition relayed :: "'g host \<Rightarrow> string option \<Rightarrow> int option \<Rightarrow> 'z relay_world_scheme \<Rightarrow>
    (edge_failure + flow_response) list \<Rightarrow> int option \<times> 'z relay_world_scheme \<Rightarrow> bool" where
  "relayed h t c w xs p \<longleftrightarrow>
     talk (snd p) = talk w @ relay_talk (host_debugs h) c (map (\<lambda>x. (x, Inr ())) xs) \<and>
     fst p = foldl relay_cursor c xs \<and> (\<forall>y \<in> set xs. \<not> relay_ends t y)"

lemma relayed_talk:
  assumes "relayed h t c w xs (d, v)" and "talk w2 = talk v @ relay_talk (host_debugs h) d [(x, res)]"
  shows "talk w2 = talk w @ relay_talk (host_debugs h) c (map (\<lambda>x. (x, Inr ())) xs @ [(x, res)])"
proof -
  have "map fst (map (\<lambda>x. (x, Inr () :: frame_error + unit)) xs) = xs" by (simp add: o_def)
  with assms show ?thesis by (simp only: relayed_def relay_talk_append fst_conv snd_conv append_assoc)
qed

lemma relayed_round:
  assumes "relayed h t c w xs p" and "relay_round h stream sub t p = Inr q"
  shows "\<exists>x. relayed h t c w (xs @ [x]) q"
proof -
  obtain d v where p: "p = (d, v)" by fastforce
  from assms(2) [unfolded p] obtain x res w2 where
    "talk w2 = talk v @ relay_talk (host_debugs h) d [(x, res)]"
    "Inr q = (if res = Inr () \<and> \<not> relay_ends t x then Inr (relay_cursor d x, w2) else Inl (res, w2))"
    by (rule relay_round_talk)
  with assms(1) [unfolded p, THEN relayed_talk, of w2 x res] have "relayed h t c w (xs @ [x]) q"
    using assms(1) p by (auto simp: relayed_def split: if_splits)
  then show ?thesis ..
qed

lemma relay_loop_talk:
  assumes "iterate (relay_round h stream sub t) (c, w) = Some (r, w')"
  shows "\<exists>xs x. talk w' = talk w @ relay_talk (host_debugs h) c (map (\<lambda>x. (x, Inr ())) xs @ [(x, r)]) \<and>
    (\<forall>y \<in> set xs. \<not> relay_ends t y) \<and> (r = Inr () \<longrightarrow> relay_ends t x)"
proof -
  let ?Q = "\<lambda>z. \<exists>xs x. talk (snd z) = talk w @ relay_talk (host_debugs h) c (map (\<lambda>x. (x, Inr ())) xs @ [(x, fst z)]) \<and>
    (\<forall>y \<in> set xs. \<not> relay_ends t y) \<and> (fst z = Inr () \<longrightarrow> relay_ends t x)"
  have "?Q (r, w')"
  proof (rule iterate_invariant [OF assms, where I = "\<lambda>p. \<exists>xs. relayed h t c w xs p"])
    show "\<exists>xs. relayed h t c w xs (c, w)" by (rule exI [of _ "[]"]) (simp add: relayed_def)
  next
    fix p q assume "\<exists>xs. relayed h t c w xs p" and "relay_round h stream sub t p = Inr q"
    then show "\<exists>xs. relayed h t c w xs q" by (metis relayed_round)
  next
    fix p z assume "\<exists>xs. relayed h t c w xs p" and z: "relay_round h stream sub t p = Inl z"
    then obtain xs where xs: "relayed h t c w xs p" by blast
    obtain d v where p: "p = (d, v)" by fastforce
    from z [unfolded p] obtain x res w2 where
      step: "talk w2 = talk v @ relay_talk (host_debugs h) d [(x, res)]"
      "Inl z = (if res = Inr () \<and> \<not> relay_ends t x then Inr (relay_cursor d x, w2) else Inl (res, w2))"
      by (rule relay_round_talk)
    then have z': "z = (res, w2)" "res = Inr () \<longrightarrow> relay_ends t x" by (auto split: if_splits)
    from relayed_talk [OF xs [unfolded p] step(1)] xs z' show "?Q z"
      by (intro exI [of _ xs] exI [of _ x]) (simp add: relayed_def)
  qed
  then show ?thesis by simp
qed

text \<open>The loop ends when Flow sends finitely many bytes.\<close>

lemma write_frame_taken:
  "calls (snd (write_frame env ser s v w)) = calls w @ ext \<Longrightarrow> taken t ext = 0"
proof -
  assume a: "calls (snd (write_frame env ser s v w)) = calls w @ ext"
  obtain e p b where "calls (snd (write_frame env ser s v w)) = calls w @ e"
    and "prefix e [Write_All s p, Write_All s b, Flush s]"
    using write_frame_shape [of env ser s v w] by blast
  with a have "prefix ext [Write_All s p, Write_All s b, Flush s]" by simp
  then show ?thesis by (auto simp: prefix_Cons)
qed

lemma hear_consumes:
  assumes "feeds (host_env h) sub bs (calls w)" and "hear h sub w = (Inr x, w1)"
  shows "\<exists>bs'. feeds (host_env h) sub bs' (calls w1) \<and> length bs' < length bs"
proof -
  let ?env = "host_env h"
  obtain w0 where rd: "read_frame ?env (de_response (host_flow h)) sub w = (Inr x, w0)"
    and w1: "calls w1 = calls w0"
    using assms(2) by (auto simp: hear_def subscription_next_def io_map_err_def split: prod.splits sum.splits)
  have "4 \<le> length bs"
  proof (rule ccontr)
    assume "\<not> 4 \<le> length bs"
    with read_exact_short [OF assms(1), of 4] rd show False by (simp add: read_frame_def io_simps)
  qed
  moreover obtain n where "calls w0 = calls w @ [Read_Exact sub 4, Read_Exact sub n]"
    using rd by (auto simp: read_frame_def io_simps read_exact_def Let_def split: prod.splits sum.splits if_splits)
  ultimately show ?thesis
    using feeds_later [OF assms(1), of "[Read_Exact sub 4, Read_Exact sub n]"] w1
    by (intro exI [of _ "drop (taken sub [Read_Exact sub 4, Read_Exact sub n]) bs"]) simp
qed

lemma relay_round_consumes:
  assumes "feeds (host_env h) sub bs (calls (snd p))" and "relay_round h stream sub t p = Inr q"
  shows "\<exists>bs'. feeds (host_env h) sub bs' (calls (snd q)) \<and> length bs' < length bs"
proof -
  obtain c w where p: "p = (c, w)" by fastforce
  obtain x w1 where x: "hear h sub w = (x, w1)" by fastforce
  obtain res w2 where res: "tell h stream (relay_answer (host_debugs h) c x) w1 = (res, w2)" by fastforce
  from assms(2) have q: "q = (relay_cursor c x, w2)" and "\<not> relay_ends t x"
    by (auto simp: p relay_round_step x res split: if_splits)
  then obtain y where "x = Inr y" by (cases x) (auto simp: relay_ends_def)
  with hear_consumes [of h sub bs w y w1] assms(1) x p obtain bs' where
    bs': "feeds (host_env h) sub bs' (calls w1)" "length bs' < length bs" by auto
  obtain v where v: "write_frame (host_env h) (ser_response (host_client h)) stream
      (relay_answer (host_debugs h) c x) w1 = (res, v)" and w2: "calls w2 = calls v"
    using res by (auto simp: tell_def split: prod.splits)
  obtain ext where ext: "calls v = calls w1 @ ext"
    using write_frame_shape [of "host_env h" "ser_response (host_client h)" stream "relay_answer (host_debugs h) c x" w1] v
    by auto
  with write_frame_taken [of "host_env h" "ser_response (host_client h)" stream _ w1 ext sub] v
  have "taken sub ext = 0" by (metis snd_conv)
  with feeds_later [OF bs'(1), of ext] bs'(2) q w2 ext show ?thesis by auto
qed

lemma relay_loop_ends:
  assumes "feeds (host_env h) sub bs (calls (snd p))"
  shows "\<exists>z. iterate (relay_round h stream sub t) p = Some z"
  using assms
proof (induction "length bs" arbitrary: bs p rule: less_induct)
  case less
  show ?case
  proof (cases "relay_round h stream sub t p")
    case (Inl z)
    then show ?thesis by (auto simp: iterate_done)
  next
    case (Inr q)
    from relay_round_consumes [OF less.prems Inr] obtain bs' where
      "feeds (host_env h) sub bs' (calls (snd q))" and "length bs' < length bs" by blast
    from less.hyps [OF this(2) this(1)] show ?thesis
      by (simp only: iterate_again [of "relay_round h stream sub t", OF Inr])
  qed
qed


text \<open>The watcher, on a client that sends finitely many bytes.\<close>

lemma watch_rounds:
  assumes "feeds env client bs (calls w)"
  shows "\<exists>w'. watch_client env client flow w = Some w' \<and>
    calls w' = calls w @ replicate (Suc (length bs)) (Read_Byte client) @ [Shutdown flow Shut_Both]"
  using assms
proof (induction bs arbitrary: w)
  case Nil
  from feeds_read [OF Nil] have "watch_round env client flow w =
      Inl (snd (sys_unit env (Shutdown flow Shut_Both) (called (Read_Byte client) w)))"
    by (simp add: watch_round_def read_byte_def)
  then show ?case by (simp add: watch_client_def iterate_done)
next
  case (Cons b bs)
  from feeds_read [OF Cons.prems] have r: "watch_round env client flow w = Inr (called (Read_Byte client) w)"
    by (simp add: watch_round_def read_byte_def)
  have "feeds env client bs (calls (called (Read_Byte client) w))"
    using feeds_later [OF Cons.prems, of "[Read_Byte client]"] by simp
  from Cons.IH [OF this] show ?case
    by (simp add: watch_client_def iterate_again [of "watch_round env client flow", OF r])
qed

lemma quiet_talk:
  fixes v :: "'z relay_world_scheme"
  shows "talk (snd (sys_unit env c v)) = talk v" and "talk (snd (sys_clone env s v)) = talk v"
    and "talk (snd (interrupt_handle env s v)) = talk v"
  by (simp_all add: sys_unit_def sys_clone_def interrupt_handle_def io_map_err_def called_def split: sum.splits prod.splits)

lemma read_frame_worlds:
  fixes v :: "'g nexus_world"
  shows "talk (snd (read_frame env des s v)) = talk v" and "memory (snd (read_frame env des s v)) = memory v"
  by (auto simp: read_frame_def io_simps read_exact_def called_def Let_def split: prod.splits sum.splits if_splits)

lemma tell_meta_worlds:
  fixes v :: "'g nexus_world"
  shows "talk (snd (tell_meta h s r v)) = talk v @ [Told_Meta r (fst (tell_meta h s r v))]"
    and "memory (snd (tell_meta h s r v)) = memory v"
  by (auto simp: tell_meta_def write_frame_def io_simps write_all_def sys_unit_def called_def
      split: prod.splits sum.splits option.splits)

lemma forward_subscription_talk:
  assumes "forward_subscription h stream sub t w = Some (r, w')"
  shows "(\<exists>e. r = Inl e \<and> talk w' = talk w) \<or>
    (\<exists>xs x. talk w' = talk w @ relay_talk (host_debugs h) None (map (\<lambda>x. (x, Inr ())) xs @ [(x, r)]) \<and>
       (\<forall>y \<in> set xs. \<not> relay_ends t y) \<and> (r = Inr () \<longrightarrow> relay_ends t x))"
proof -
  obtain x1 w1 where i: "interrupt_handle (host_env h) sub w = (x1, w1)" by fastforce
  obtain x2 w2 where c: "sys_clone (host_env h) stream w1 = (x2, w2)" by fastforce
  have t2: "talk w1 = talk w" "talk w2 = talk w"
    using quiet_talk(3) [of "host_env h" sub w] quiet_talk(2) [of "host_env h" stream w1] i c by simp_all
  show ?thesis
  proof (cases "(\<exists>e. x1 = Inl e) \<or> (\<exists>e. x2 = Inl e)")
    case True
    with assms i c t2 show ?thesis by (auto simp: forward_subscription_def io_map_err_def split: sum.splits)
  next
    case False
    then obtain f g where "x1 = Inr f" "x2 = Inr g" by (cases x1; cases x2; simp)
    with assms i c obtain w3 where "iterate (relay_round h stream sub t) (None, w2) = Some (r, w3)"
      and w': "w' = snd (sys_unit (host_env h) (Shutdown stream Shut_Read) w3)"
      by (auto simp: forward_subscription_def io_map_err_def split: option.splits)
    from relay_loop_talk [OF this(1)] show ?thesis by (simp add: w' quiet_talk(1) t2)
  qed
qed

lemma forward_subscription_ends:
  assumes "feeds (host_env h) sub bs (calls w)"
  shows "\<exists>r w'. forward_subscription h stream sub t w = Some (r, w')"
proof -
  have "feeds (host_env h) sub bs (calls w @ [Try_Clone sub, Try_Clone stream])"
    using feeds_later [OF assms, of "[Try_Clone sub, Try_Clone stream]"] by simp
  then obtain z where "iterate (relay_round h stream sub t) (None, called (Try_Clone stream) (called (Try_Clone sub) w)) = Some z"
    using relay_loop_ends [of h sub bs "(None, called (Try_Clone stream) (called (Try_Clone sub) w))" stream t] by auto
  then show ?thesis
    by (auto simp: forward_subscription_def interrupt_handle_def sys_clone_def io_map_err_def
        split: sum.splits prod.splits)
qed

section \<open>Examples\<close>

text \<open>A Flow that reports a delivery queued and then delivered, and a client that reads on.\<close>

definition sample_snapshot :: "int \<Rightarrow> delivery_state \<Rightarrow> delivery_snapshot" where
  "sample_snapshot n state = \<lparr>snap_cursor = n, snap_id = ''d'', snap_sent_by = ''s'',
     snap_address = sample_address, snap_state = state\<rparr>"

abbreviation sample_statuses :: "flow_response list" where
  "sample_statuses \<equiv> [Flow_SendChanged (sample_snapshot 5 Queued),
     Flow_SendChanged (sample_snapshot 6 (Delivered (rcpt_native sample_receipt)))]"

definition sample_host :: "byte list \<Rightarrow> (string \<Rightarrow> standard option) host" where
  "sample_host bs = \<lparr>host_env = quiet_env bs, host_flow = scripted_codec sample_statuses,
     host_client = \<lparr>de_query = (\<lambda>_. Inl ''none''), ser_response = (\<lambda>_. Inr []),
       de_meta_query = (\<lambda>_. Inr (Meta_Configure (std_configuration sample_standard))),
       ser_meta_response = (\<lambda>_. Inr [])\<rparr>,
     host_debugs = sample_debugs, host_engine = mem_engine, host_peercred = (\<lambda>_. Inr 7),
     host_proc = (\<lambda>_. Inl eof)\<rparr>"

abbreviation idle :: "(string \<Rightarrow> standard option) nexus_world" where
  "idle \<equiv> \<lparr>calls = [], contacts = [], talk = [], memory = sample_engine\<rparr>"

abbreviation two_frames :: "byte list" where
  "two_frames \<equiv> [0, 0, 0, 1, 0, 0, 0, 0, 1, 1]"

lemma sample_host_simps [simp]:
  "host_env (sample_host bs) = quiet_env bs" "host_engine (sample_host bs) = mem_engine"
  by (simp_all add: sample_host_def)

lemma quiet_write:
  "write_frame (quiet_env bs) (\<lambda>_. Inr []) s v w =
   (Inr (), called (Flush s) (called (Write_All s []) (called (Write_All s [0, 0, 0, 0]) w)))"
  by (subst write_frame_accepts [of _ _ "[]"]) (simp_all add: quiet_env_def to_be_bytes_def)

lemma quiet_clone: "sys_clone (quiet_env bs) s w = (Inr (Suc s), called (Try_Clone s) w)"
  by (simp add: sys_clone_def quiet_env_def)

lemma quiet_tell:
  "\<exists>v. tell (sample_host bs) s r w = (Inr (), v) \<and> calls v = calls w @ [Write_All s [0, 0, 0, 0], Write_All s [], Flush s]"
  by (simp add: tell_def sample_host_def quiet_write)

lemma quiet_hear:
  assumes "taken s (calls w) = 5 * k" and "k < 2"
  shows "\<exists>v. hear (sample_host two_frames) s w = (Inr (sample_statuses ! k), v) \<and>
    calls v = calls w @ [Read_Exact s 4, Read_Exact s 1]"
proof -
  have "from_be_bytes [0, 0, 0, 1] = 1" by (simp add: from_be_bytes_def)
  moreover from assms(2) have "k = 0 \<or> k = 1" by auto
  ultimately show ?thesis
    using assms(1)
    by (auto simp: hear_def subscription_next_def sample_host_def quiet_env_def scripted_codec_def read_frame_def
        read_exact_def io_simps FRAME_LIMIT_def)
qed

lemma sample_relay:
  "\<exists>w'. forward_subscription (sample_host two_frames) 1 2 (Some ''d'') idle = Some (Inr (), w')"
proof -
  let ?h = "sample_host two_frames"
  let ?loop = "relay_round ?h 1 2 (Some ''d'')"
  let ?w = "called (Try_Clone 1) (called (Try_Clone 2) idle)"
  obtain v1 where v1: "hear ?h 2 ?w = (Inr (sample_statuses ! 0), v1)" "taken 2 (calls v1) = 5"
    using quiet_hear [of 2 ?w 0] by auto
  obtain v2 where v2: "tell ?h 1 (SendChanged (sample_snapshot 5 Queued)) v1 = (Inr (), v2)" "taken 2 (calls v2) = 5"
    using quiet_tell [of two_frames 1 "SendChanged (sample_snapshot 5 Queued)" v1] v1(2) by auto
  obtain v3 where v3: "hear ?h 2 v2 = (Inr (sample_statuses ! 1), v3)"
    using quiet_hear [of 2 v2 1] v2(2) by auto
  let ?s = "sample_snapshot 6 (Delivered (rcpt_native sample_receipt))"
  obtain v4 where v4: "tell ?h 1 (SendChanged ?s) v3 = (Inr (), v4)"
    using quiet_tell [of two_frames 1 "SendChanged ?s" v3] by auto
  have "?loop (None, ?w) = Inr (Some 5, v2)"
    using v1(1) v2(1) by (simp add: relay_round_step relay_answer_def relay_ends_def relay_cursor_def change_finished_def
        sample_snapshot_def)
  moreover have "?loop (Some 5, v2) = Inl (Inr (), v4)"
    using v3 v4 by (simp add: relay_round_step relay_answer_def relay_ends_def change_finished_def sample_snapshot_def)
  ultimately have "iterate ?loop (None, ?w) = Some (Inr (), v4)"
    by (simp add: iterate_again iterate_done)
  then show ?thesis
    by (simp add: forward_subscription_def interrupt_handle_def quiet_clone io_map_err_def)
qed

section \<open>Properties\<close>

text \<open>C17. A relay is faithful: every status Flow sends is told to the client once, unchanged and
  in order, each before the next is read; it stops at the first status that ends the delivery
  being waited for, or at the first sign that the stream is over, which it tells with the
  cursor of the last status told; and the first failed write ends it.\<close>

theorem relay_faithful:
  assumes "forward_subscription h stream sub t w = Some (r, w')"
  shows "(\<exists>e. r = Inl e \<and> talk w' = talk w) \<or>
    (\<exists>xs x. talk w' = talk w @ relay_talk (host_debugs h) None (map (\<lambda>x. (x, Inr ())) xs @ [(x, r)]) \<and>
       (\<forall>y \<in> set xs. \<not> relay_ends t y) \<and> (r = Inr () \<longrightarrow> relay_ends t x))"
  using assms by (rule forward_subscription_talk)

lemma relay_faithful_witness:
  "\<exists>w' xs x. talk (w' :: (string \<Rightarrow> standard option) nexus_world) =
       relay_talk sample_debugs None (map (\<lambda>x. (x, Inr ())) xs @ [(x, Inr ())]) \<and> relay_ends (Some ''d'') x"
proof -
  obtain w' where run: "forward_subscription (sample_host two_frames) 1 2 (Some ''d'') idle = Some (Inr (), w')"
    using sample_relay by blast
  have "host_debugs (sample_host two_frames) = sample_debugs" by (simp add: sample_host_def)
  with relay_faithful [OF run] show ?thesis by auto
qed

text \<open>A relay whose Flow connection brings finitely many bytes, for instance because the
  watcher shut it down, returns: no status, well formed or not, keeps it going for ever.\<close>

lemma relay_returns:
  assumes "feeds (host_env h) sub bs (calls w)"
  shows "\<exists>r w'. forward_subscription h stream sub t w = Some (r, w')"
  using assms by (rule forward_subscription_ends)

lemma relay_returns_witness:
  "\<exists>r w'. forward_subscription (sample_host two_frames) 1 2 None idle = Some (r, w')"
  by (rule relay_returns [of _ _ two_frames])
     (use quiet_env_feeds [of two_frames 2 "[]"] in simp)

text \<open>The watcher shuts Flow's connection down when the client's side has ended and not
  before, whatever the client sent after its query, and then ends itself.\<close>

lemma watcher_ends_with_client:
  assumes "feeds env client bs (calls w)"
  shows "\<exists>w'. watch_client env client flow w = Some w' \<and>
    calls w' = calls w @ replicate (length bs) (Read_Byte client) @ [Read_Byte client, Shutdown flow Shut_Both]"
  using watch_rounds [OF assms, of flow] by (simp add: replicate_append_same [symmetric])

lemma watcher_ends_with_client_witness:
  "\<exists>w'. watch_client (quiet_env [7]) 1 2 \<lparr>calls = []\<rparr> = Some w' \<and>
     calls w' = [Read_Byte 1, Read_Byte 1, Shutdown 2 Shut_Both]"
proof -
  have "feeds (quiet_env [7]) 1 [7] (calls \<lparr>calls = []\<rparr>)"
    using quiet_env_feeds [of "[7]" 1 "[]"] by simp
  from watcher_ends_with_client [OF this, of 2] show ?thesis by simp
qed

text \<open>The meta socket answers one query truthfully: "configured" and "restart required" are
  said of exactly what is then stored, marked as configured by the owner, the second when the
  stored configuration was another; a refusal, an unreadable query or a failed write of the
  answer never leaves anything else behind.\<close>

lemma meta_configure_answer:
  assumes "store_ok (host_engine h) rows (memory w)" and "answer_meta h stream w = (r, w')"
  shows "store_ok (host_engine h) rows (memory w') \<and>
    ((\<exists>e. r = Inl e \<and> talk w' = talk w \<and> memory w' = memory w) \<or>
     (\<exists>c resp. talk w' = talk w @ [Told_Meta resp r] \<and>
        (case resp of
           Meta_StoreRefused \<Rightarrow> stored rows (memory w') = stored rows (memory w)
         | Meta_Configured \<Rightarrow> std_configuration (stored rows (memory w)) = c \<and>
             stored rows (memory w') = \<lparr>std_configuration = c, std_meta_configured = True\<rparr>
         | Meta_RestartRequired \<Rightarrow> std_configuration (stored rows (memory w)) \<noteq> c \<and>
             stored rows (memory w') = \<lparr>std_configuration = c, std_meta_configured = True\<rparr>)))"
proof -
  let ?api = "host_engine h"
  obtain x w1 where rd: "read_frame (host_env h) (de_meta_query (host_client h)) stream w = (x, w1)" by fastforce
  then have w1: "talk w1 = talk w" "memory w1 = memory w"
    using read_frame_worlds [of "host_env h" "de_meta_query (host_client h)" stream w] by simp_all
  show ?thesis
  proof (cases x)
    case (Inl e)
    with rd assms w1 show ?thesis by (auto simp: answer_meta_def io_bind_def)
  next
    case (Inr query)
    obtain c where q: "query = Meta_Configure c" by (cases query)
    obtain k g where conf: "configure ?api c True (memory w1) = (k, g)" by fastforce
    with rd Inr q assms(2) have t: "tell_meta h stream (meta_answer k) (w1\<lparr>memory := g\<rparr>) = (r, w')"
      by (simp add: answer_meta_def io_bind_def)
    have w': "talk w' = talk w @ [Told_Meta (meta_answer k) r]" "memory w' = g"
      using tell_meta_worlds [of h stream "meta_answer k" "w1\<lparr>memory := g\<rparr>"] t w1 by simp_all
    show ?thesis
    proof (cases k)
      case (Inl e)
      from kept.configure_refused [of ?api rows, folded configure_def, OF assms(1), of c True e g] conf Inl w1
      show ?thesis by (simp add: w' Inl meta_answer_def)
    next
      case k: (Inr restart)
      from kept.configure_done [of ?api rows, folded configure_def, OF assms(1), of c True restart g] conf k w1
      show ?thesis
        by (cases restart) (auto simp: w' k meta_answer_def changed_configuration_def)
    qed
  qed
qed


lemma meta_configure_answer_witness:
  "\<exists>r w'. answer_meta (sample_host (replicate 4 0)) 1 idle = (r, w') \<and>
     store_ok mem_engine (\<lambda>g. g) (memory w')"
proof -
  obtain r w' where run: "answer_meta (sample_host (replicate 4 0)) 1 idle = (r, w')" by fastforce
  have "store_ok (host_engine (sample_host (replicate 4 0))) (\<lambda>g. g) (memory idle)"
    by (simp add: store_ok_def mem_engine_contract sample_engine_def)
  from meta_configure_answer [OF this run] run show ?thesis by auto
qed

end
