(* ===== verification/Defaults.thy ===== *)
theory Defaults imports Text Wire begin

text \<open>
  message-defaults/src/lib.rs and message-nexus/src/configuration.rs: every default path,
  derived from two anchors. A path is its bytes. What the process reads from outside (two
  environment variables, \<open>/etc/passwd\<close>, the owner of \<open>/proc/self\<close>) is a record.
\<close>

section \<open>Paths\<close>

definition is_absolute :: "string \<Rightarrow> bool" where
  "is_absolute p \<longleftrightarrow> (case p of [] \<Rightarrow> False | c # _ \<Rightarrow> c = CHR ''/'')"

text \<open>\<open>Path::join\<close>: an absolute right-hand side replaces the left.\<close>

definition path_join :: "string \<Rightarrow> string \<Rightarrow> string" where
  "path_join p q =
     (if is_absolute q then q
      else if p = [] \<or> last p = CHR ''/'' then p @ q
      else p @ ''/'' @ q)"

section \<open>The user\<close>

record process_user =
  user_id :: nat

record surroundings =
  env_home :: "string option"
  env_runtime :: "string option"
  passwd_file :: "string option"
  self_owner :: "nat option"

definition of_this_process :: "surroundings \<Rightarrow> process_user" where
  "of_this_process e = \<lparr>user_id = (case self_owner e of None \<Rightarrow> 0 | Some uid \<Rightarrow> uid)\<rparr>"

definition passwd_entry_home :: "string \<Rightarrow> string \<Rightarrow> string option" where
  "passwd_entry_home uid line =
     (let parts = split_by (\<lambda>c. c = CHR '':'') line in
      if 6 \<le> length parts \<and> parts ! 2 = uid then Some (parts ! 5) else None)"

fun find_map :: "('a \<Rightarrow> 'b option) \<Rightarrow> 'a list \<Rightarrow> 'b option" where
  "find_map f [] = None"
| "find_map f (x # xs) = (case f x of Some y \<Rightarrow> Some y | None \<Rightarrow> find_map f xs)"

definition password_database_home :: "surroundings \<Rightarrow> process_user \<Rightarrow> string option" where
  "password_database_home e user =
     Option.bind (passwd_file e) (\<lambda>database.
       find_map (passwd_entry_home (decimal (user_id user))) (str_lines database))"

definition platform_runtime_directory :: "process_user \<Rightarrow> string" where
  "platform_runtime_directory user = ''/run/user/'' @ decimal (user_id user)"

section \<open>The anchors and the layout\<close>

record default_configuration =
  dc_home :: string
  dc_runtime :: string

definition filter_absolute :: "string option \<Rightarrow> string option" where
  "filter_absolute o' = (case o' of Some p \<Rightarrow> if is_absolute p then Some p else None | None \<Rightarrow> None)"

definition or_else :: "'a option \<Rightarrow> 'a option \<Rightarrow> 'a option" where
  "or_else a b = (case a of Some x \<Rightarrow> Some x | None \<Rightarrow> b)"

definition unwrap_or :: "'a option \<Rightarrow> 'a \<Rightarrow> 'a" where
  "unwrap_or a d = (case a of Some x \<Rightarrow> x | None \<Rightarrow> d)"

definition from_environment :: "surroundings \<Rightarrow> default_configuration" where
  "from_environment e =
     (let user = of_this_process e in
      \<lparr>dc_home = unwrap_or (or_else (filter_absolute (env_home e)) (password_database_home e user)) ''/'',
       dc_runtime = unwrap_or (filter_absolute (env_runtime e)) (platform_runtime_directory user)\<rparr>)"

definition state_directory :: "default_configuration \<Rightarrow> string" where
  "state_directory d = path_join (dc_home d) ''.local/state/message''"

definition store_path :: "default_configuration \<Rightarrow> string" where
  "store_path d = path_join (state_directory d) ''message.sema''"

definition socket_directory :: "default_configuration \<Rightarrow> string" where
  "socket_directory d = path_join (dc_runtime d) ''message''"

definition ordinary_socket_path :: "default_configuration \<Rightarrow> string" where
  "ordinary_socket_path d = path_join (socket_directory d) ''message.sock''"

definition meta_socket_path :: "default_configuration \<Rightarrow> string" where
  "meta_socket_path d = path_join (socket_directory d) ''message-owner.sock''"

definition flow_socket_path :: "default_configuration \<Rightarrow> string" where
  "flow_socket_path d = path_join (path_join (dc_runtime d) ''flow'') ''flow.sock''"

definition flow_meta_socket_path :: "default_configuration \<Rightarrow> string" where
  "flow_meta_socket_path d = path_join (path_join (dc_runtime d) ''flow'') ''flow-meta.sock''"

section \<open>The seeded configuration\<close>

text \<open>\<open>CarriedAsText\<close>: a path as text, ill-formed UTF-8 replaced.\<close>

definition carried :: "string \<Rightarrow> string" where
  "carried p = utf8_lossy p"

definition message_configuration :: "default_configuration \<Rightarrow> configuration" where
  "message_configuration d =
     \<lparr>conf_ordinary = carried (ordinary_socket_path d),
      conf_meta = carried (meta_socket_path d),
      conf_flow = carried (flow_socket_path d)\<rparr>"

lemma path_join_absolute: "is_absolute p \<Longrightarrow> is_absolute (path_join p q)"
  by (cases p) (auto simp: is_absolute_def path_join_def split: list.splits)

lemma path_join_relative_tail:
  "\<not> is_absolute q \<Longrightarrow> \<exists>pre. path_join p q = pre @ q"
  by (auto simp: path_join_def)

lemma relative_names [simp]:
  "\<not> is_absolute (c # s) \<longleftrightarrow> c \<noteq> CHR ''/''"
  by (simp add: is_absolute_def)

lemma platform_runtime_absolute: "is_absolute (platform_runtime_directory user)"
  by (simp add: platform_runtime_directory_def is_absolute_def)

lemma from_environment_runtime_absolute: "is_absolute (dc_runtime (from_environment e))"
  by (auto simp: from_environment_def Let_def unwrap_or_def filter_absolute_def platform_runtime_absolute
      split: option.splits)

lemma join_tail: "\<not> is_absolute q \<Longrightarrow> p \<noteq> [] \<Longrightarrow> last p \<noteq> CHR ''/'' \<Longrightarrow> path_join p q = p @ ''/'' @ q"
  by (simp add: path_join_def)

lemma join_last: "q \<noteq> [] \<Longrightarrow> last (path_join p q) = last q \<and> path_join p q \<noteq> []"
  by (auto simp: path_join_def)

lemma socket_directory_end: "last (socket_directory d) = CHR ''e'' \<and> socket_directory d \<noteq> []"
  using join_last [of "''message''"] by (simp add: socket_directory_def)

lemma flow_directory_end: "last (path_join (dc_runtime d) ''flow'') = CHR ''w'' \<and> path_join (dc_runtime d) ''flow'' \<noteq> []"
  using join_last [of "''flow''"] by simp

lemma socket_paths:
  "ordinary_socket_path d = socket_directory d @ ''/message.sock''"
  "meta_socket_path d = socket_directory d @ ''/message-owner.sock''"
  "flow_socket_path d = path_join (dc_runtime d) ''flow'' @ ''/flow.sock''"
  "flow_meta_socket_path d = path_join (dc_runtime d) ''flow'' @ ''/flow-meta.sock''"
  using socket_directory_end [of d] flow_directory_end [of d]
  by (simp_all add: ordinary_socket_path_def meta_socket_path_def flow_socket_path_def
      flow_meta_socket_path_def join_tail)

text \<open>The sixth character from the end tells the four names apart.\<close>

lemma socket_marks:
  "map (\<lambda>p. rev p ! 5) [ordinary_socket_path d, meta_socket_path d, flow_socket_path d, flow_meta_socket_path d]
   = ''erwa''"
  by (simp add: socket_paths)

lemma distinct_erwa: "distinct ''erwa''"
  by simp

text \<open>Whatever the environment holds, the four default sockets are absolute paths and four
  different paths, so neither of Message's listeners can take the other's or Flow's address.\<close>

lemma default_sockets_absolute_distinct:
  "let d = from_environment e;
       paths = [ordinary_socket_path d, meta_socket_path d, flow_socket_path d, flow_meta_socket_path d]
   in list_all is_absolute paths \<and> distinct paths"
proof -
  let ?d = "from_environment e"
  have r: "is_absolute (dc_runtime ?d)" by (rule from_environment_runtime_absolute)
  then have "list_all is_absolute [ordinary_socket_path ?d, meta_socket_path ?d, flow_socket_path ?d, flow_meta_socket_path ?d]"
    by (simp add: ordinary_socket_path_def meta_socket_path_def flow_socket_path_def
        flow_meta_socket_path_def socket_directory_def path_join_absolute)
  moreover have "distinct [ordinary_socket_path ?d, meta_socket_path ?d, flow_socket_path ?d, flow_meta_socket_path ?d]"
    using distinct_map [of "\<lambda>p. rev p ! 5"] socket_marks [of ?d] by (metis distinct_erwa)
  ultimately show ?thesis by (simp only: Let_def)
qed
text \<open>A home comes from the first line of the password database that has at least six
  fields and names this user's id, whatever stands on the other lines; without one, or without
  a database, there is none.\<close>

definition names_user :: "string \<Rightarrow> string \<Rightarrow> bool" where
  "names_user uid line \<longleftrightarrow> (let parts = split_by (\<lambda>c. c = CHR '':'') line in
     6 \<le> length parts \<and> parts ! 2 = uid)"

lemma find_map_spec:
  "find_map f xs = Some y \<longleftrightarrow> (\<exists>pre x post. xs = pre @ x # post \<and> f x = Some y \<and> (\<forall>z \<in> set pre. f z = None))"
proof (induction xs)
  case Nil
  then show ?case by simp
next
  case (Cons a xs)
  show ?case
  proof (cases "f a")
    case None
    show ?thesis
    proof
      assume "find_map f (a # xs) = Some y"
      with None Cons.IH obtain pre x post where
        "xs = pre @ x # post" "f x = Some y" "\<forall>z \<in> set pre. f z = None" by auto
      with None show "\<exists>pre x post. a # xs = pre @ x # post \<and> f x = Some y \<and> (\<forall>z \<in> set pre. f z = None)"
        by (intro exI [of _ "a # pre"]) auto
    next
      assume "\<exists>pre x post. a # xs = pre @ x # post \<and> f x = Some y \<and> (\<forall>z \<in> set pre. f z = None)"
      with None obtain pre x post where
        "xs = pre @ x # post" "f x = Some y" "\<forall>z \<in> set pre. f z = None"
        by (auto simp: Cons_eq_append_conv)
      with None Cons.IH show "find_map f (a # xs) = Some y" by auto
    qed
  next
    case (Some b)
    then show ?thesis by (auto simp: Cons_eq_append_conv intro: exI [of _ "[]"])
  qed
qed

lemma passwd_entry_home_Some:
  "passwd_entry_home uid line = Some h \<longleftrightarrow>
   names_user uid line \<and> h = split_by (\<lambda>c. c = CHR '':'') line ! 5"
  by (auto simp: passwd_entry_home_def names_user_def Let_def)

lemma password_database_home_first_entry:
  "password_database_home e user = Some h \<longleftrightarrow>
   (\<exists>database pre line post. passwd_file e = Some database \<and>
      str_lines database = pre @ line # post \<and>
      names_user (decimal (user_id user)) line \<and>
      list_all (\<lambda>l. \<not> names_user (decimal (user_id user)) l) pre \<and>
      h = split_by (\<lambda>c. c = CHR '':'') line ! 5)"
proof -
  have none: "passwd_entry_home uid l = None \<longleftrightarrow> \<not> names_user uid l" for uid l
    by (auto simp: passwd_entry_home_def names_user_def Let_def)
  show ?thesis
    by (cases "passwd_file e")
       (auto simp: password_database_home_def find_map_spec passwd_entry_home_Some none list_all_iff)
qed

text \<open>The text a path is configured as is always well-formed UTF-8, carrying it again changes
  nothing, and exactly the well-formed paths are carried as they are.\<close>

lemma carried_utf8:
  "utf8_valid (carried p) \<and> carried (carried p) = carried p \<and> (utf8_valid p \<longleftrightarrow> carried p = p)"
  by (simp add: carried_def utf8_lossy_valid utf8_lossy_idem utf8_valid_iff)

end
