(* ===== verification/Nexus.thy ===== *)
theory Nexus imports Listener Defaults begin

text \<open>
  message-nexus/src/nexus.rs: opening the Nexus (seed and open the store, read the record, bind
  the address to this process at Flow) and the life of its configuration: what the ordinary and
  the owner's Configure queries do to it between two starts, and what a start binds.
\<close>

section \<open>Opening\<close>

datatype nexus_error = Nexus_Store store_error | Nexus_Process io_error | Nexus_Flow edge_failure

record 'g nexus =
  nx_store :: 'g
  nx_bound :: configuration

definition nexus_seed :: "default_configuration \<Rightarrow> standard" where
  "nexus_seed defaults = \<lparr>std_configuration = message_configuration defaults, std_meta_configured = False\<rparr>"

definition nexus_address :: address where
  "nexus_address = \<lparr>addr_aspect = Field, addr_topic = ''message'', addr_layer = Primary\<rparr>"

definition open_nexus ::
  "env \<Rightarrow> flow_codec \<Rightarrow> decoders \<Rightarrow> 'g engine_api \<Rightarrow> (string \<Rightarrow> file_view) \<Rightarrow> (string \<Rightarrow> io_error + string) \<Rightarrow>
   nat \<Rightarrow> default_configuration \<Rightarrow> ('z flow_world_scheme, nexus_error, 'g nexus) io" where
  "open_nexus env cod dec api files proc own_pid defaults =
     io_bind (io_map_err Nexus_Store (io_of_sum
       (open_store dec api (files (store_path defaults)) (store_path defaults) (nexus_seed defaults)))) (\<lambda>store.
     io_bind (io_map_err Nexus_Store (io_of_sum (read_standard api store))) (\<lambda>standard.
     io_bind (io_map_err Nexus_Process (io_of_sum (this_process proc own_pid))) (\<lambda>process.
     io_bind (io_map_err Nexus_Flow
       (flow_bind env cod (conf_flow (std_configuration standard)) nexus_address process)) (\<lambda>_.
     io_ret \<lparr>nx_store = store, nx_bound = std_configuration standard\<rparr>))))"

section \<open>The life of the configuration\<close>

text \<open>
  What can happen to a running Nexus, with what it answers. A Send or an observation reads the
  record. A restart opens the same store again and binds what it holds.
\<close>

datatype nexus_event =
    Ordinary configuration response
  | Owner configuration meta_response
  | Read_Flow "store_error + string"
  | Restart

inductive nexus_step :: "'g engine_api \<Rightarrow> 'g nexus \<Rightarrow> nexus_event \<Rightarrow> 'g nexus \<Rightarrow> bool"
  for api where
  ordinary: "serve_query api (Configure c) (nx_store n) = (r, g) \<Longrightarrow>
    nexus_step api n (Ordinary c r) (n\<lparr>nx_store := g\<rparr>)"
| owner: "configure api c True (nx_store n) = (k, g) \<Longrightarrow>
    nexus_step api n (Owner c (meta_answer k)) (n\<lparr>nx_store := g\<rparr>)"
| reading: "flow_edge api (nx_store n) = r \<Longrightarrow> nexus_step api n (Read_Flow r) n"
| restart: "read_standard api (nx_store n) = Inr s \<Longrightarrow>
    nexus_step api n Restart (n\<lparr>nx_bound := std_configuration s\<rparr>)"

inductive nexus_run :: "'g engine_api \<Rightarrow> 'g nexus \<Rightarrow> nexus_event list \<Rightarrow> 'g nexus \<Rightarrow> bool"
  for api where
  here: "nexus_run api n [] n"
| step: "nexus_run api n es m \<Longrightarrow> nexus_step api m e k \<Longrightarrow> nexus_run api n (es @ [e]) k"

inductive_cases nexus_stepE: "nexus_step api n e m"

text \<open>The contract: the record and the bound configuration, as the answers alone determine them.\<close>

fun applied :: "nexus_event \<Rightarrow> standard \<times> configuration \<Rightarrow> standard \<times> configuration" where
  "applied (Ordinary c Configured) (s, b) = (\<lparr>std_configuration = c, std_meta_configured = std_meta_configured s\<rparr>, b)"
| "applied (Ordinary c _) (s, b) = (s, b)"
| "applied (Owner c Meta_StoreRefused) (s, b) = (s, b)"
| "applied (Owner c _) (s, b) = (\<lparr>std_configuration = c, std_meta_configured = True\<rparr>, b)"
| "applied (Read_Flow _) (s, b) = (s, b)"
| "applied Restart (s, b) = (s, std_configuration s)"

definition abs_nexus :: "('g \<Rightarrow> string \<Rightarrow> standard option) \<Rightarrow> 'g nexus \<Rightarrow> standard \<times> configuration" where
  "abs_nexus rows n = (stored rows (nx_store n), nx_bound n)"

definition owner_done :: "nexus_event \<Rightarrow> bool" where
  "owner_done e \<longleftrightarrow> (\<exists>c. e = Owner c Meta_Configured \<or> e = Owner c Meta_RestartRequired)"

lemma serve_configure:
  assumes "store_ok api rows g" and "serve_query api (Configure c) g = (r, g')"
  shows "store_ok api rows g' \<and>
    (r = Configured \<and> \<not> std_meta_configured (stored rows g) \<and>
       stored rows g' = \<lparr>std_configuration = c, std_meta_configured = False\<rparr> \<or>
     (\<exists>x. r = Refused x) \<and> stored rows g' = stored rows g)"
proof -
  obtain k g1 where conf: "configure api c False g = (k, g1)" by fastforce
  show ?thesis
  proof (cases k)
    case (Inr b)
    with kept.configure_done [of api rows, folded configure_def, OF assms(1), of c False b g1] conf assms(2)
    show ?thesis by (auto simp: serve_query_def changed_configuration_def)
  next
    case (Inl e)
    with kept.configure_refused [of api rows, folded configure_def, OF assms(1), of c False e g1] conf assms(2)
    show ?thesis by (cases e) (auto simp: serve_query_def)
  qed
qed

lemma owner_configure:
  assumes "store_ok api rows g" and "configure api c True g = (k, g')"
  shows "store_ok api rows g' \<and>
    (case k of Inl e \<Rightarrow> stored rows g' = stored rows g
     | Inr b \<Rightarrow> stored rows g' = \<lparr>std_configuration = c, std_meta_configured = True\<rparr> \<and>
         (b \<longleftrightarrow> std_configuration (stored rows g) \<noteq> c))"
proof (cases k)
  case (Inr b)
  with kept.configure_done [of api rows, folded configure_def, OF assms(1), of c True b g'] assms(2)
  show ?thesis by (auto simp: changed_configuration_def)
next
  case (Inl e)
  with kept.configure_refused [of api rows, folded configure_def, OF assms(1), of c True e g'] assms(2)
  show ?thesis by auto
qed

lemma nexus_step_refines:
  assumes "store_ok api rows (nx_store n)" and "nexus_step api n e m"
  shows "store_ok api rows (nx_store m) \<and> abs_nexus rows m = applied e (abs_nexus rows n)"
  using assms(2)
proof cases
  case (ordinary c r g)
  from serve_configure [OF assms(1) ordinary(3)] ordinary(1,2) show ?thesis
    by (cases "stored rows (nx_store n)") (auto simp: abs_nexus_def)
next
  case (owner c k g)
  from owner_configure [OF assms(1) owner(3)] owner(1,2) show ?thesis
    by (cases k) (auto simp: abs_nexus_def meta_answer_def split: bool.split)
next
  case (reading r)
  with assms(1) show ?thesis by (simp add: abs_nexus_def)
next
  case (restart s)
  with assms(1) read_standard_stored [OF assms(1), of s] show ?thesis by (simp add: abs_nexus_def)
qed

lemma nexus_run_refines:
  assumes "nexus_run api n es m" and "store_ok api rows (nx_store n)"
  shows "store_ok api rows (nx_store m) \<and> abs_nexus rows m = fold applied es (abs_nexus rows n)"
  using assms
  by (induction rule: nexus_run.induct) (auto dest: nexus_step_refines)

lemma nexus_run_append:
  "nexus_run api n es m \<Longrightarrow> es = a @ b \<Longrightarrow> \<exists>k. nexus_run api n a k \<and> nexus_run api k b m"
proof (induction arbitrary: b rule: nexus_run.induct)
  case (here n)
  then show ?case by (auto intro: nexus_run.here)
next
  case (step n es m e k)
  show ?case
  proof (cases b rule: rev_cases)
    case Nil
    with step.prems step.hyps show ?thesis by (metis append_Nil2 nexus_run.here nexus_run.step)
  next
    case (snoc c x)
    with step.prems step.IH [of c] step.hyps(2) show ?thesis by (auto intro: nexus_run.step)
  qed
qed

text \<open>Once the owner has configured, no step answers an ordinary Configure with success.\<close>

lemma owner_mark_step:
  assumes "store_ok api rows (nx_store n)" and "std_meta_configured (stored rows (nx_store n))"
    and "nexus_step api n e m"
  shows "std_meta_configured (stored rows (nx_store m)) \<and> e \<noteq> Ordinary c Configured"
  using assms(3)
proof cases
  case (ordinary c' r g)
  from serve_configure [OF assms(1) ordinary(3)] ordinary(1,2) assms(2) show ?thesis by auto
next
  case (owner c' k g)
  from owner_configure [OF assms(1) owner(3)] owner(1,2) assms(2) show ?thesis by (cases k) auto
qed (use assms(2) in auto)

lemma owner_mark_run:
  assumes "nexus_run api n es m" and "store_ok api rows (nx_store n)"
    and "std_meta_configured (stored rows (nx_store n))"
  shows "std_meta_configured (stored rows (nx_store m)) \<and> Ordinary c Configured \<notin> set es"
  using assms
proof (induction rule: nexus_run.induct)
  case (here n)
  then show ?case by simp
next
  case (step n es m e k)
  with nexus_run_refines [OF step.hyps(1)] have "store_ok api rows (nx_store m)" by blast
  from owner_mark_step [OF this _ step.hyps(2), of c] step show ?case by auto
qed

lemma owner_done_marks:
  assumes "store_ok api rows (nx_store n)" and "nexus_step api n e m" and "owner_done e"
  shows "std_meta_configured (stored rows (nx_store m))"
  using assms(2)
proof cases
  case (owner c k g)
  from owner_configure [OF assms(1) owner(3)] owner(1,2) assms(3) show ?thesis
    by (cases k) (auto simp: owner_done_def meta_answer_def)
qed (use assms(3) in \<open>auto simp: owner_done_def\<close>)

inductive_simps nexus_run_Nil: "nexus_run api n [] m"

lemma nexus_run_one:
  assumes "nexus_run api n [e] m"
  shows "nexus_step api n e m"
  using assms by cases (simp add: nexus_run_Nil)

section \<open>Examples\<close>

definition sample_nexus :: "(string \<Rightarrow> standard option) nexus" where
  "sample_nexus = \<lparr>nx_store = sample_engine, nx_bound = std_configuration sample_standard\<rparr>"

abbreviation other_configuration :: configuration where
  "other_configuration \<equiv> \<lparr>conf_ordinary = ''/r/m'', conf_meta = ''/r/o'', conf_flow = ''/r/g''\<rparr>"

lemma sample_nexus_ok [simp]: "store_ok mem_engine (\<lambda>g. g) (nx_store sample_nexus)"
  by (simp add: store_ok_def mem_engine_contract sample_nexus_def sample_engine_def)

lemma mem_read: "g STANDARD_KEY = Some s \<Longrightarrow> read_standard mem_engine g = Inr s"
  by (simp add: read_standard_def standards_def mem_engine_def map_err_def)

lemma mem_configure:
  assumes "g STANDARD_KEY = Some s" and "meta \<or> \<not> std_meta_configured s"
  shows "configure mem_engine c meta g =
    (Inr (std_configuration s \<noteq> c), g(STANDARD_KEY \<mapsto> changed_configuration s c meta))"
  using assms mem_read [of g s, OF assms(1)]
  by (simp add: configure_def configure_with_def replace_standard_def io_simps Let_def)
     (simp add: mem_engine_def io_ret_def)

text \<open>The owner moves Flow's socket, an ordinary client tries to move it back, a Send follows.\<close>

definition after_owner :: "(string \<Rightarrow> standard option) nexus" where
  "after_owner = sample_nexus\<lparr>nx_store :=
     sample_engine(STANDARD_KEY \<mapsto> \<lparr>std_configuration = other_configuration, std_meta_configured = True\<rparr>)\<rparr>"

lemma sample_owner: "nexus_step mem_engine sample_nexus (Owner other_configuration Meta_RestartRequired) after_owner"
  using nexus_step.owner [of mem_engine other_configuration sample_nexus "Inr True"]
    mem_configure [of "nx_store sample_nexus" sample_standard True other_configuration]
  by (simp add: sample_nexus_def sample_engine_def after_owner_def changed_configuration_def meta_answer_def sample_standard_def)

lemma sample_owner_again: "nexus_step mem_engine after_owner (Owner other_configuration Meta_Configured) after_owner"
  using nexus_step.owner [of mem_engine other_configuration after_owner "Inr False"]
    mem_configure [of "nx_store after_owner" "\<lparr>std_configuration = other_configuration, std_meta_configured = True\<rparr>" True other_configuration]
  by (simp add: after_owner_def sample_nexus_def changed_configuration_def meta_answer_def)

lemma sample_closed:
  "nexus_step mem_engine after_owner (Ordinary c (Refused Send_AlreadyConfigured)) after_owner"
proof -
  have "configure mem_engine c False (nx_store after_owner) = (Inl AlreadyConfigured, nx_store after_owner)"
    using mem_read [of "nx_store after_owner" "\<lparr>std_configuration = other_configuration, std_meta_configured = True\<rparr>"]
    by (simp add: configure_def configure_with_def after_owner_def sample_nexus_def)
  then have "serve_query mem_engine (Configure c) (nx_store after_owner) = (Refused Send_AlreadyConfigured, nx_store after_owner)"
    by (simp add: serve_query_def)
  from nexus_step.ordinary [OF this] show ?thesis by simp
qed

lemma sample_follow: "nexus_step mem_engine after_owner (Read_Flow (Inr ''/r/g'')) after_owner"
  by (rule nexus_step.reading) (simp add: flow_edge_def after_owner_def sample_nexus_def mem_read)

lemma sample_run:
  "nexus_run mem_engine sample_nexus [Owner other_configuration Meta_RestartRequired,
     Ordinary c (Refused Send_AlreadyConfigured), Read_Flow (Inr ''/r/g'')] after_owner"
  using nexus_run.step [OF nexus_run.step [OF nexus_run.step [OF nexus_run.here sample_owner] sample_closed] sample_follow]
  by simp

section \<open>Properties\<close>





text \<open>A Send speaks to the Flow socket configured last, without a restart: the path it reads
  is that of the record the answered Configure queries left.\<close>

lemma flow_follows_configuration:
  assumes "nexus_run api n (es @ [Read_Flow (Inr path)]) m" and "store_ok api rows (nx_store n)"
  shows "path = conf_flow (std_configuration (fst (fold applied es (stored rows (nx_store n), nx_bound n))))"
proof -
  from nexus_run_append [OF assms(1), of es "[Read_Flow (Inr path)]"] obtain k where
    k: "nexus_run api n es k" "nexus_run api k [Read_Flow (Inr path)] m" by blast
  from nexus_run_refines [OF k(1) assms(2)] have ok: "store_ok api rows (nx_store k)"
    and abs: "fold applied es (stored rows (nx_store n), nx_bound n) = (stored rows (nx_store k), nx_bound k)"
    by (simp_all add: abs_nexus_def)
  from nexus_run_one [OF k(2)] have "flow_edge api (nx_store k) = Inr path" by cases simp
  then obtain s where "read_standard api (nx_store k) = Inr s" "path = conf_flow (std_configuration s)"
    by (auto simp: flow_edge_def sum_bind_Inr_iff)
  with read_standard_stored [OF ok] abs show ?thesis by simp
qed

lemma flow_follows_configuration_witness:
  "nexus_run mem_engine sample_nexus ([Owner other_configuration Meta_RestartRequired,
     Ordinary other_configuration (Refused Send_AlreadyConfigured)] @ [Read_Flow (Inr ''/r/g'')]) after_owner \<and>
   ''/r/g'' = conf_flow (std_configuration (fst (fold applied [Owner other_configuration Meta_RestartRequired,
     Ordinary other_configuration (Refused Send_AlreadyConfigured)] (sample_standard, std_configuration sample_standard))))"
proof -
  have run: "nexus_run mem_engine sample_nexus ([Owner other_configuration Meta_RestartRequired,
     Ordinary other_configuration (Refused Send_AlreadyConfigured)] @ [Read_Flow (Inr ''/r/g'')]) after_owner"
    using sample_run by simp
  from flow_follows_configuration [OF this sample_nexus_ok] run show ?thesis
    by (simp add: sample_nexus_def stored_def sample_engine_def)
qed

text \<open>C36. "Restart required" compares with the stored record, not with the sockets in use: asking
  again for a configuration that is stored but not bound is answered "configured", although
  the running Nexus still serves the old sockets.\<close>

theorem restart_required_once:
  assumes "nexus_run api n [Owner c r1, Owner c r2] m" and "store_ok api rows (nx_store n)"
    and "r1 \<noteq> Meta_StoreRefused" and "nx_bound n \<noteq> c"
  shows "r2 \<noteq> Meta_RestartRequired \<and> nx_bound m \<noteq> std_configuration (stored rows (nx_store m))"
proof -
  from nexus_run_append [OF assms(1), of "[Owner c r1]" "[Owner c r2]"] obtain k where
    k: "nexus_step api n (Owner c r1) k" "nexus_step api k (Owner c r2) m" by (auto dest: nexus_run_one)
  from nexus_step_refines [OF assms(2) k(1)] assms(3) have ok: "store_ok api rows (nx_store k)"
    and st: "std_configuration (stored rows (nx_store k)) = c" "nx_bound k = nx_bound n"
    by (cases r1; simp add: abs_nexus_def)+
  from k(2) have "r2 \<noteq> Meta_RestartRequired \<and> nx_bound m = nx_bound k \<and> std_configuration (stored rows (nx_store m)) = c"
  proof cases
    case (owner j g)
    from owner_configure [OF ok owner(3)] owner(1,2) st show ?thesis
      by (cases j) (auto simp: meta_answer_def split: bool.splits)
  qed
  with st assms(4) show ?thesis by simp
qed

lemma restart_required_once_witness:
  "nx_bound after_owner \<noteq> std_configuration (stored (\<lambda>g. g) (nx_store after_owner))"
proof -
  have run: "nexus_run mem_engine sample_nexus
      [Owner other_configuration Meta_RestartRequired, Owner other_configuration Meta_Configured] after_owner"
    using nexus_run.step [OF nexus_run.step [OF nexus_run.here sample_owner] sample_owner_again] by simp
  have "nx_bound sample_nexus \<noteq> other_configuration" by (simp add: sample_nexus_def sample_standard_def)
  from restart_required_once [OF run sample_nexus_ok _ this] show ?thesis by simp
qed

text \<open>An opened Nexus serves the sockets its store holds and has told Flow once who it is: the
  store is sound, the bound configuration is the stored one, and the one contact with Flow is
  the successful bind of Message's own address to this process at the stored socket.\<close>

lemma open_nexus_binds:
  assumes "open_nexus env cod dec api files proc own_pid d w = (Inr n, w')" and "engine_contract api rows"
  shows "store_ok api rows (nx_store n) \<and> nx_bound n = std_configuration (stored rows (nx_store n)) \<and>
    (\<exists>p flow_id. this_process proc own_pid = Inr p \<and>
       contacts w' = contacts w @ [Exchanged (Ask_Bind nexus_address p) (Inr (Flow_Bound flow_id))])"
proof -
  from assms(1) obtain g s p flow_id where
    g: "open_store dec api (files (store_path d)) (store_path d) (nexus_seed d) = Inr g"
    and s: "read_standard api g = Inr s" and p: "this_process proc own_pid = Inr p"
    and b: "flow_bind env cod (conf_flow (std_configuration s)) nexus_address p w = (Inr flow_id, w')"
    and n: "n = \<lparr>nx_store = g, nx_bound = std_configuration s\<rparr>"
    by (auto simp: open_nexus_def io_simps split: sum.splits prod.splits)
  have ok: "store_ok api rows g" using open_store_ok [OF assms(2) g] .
  from b have "\<exists>answer. Inr flow_id = sum_bind answer (expecting pick_bound) \<and>
      contacts w' = contacts w @ [Exchanged (Ask_Bind nexus_address p) answer]"
    by (auto simp: flow_bind_def elim!: edge.typed_callE)
  moreover have "answer = Inr (Flow_Bound flow_id)" if "Inr flow_id = sum_bind answer (expecting pick_bound)" for answer
    using that by (cases answer) (auto simp: expecting_def pick_bound_def split: flow_response.splits)
  ultimately show ?thesis using ok read_standard_stored [OF ok s] p by (auto simp: n)
qed

definition sample_defaults :: default_configuration where
  "sample_defaults = \<lparr>dc_home = ''/h'', dc_runtime = ''/r''\<rparr>"

lemma open_nexus_binds_witness:
  "\<exists>n w'. open_nexus scripted_env (scripted_codec [Flow_Bound ''f'']) sample_decoders mem_engine (\<lambda>_. sample_fresh_file)
       sample_stat 42 sample_defaults start = (Inr n, w') \<and>
     contacts w' = [Exchanged (Ask_Bind nexus_address \<lparr>proc_pid = 42, proc_started = 777\<rparr>) (Inr (Flow_Bound ''f''))]"
proof -
  let ?g = "[STANDARD_KEY \<mapsto> nexus_seed sample_defaults]"
  have "open_store sample_decoders mem_engine sample_fresh_file (store_path sample_defaults) (nexus_seed sample_defaults) = Inr ?g"
    by (simp add: open_store_def recognize_def sample_fresh_file_def mem_engine_def standards_def map_err_def)
  moreover have "read_standard mem_engine ?g = Inr (nexus_seed sample_defaults)" by (simp add: mem_read)
  moreover have t: "this_process sample_stat 42 = Inr \<lparr>proc_pid = 42, proc_started = 777\<rparr>"
    using sample_for_pid by (simp add: this_process_def)
  ultimately obtain n w' where run: "open_nexus scripted_env (scripted_codec [Flow_Bound ''f'']) sample_decoders mem_engine
      (\<lambda>_. sample_fresh_file) sample_stat 42 sample_defaults start = (Inr n, w')"
    by (simp add: open_nexus_def io_simps flow_bind_def scripted_exchange [OF refl] expecting_def pick_bound_def)
  have "contacts w' = [Exchanged (Ask_Bind nexus_address \<lparr>proc_pid = 42, proc_started = 777\<rparr>) (Inr (Flow_Bound fid))] \<Longrightarrow>
      fid = ''f''" for fid
    using run by (auto simp: open_nexus_def io_simps flow_bind_def scripted_exchange [OF refl] expecting_def pick_bound_def
        t split: sum.splits)
  with open_nexus_binds [OF run mem_engine_contract] run t show ?thesis by auto
qed

end
