(* ===== verification/Serve.thy ===== *)
theory Serve imports Nexus begin

text \<open>
  message-nexus/src/listener.rs and main.rs, the server: binding a socket, the loop that waits
  for connections and signals, the worker that answers one connection, and the process around
  them. The file system, poll, accept and the threads' progress are oracles; the loop's
  own list of workers and what it joins and shuts down is the state.
\<close>

section \<open>Paths\<close>

text \<open>
  \<open>Path::parent\<close>. Trailing separators and \<open>.\<close> components are no part of a path; the path is
  taken from its end, so the functions work on the reversed text.
\<close>

fun trim_back :: "string \<Rightarrow> string" where
  "trim_back [] = []"
| "trim_back [c] = [c]"
| "trim_back (c # d # r) =
     (if c = CHR ''/'' then trim_back (d # r)
      else if c = CHR ''.'' \<and> d = CHR ''/'' then trim_back (d # r)
      else c # d # r)"

definition path_parent :: "string \<Rightarrow> string option" where
  "path_parent p =
     (let r = trim_back (rev p)
      in if r = [] \<or> r = ''/'' then None else Some (rev (trim_back (dropWhile (\<lambda>c. c \<noteq> CHR ''/'') r))))"

section \<open>Binding a socket\<close>

datatype fs_call =
    Create_Dirs string
  | Exists string
  | Probe string
  | Remove_File string
  | Bind_Listener string
  | Set_Mode string nat
  | Signal_Fd
  | Set_Nonblocking string

text \<open>
  What a call answers may depend on all calls before it. A probe is a connection that is
  dropped at once; \<open>os_answers\<close> says whether a server took it.
\<close>

record fs_host =
  os_exists :: "fs_call list \<Rightarrow> string \<Rightarrow> bool"
  os_answers :: "fs_call list \<Rightarrow> string \<Rightarrow> bool"
  os_unit :: "fs_call list \<Rightarrow> fs_call \<Rightarrow> io_error option"

definition fs_unit :: "fs_host \<Rightarrow> fs_call \<Rightarrow> (fs_call list, io_error, unit) io" where
  "fs_unit os c w = (case os_unit os w c of None \<Rightarrow> Inr () | Some e \<Rightarrow> Inl e, w @ [c])"

definition fs_exists :: "fs_host \<Rightarrow> string \<Rightarrow> (fs_call list, io_error, bool) io" where
  "fs_exists os p w = (Inr (os_exists os w p), w @ [Exists p])"

definition fs_answers :: "fs_host \<Rightarrow> string \<Rightarrow> (fs_call list, io_error, bool) io" where
  "fs_answers os p w = (Inr (os_answers os w p), w @ [Probe p])"

definition stale :: "fs_host \<Rightarrow> string \<Rightarrow> (fs_call list, io_error, bool) io" where
  "stale os p = io_bind (fs_exists os p) (\<lambda>there.
     if there then io_bind (fs_answers os p) (\<lambda>live. io_ret (\<not> live)) else io_ret False)"

definition bind_socket :: "fs_host \<Rightarrow> string \<Rightarrow> (fs_call list, io_error, unit) io" where
  "bind_socket os path =
     io_bind (case path_parent path of None \<Rightarrow> io_ret () | Some directory \<Rightarrow> fs_unit os (Create_Dirs directory)) (\<lambda>_.
     io_bind (stale os path) (\<lambda>remove.
     io_bind (if remove then fs_unit os (Remove_File path) else io_ret ()) (\<lambda>_.
     io_bind (fs_unit os (Bind_Listener path)) (\<lambda>_.
     fs_unit os (Set_Mode path (6 * 8 * 8))))))"

section \<open>Workers\<close>

datatype socket = Ordinary_Socket | Meta_Socket

text \<open>
  A worker answers its connection, closes the response half, and reports an error that is not
  the mere end of the connection. \<open>None\<close> is a worker that never ends.
\<close>

definition worker_report :: "frame_error + unit \<Rightarrow> frame_error option" where
  "worker_report result = (case result of Inl Closed \<Rightarrow> None | Inl e \<Rightarrow> Some e | Inr _ \<Rightarrow> None)"

definition run_worker ::
  "'g host \<Rightarrow> socket \<Rightarrow> stream \<Rightarrow> stream \<Rightarrow> 'g nexus_world \<Rightarrow> (frame_error option \<times> 'g nexus_world) option" where
  "run_worker h socket stream completion w =
     (case (case socket of
              Ordinary_Socket \<Rightarrow> answer_ordinary h stream w
            | Meta_Socket \<Rightarrow> Some (answer_meta h stream w)) of
        None \<Rightarrow> None
      | Some (result, w1) \<Rightarrow>
          Some (worker_report result, snd (sys_unit (host_env h) (Shutdown completion Shut_Write) w1)))"

section \<open>The loop\<close>

text \<open>
  What the system answers in each round: poll, with what is ready of the signals, the ordinary
  and the meta socket; accept and the two clones of the connection; which workers have ended.
\<close>

record loop_host =
  lo_poll :: "nat \<Rightarrow> io_error + bool \<times> bool \<times> bool"
  lo_accept :: "nat \<Rightarrow> socket \<Rightarrow> io_error + stream"
  lo_control :: "nat \<Rightarrow> socket \<Rightarrow> io_error + stream"
  lo_completion :: "nat \<Rightarrow> socket \<Rightarrow> io_error + stream"
  lo_finished :: "nat \<Rightarrow> nat \<Rightarrow> bool"

text \<open>
  A worker is known by its number, its place in \<open>sv_spawned\<close>; the loop holds it with the control
  handle of its connection. \<open>sv_joined\<close> and \<open>sv_shut\<close> are read by theorems only.
\<close>

record server =
  sv_round :: nat
  sv_spawned :: "(socket \<times> stream \<times> stream) list"
  sv_workers :: "(stream \<times> nat) list"
  sv_joined :: "nat list"
  sv_shut :: "stream list"

definition new_server :: server where
  "new_server = \<lparr>sv_round = 0, sv_spawned = [], sv_workers = [], sv_joined = [], sv_shut = []\<rparr>"

definition enlist :: "socket \<times> stream \<times> stream \<times> stream \<Rightarrow> server \<Rightarrow> server" where
  "enlist = (\<lambda>(socket, stream, control, completion) s.
     s\<lparr>sv_spawned := sv_spawned s @ [(socket, stream, completion)],
       sv_workers := sv_workers s @ [(control, length (sv_spawned s))]\<rparr>)"

definition accept_one :: "loop_host \<Rightarrow> nat \<Rightarrow> socket \<Rightarrow> server \<Rightarrow> io_error option \<times> server" where
  "accept_one lo k socket s =
     (case lo_accept lo k socket of
        Inl error \<Rightarrow> (if err_kind error = WouldBlock then None else Some error, s)
      | Inr stream \<Rightarrow>
          (case lo_control lo k socket of
             Inl error \<Rightarrow> (Some error, s)
           | Inr control \<Rightarrow>
               (case lo_completion lo k socket of
                  Inl error \<Rightarrow> (Some error, s)
                | Inr completion \<Rightarrow> (None, enlist (socket, stream, control, completion) s))))"

fun accept_ready :: "loop_host \<Rightarrow> nat \<Rightarrow> (socket \<times> bool) list \<Rightarrow> server \<Rightarrow> io_error option \<times> server" where
  "accept_ready lo k [] s = (None, s)"
| "accept_ready lo k ((socket, ready) # rest) s =
     (if \<not> ready then accept_ready lo k rest s
      else (case accept_one lo k socket s of
              (Some error, s') \<Rightarrow> (Some error, s')
            | (None, s') \<Rightarrow> accept_ready lo k rest s'))"

definition reap_server :: "loop_host \<Rightarrow> nat \<Rightarrow> server \<Rightarrow> server" where
  "reap_server lo k s =
     (case reap (\<lambda>(_, worker). lo_finished lo k worker) (sv_workers s) 0 [] of
        None \<Rightarrow> s
      | Some (workers, joined) \<Rightarrow> s\<lparr>sv_workers := workers, sv_joined := sv_joined s @ map snd joined\<rparr>)"

definition serve_round :: "loop_host \<Rightarrow> server \<Rightarrow> (io_error + unit) \<times> server + server" where
  "serve_round lo s =
     (let k = sv_round s; s0 = s\<lparr>sv_round := Suc k\<rparr> in
      case lo_poll lo k of
        Inl error \<Rightarrow> if err_kind error = Interrupted then Inr s0 else Inl (Inl error, s0)
      | Inr (signal, ordinary, meta) \<Rightarrow>
          if signal then Inl (Inr (), s0)
          else (case accept_ready lo k [(Ordinary_Socket, ordinary), (Meta_Socket, meta)] s0 of
                  (failure, s1) \<Rightarrow>
                    (case failure of
                       Some error \<Rightarrow> Inl (Inl error, reap_server lo k s1)
                     | None \<Rightarrow> Inr (reap_server lo k s1))))"

text \<open>After the loop every connection still held is shut down and its worker joined.\<close>

definition finish_server :: "server \<Rightarrow> server" where
  "finish_server s =
     s\<lparr>sv_shut := sv_shut s @ map fst (sv_workers s), sv_joined := sv_joined s @ map snd (sv_workers s),
       sv_workers := []\<rparr>"

definition serve_loop :: "loop_host \<Rightarrow> ((io_error + unit) \<times> server) option" where
  "serve_loop lo = map_option (\<lambda>(result, s). (result, finish_server s)) (iterate (serve_round lo) new_server)"

definition listen :: "fs_host \<Rightarrow> configuration \<Rightarrow> (fs_call list, io_error, unit) io" where
  "listen os bound =
     io_bind (bind_socket os (conf_ordinary bound)) (\<lambda>_.
     io_bind (bind_socket os (conf_meta bound)) (\<lambda>_.
     io_bind (fs_unit os Signal_Fd) (\<lambda>_.
     io_bind (fs_unit os (Set_Nonblocking (conf_ordinary bound))) (\<lambda>_.
     fs_unit os (Set_Nonblocking (conf_meta bound))))))"

definition serve :: "fs_host \<Rightarrow> loop_host \<Rightarrow> configuration \<Rightarrow> fs_call list \<Rightarrow>
  ((io_error + unit) \<times> fs_call list \<times> server) option" where
  "serve os lo bound w =
     (case listen os bound w of
        (Inl e, w') \<Rightarrow> Some (Inl e, w', new_server)
      | (Inr _, w') \<Rightarrow> map_option (\<lambda>(result, s). (result, w', s)) (serve_loop lo))"

section \<open>The process\<close>

datatype exit_code = Success | Failure

text \<open>
  What the process prints, by its kind: the version on standard output, or a complaint on
  standard error.
\<close>

datatype printed = Version | No_Arguments | Mask_Error int | State_Error io_error | Open_Error nexus_error | Serve_Error io_error

definition nexus_main ::
  "string list \<Rightarrow> int \<Rightarrow> (string \<Rightarrow> io_error option) \<Rightarrow> (default_configuration \<Rightarrow> nexus_error + 'n) \<Rightarrow>
   ('n \<Rightarrow> (io_error + unit) option) \<Rightarrow> default_configuration \<Rightarrow> (printed option \<times> exit_code) option" where
  "nexus_main args mask_error create_dirs open_it serve_it defaults =
     (if length args > 1 \<and> args ! 1 = ''--version'' then Some (Some Version, Success)
      else if length args > 1 then Some (Some No_Arguments, Failure)
      else if mask_error \<noteq> 0 then Some (Some (Mask_Error mask_error), Failure)
      else (case create_dirs (state_directory defaults) of
              Some error \<Rightarrow> Some (Some (State_Error error), Failure)
            | None \<Rightarrow>
                (case open_it defaults of
                   Inl error \<Rightarrow> Some (Some (Open_Error error), Failure)
                 | Inr nexus \<Rightarrow>
                     (case serve_it nexus of
                        None \<Rightarrow> None
                      | Some (Inr _) \<Rightarrow> Some (None, Success)
                      | Some (Inl error) \<Rightarrow> Some (Some (Serve_Error error), Failure)))))"

section \<open>Lemmas\<close>

text \<open>Binding: which calls are made, and when the file is removed.\<close>

definition bind_dirs :: "string \<Rightarrow> fs_call list" where
  "bind_dirs path = (case path_parent path of None \<Rightarrow> [] | Some d \<Rightarrow> [Create_Dirs d])"

definition bind_calls :: "string \<Rightarrow> bool \<Rightarrow> bool \<Rightarrow> fs_call list" where
  "bind_calls path there remove =
     bind_dirs path @ [Exists path] @ (if there then [Probe path] else []) @ (if remove then [Remove_File path] else []) @
     [Bind_Listener path, Set_Mode path 384]"

lemma stale_calls: "stale os path w =
  (Inr (os_exists os w path \<and> \<not> os_answers os (w @ [Exists path]) path),
   w @ [Exists path] @ (if os_exists os w path then [Probe path] else []))"
  by (simp add: stale_def fs_exists_def fs_answers_def io_simps)

lemma bind_socket_calls:
  assumes "bind_socket os path w = (r, w')"
  shows "\<exists>cs there remove. w' = w @ cs \<and> prefix cs (bind_calls path there remove) \<and>
    there = os_exists os (w @ bind_dirs path) path \<and>
    remove = (there \<and> \<not> os_answers os (w @ bind_dirs path @ [Exists path]) path) \<and>
    (r = Inr () \<longrightarrow> cs = bind_calls path there remove)"
proof -
  define v where "v = w @ bind_dirs path"
  define there where "there = os_exists os v path"
  define remove where "remove = (there \<and> \<not> os_answers os (v @ [Exists path]) path)"
  let ?probe = "if there then [Probe path] else []"
  have st: "stale os path v = (Inr remove, v @ [Exists path] @ ?probe)"
    by (simp add: stale_calls there_def remove_def)
  have "\<exists>cs. w' = w @ cs \<and> prefix cs (bind_calls path there remove) \<and> (r = Inr () \<longrightarrow> cs = bind_calls path there remove)"
  proof (cases "case path_parent path of None \<Rightarrow> io_ret () w | Some d \<Rightarrow> fs_unit os (Create_Dirs d) w")
    case (Pair x u)
    then have u: "u = v" by (auto simp: v_def bind_dirs_def fs_unit_def io_ret_def split: option.splits)
    from assms Pair st show ?thesis unfolding u
      by (cases x; cases remove)
         (auto simp: bind_socket_def io_bind_def fs_unit_def io_ret_def bind_calls_def v_def bind_dirs_def
           split: option.splits sum.splits if_splits)
  qed
  then show ?thesis unfolding there_def remove_def v_def by auto
qed

text \<open>The accounting of workers.\<close>

abbreviation sv_held :: "server \<Rightarrow> nat multiset" where
  "sv_held s \<equiv> mset (map snd (sv_workers s))"

abbreviation sv_gone :: "server \<Rightarrow> nat multiset" where
  "sv_gone s \<equiv> mset (sv_joined s)"

abbreviation sv_hired :: "server \<Rightarrow> nat multiset" where
  "sv_hired s \<equiv> mset [0..<length (sv_spawned s)]"

lemma reap_server_state:
  "sv_held (reap_server lo k s) + sv_gone (reap_server lo k s) = sv_held s + sv_gone s"
  "sv_spawned (reap_server lo k s) = sv_spawned s"
proof -
  obtain kept joined where r: "reap (\<lambda>(_, worker). lo_finished lo k worker) (sv_workers s) 0 [] = Some (kept, joined)"
    and p: "mset (sv_workers s) = mset kept + mset joined"
    using reap_partition [of "\<lambda>(_, worker). lo_finished lo k worker" "sv_workers s" 0 "[]"] by auto
  from p have "sv_held s = mset (map snd kept) + mset (map snd joined)" by simp
  with r show "sv_held (reap_server lo k s) + sv_gone (reap_server lo k s) = sv_held s + sv_gone s"
    and "sv_spawned (reap_server lo k s) = sv_spawned s" by (simp_all add: reap_server_def ac_simps)
qed

interpretation srv: crew sv_held sv_gone sv_hired enlist "\<lambda>_ s. length (sv_spawned s)" "reap_server lo" finish_server for lo
  by unfold_locales
     (rule reap_server_state(1) |
      simp add: enlist_def finish_server_def reap_server_state(2) split_beta add.commute del: mset_upt mset_map)+

definition server_ok :: "server \<Rightarrow> bool" where
  "server_ok s \<longleftrightarrow> sv_held s + sv_gone s = sv_hired s"

lemma accept_one_ok: "accept_one lo k socket s = (f, s') \<Longrightarrow> server_ok s \<Longrightarrow> server_ok s'"
  using srv.none_lost_hire [of s] unfolding server_ok_def
  by (auto simp: accept_one_def simp del: mset_upt mset_map split: sum.splits if_splits)

lemma accept_ready_ok: "accept_ready lo k rs s = (f, s') \<Longrightarrow> server_ok s \<Longrightarrow> server_ok s'"
proof (induction lo k rs s rule: accept_ready.induct)
  case (2 lo k socket ready rest s)
  obtain g t where one: "accept_one lo k socket s = (g, t)" by fastforce
  with 2 accept_one_ok [OF one] show ?case by (auto split: if_splits option.splits)
qed simp

lemma reap_server_ok: "server_ok s \<Longrightarrow> server_ok (reap_server lo k s)"
  unfolding server_ok_def by (rule srv.none_lost_tidy)

lemma serve_round_ok:
  assumes "server_ok s"
  shows "case serve_round lo s of Inl (_, s') \<Rightarrow> server_ok s' | Inr s' \<Rightarrow> server_ok s'"
proof -
  let ?s = "s\<lparr>sv_round := Suc (sv_round s)\<rparr>"
  have ok: "server_ok ?s" using assms by (simp add: server_ok_def)
  show ?thesis
  proof (cases "lo_poll lo (sv_round s)")
    case (Inl e)
    with ok show ?thesis by (simp add: serve_round_def Let_def)
  next
    case (Inr p)
    obtain signal o' m where p: "p = (signal, o', m)" by (cases p)
    obtain f t where a: "accept_ready lo (sv_round s) [(Ordinary_Socket, o'), (Meta_Socket, m)] ?s = (f, t)" by fastforce
    with accept_ready_ok [OF a ok] reap_server_ok Inr p ok show ?thesis
      by (auto simp: serve_round_def Let_def split: option.splits)
  qed
qed

lemma serve_loop_ok:
  assumes "serve_loop lo = Some (r, s)"
  shows "mset (sv_joined s) = mset [0..<length (sv_spawned s)] \<and> sv_workers s = []"
proof -
  obtain t where it: "iterate (serve_round lo) new_server = Some (r, t)" and s: "s = finish_server t"
    using assms by (auto simp: serve_loop_def)
  have "case (r, t) of (_, t) \<Rightarrow> server_ok t"
  proof (rule iterate_invariant [OF it, where I = server_ok])
    show "server_ok new_server" by (simp add: server_ok_def new_server_def)
  next
    fix x y assume "server_ok x" "serve_round lo x = Inr y"
    with serve_round_ok [of x lo] show "server_ok y" by simp
  next
    fix x r assume "server_ok x" "serve_round lo x = Inl r"
    with serve_round_ok [of x lo] show "case r of (_, t) \<Rightarrow> server_ok t" by simp
  qed
  then have "sv_held t + sv_gone t = sv_hired t" by (simp add: server_ok_def)
  from srv.dismissed [OF this] show ?thesis by (simp add: s finish_server_def)
qed

text \<open>When the loop stops.\<close>

definition accept_error :: "loop_host \<Rightarrow> nat \<Rightarrow> socket \<Rightarrow> io_error option" where
  "accept_error lo k socket =
     (case (lo_accept lo k socket, lo_control lo k socket, lo_completion lo k socket) of
        (Inl e, _, _) \<Rightarrow> if err_kind e = WouldBlock then None else Some e
      | (Inr _, Inl e, _) \<Rightarrow> Some e
      | (Inr _, Inr _, Inl e) \<Rightarrow> Some e
      | _ \<Rightarrow> None)"

definition round_stops :: "loop_host \<Rightarrow> nat \<Rightarrow> (io_error + unit) option" where
  "round_stops lo k =
     (case lo_poll lo k of
        Inl e \<Rightarrow> if err_kind e = Interrupted then None else Some (Inl e)
      | Inr (signal, o', m) \<Rightarrow>
          if signal then Some (Inr ())
          else (case (if o' then accept_error lo k Ordinary_Socket else None) of
                  Some e \<Rightarrow> Some (Inl e)
                | None \<Rightarrow> map_option Inl (if m then accept_error lo k Meta_Socket else None)))"

lemma accept_one_stops: "fst (accept_one lo k socket s) = accept_error lo k socket"
  by (simp add: accept_one_def accept_error_def split: sum.splits)

lemma accept_ready_stops:
  "fst (accept_ready lo k [(a, x), (b, y)] s) =
     (case (if x then accept_error lo k a else None) of Some e \<Rightarrow> Some e | None \<Rightarrow> if y then accept_error lo k b else None)"
  using accept_one_stops [of lo k]
  by (auto simp: split: option.splits prod.splits) (metis fst_conv option.distinct(1) option.inject)+

lemma accept_ready_round: "sv_round (snd (accept_ready lo k rs s)) = sv_round s"
proof (induction lo k rs s rule: accept_ready.induct)
  case (2 lo k socket ready rest s)
  obtain g t where one: "accept_one lo k socket s = (g, t)" by fastforce
  then have "sv_round t = sv_round s" by (auto simp: accept_one_def enlist_def split: sum.splits if_splits)
  with 2 one show ?case by (auto split: option.splits)
qed simp

lemma serve_round_stops:
  "case serve_round lo s of
     Inl (r, s') \<Rightarrow> round_stops lo (sv_round s) = Some r
   | Inr s' \<Rightarrow> round_stops lo (sv_round s) = None \<and> sv_round s' = Suc (sv_round s)"
proof (cases "lo_poll lo (sv_round s)")
  case (Inl e)
  then show ?thesis by (simp add: serve_round_def round_stops_def Let_def)
next
  case (Inr p)
  obtain signal o' m where p: "p = (signal, o', m)" by (cases p)
  let ?s = "s\<lparr>sv_round := Suc (sv_round s)\<rparr>" and ?rs = "[(Ordinary_Socket, o'), (Meta_Socket, m)]"
  obtain f t where a: "accept_ready lo (sv_round s) ?rs ?s = (f, t)" by fastforce
  have f: "f = (case (if o' then accept_error lo (sv_round s) Ordinary_Socket else None) of Some e \<Rightarrow> Some e
      | None \<Rightarrow> if m then accept_error lo (sv_round s) Meta_Socket else None)"
    using a accept_ready_stops [of lo "sv_round s" Ordinary_Socket o' Meta_Socket m ?s] by simp
  moreover have "sv_round t = Suc (sv_round s)" using accept_ready_round [of lo "sv_round s" ?rs ?s] a by simp
  moreover have "sv_round (reap_server lo k t) = sv_round t" for k by (simp add: reap_server_def split: option.splits)
  ultimately show ?thesis using Inr p a
    by (auto simp: serve_round_def round_stops_def Let_def simp del: accept_ready.simps split: option.splits if_splits)
qed


lemma serve_rounds:
  "(\<And>m. m < n \<Longrightarrow> round_stops lo (sv_round s + m) = None) \<Longrightarrow>
     \<exists>t. rounds (serve_round lo) n s = Some t \<and> sv_round t = sv_round s + n"
proof (induction n arbitrary: s)
  case (Suc n)
  from Suc.prems [of 0] serve_round_stops [of lo s] obtain t where t: "serve_round lo s = Inr t" "sv_round t = Suc (sv_round s)"
    by (auto split: sum.splits)
  have "round_stops lo (sv_round t + m) = None" if "m < n" for m
    using Suc.prems [of "Suc m"] that t by simp
  from Suc.IH [OF this] t show ?case by auto
qed simp

lemma serve_loop_stops_iff:
  "(\<exists>s. serve_loop lo = Some (r, s)) \<longleftrightarrow> (\<exists>n. round_stops lo n = Some r \<and> (\<forall>m<n. round_stops lo m = None))"
proof -
  have at: "\<exists>s. serve_loop lo = Some (q, s)" if n: "round_stops lo n = Some q" "\<forall>m<n. round_stops lo m = None" for n q
  proof -
    from serve_rounds [of n lo new_server] n obtain t where t: "rounds (serve_round lo) n new_server = Some t" "sv_round t = n"
      by (auto simp: new_server_def)
    from serve_round_stops [of lo t] t n obtain u where "serve_round lo t = Inl (q, u)" by (auto split: sum.splits)
    from iterate_Some_rounds [OF t(1) this] show ?thesis by (auto simp: serve_loop_def)
  qed
  show ?thesis
  proof
    assume "\<exists>s. serve_loop lo = Some (r, s)"
    then obtain s where s: "serve_loop lo = Some (r, s)" by blast
    have "\<exists>n q. round_stops lo n = Some q"
    proof (rule ccontr)
      assume "\<not> ?thesis"
      then have "\<exists>t. rounds (serve_round lo) n new_server = Some t" for n
        using serve_rounds [of n lo new_server] by (metis not_None_eq)
      then have "iterate (serve_round lo) new_server = None" unfolding iterate_None_iff by auto
      with s show False by (simp add: serve_loop_def)
    qed
    then have ex: "\<exists>n. round_stops lo n \<noteq> None" by auto
    define n where "n = (LEAST n. round_stops lo n \<noteq> None)"
    have n: "round_stops lo n \<noteq> None" unfolding n_def by (rule LeastI_ex [OF ex])
    have before: "\<forall>m<n. round_stops lo m = None" unfolding n_def using not_less_Least by blast
    from n obtain q where q: "round_stops lo n = Some q" by auto
    from at [OF this before] s have "q = r" by auto
    with q before show "\<exists>n. round_stops lo n = Some r \<and> (\<forall>m<n. round_stops lo m = None)" by blast
  qed (use at in blast)
qed

section \<open>Workers end\<close>

definition finite_feed :: "env \<Rightarrow> sys_call list \<Rightarrow> bool" where
  "finite_feed env tr \<longleftrightarrow> (\<forall>s. \<exists>bs. feeds env s bs tr)"

lemma finite_feed_grows: "finite_feed env (calls w) \<Longrightarrow> grows w w' \<Longrightarrow> finite_feed env (calls w')"
  unfolding finite_feed_def grows_def prefix_def by (metis feeds_later)

lemma forward_ends:
  "finite_feed (host_env h) (calls w) \<Longrightarrow> \<exists>r w'. forward_subscription h stream sub t w = Some (r, w')"
  unfolding finite_feed_def using forward_subscription_ends by blast

lemma grows_tell [simp]: "grows w (snd (tell h stream r w))"
  using grow.stable_write_frame [of w "host_env h" "ser_response (host_client h)" stream r]
  by (auto simp: tell_def grows_def split: prod.splits)

lemma grows_accept_send [simp]: "grows w (snd (accept_send env cod dbg api g p rq th w))"
  by (auto simp: accept_send_def intro: grow.stable_bind split: sum.splits option.splits)

lemma grows_observe_sends [simp]: "grows w (snd (observe_sends env cod dbg api g p th c w))"
  by (auto simp: observe_sends_def intro: grow.stable_bind split: sum.splits option.splits)

lemma answer_send_ends:
  assumes "finite_feed (host_env h) (calls w)"
  shows "\<exists>r w'. answer_send h stream p rq th w = Some (r, w')"
proof -
  obtain x w1 where a: "accept_send (host_env h) (host_flow h) (host_debugs h) (host_engine h) (memory w) p rq th w = (x, w1)"
    by fastforce
  have g1: "grows w w1" using grows_accept_send [of w "host_env h" "host_flow h" "host_debugs h" "host_engine h" "memory w" p rq th] a
    by simp
  have "\<exists>r w'. forward_subscription h stream s t w2 = Some (r, w')" if "tell h stream q w1 = (y, w2)" for q y w2 s t
  proof (rule forward_ends, rule finite_feed_grows [OF finite_feed_grows [OF assms g1]])
    show "grows w1 w2" using grows_tell [of w1 h stream q] that by simp
  qed
  with a show ?thesis
    by (auto simp: answer_send_def split: sum.splits send_reply.splits prod.splits)
qed

lemma answer_observation_ends:
  assumes "finite_feed (host_env h) (calls w)"
  shows "\<exists>r w'. answer_observation h stream p th c w = Some (r, w')"
proof -
  obtain x w1 where a: "observe_sends (host_env h) (host_flow h) (host_debugs h) (host_engine h) (memory w) p th c w = (x, w1)"
    by fastforce
  have g1: "grows w w1" using grows_observe_sends [of w "host_env h" "host_flow h" "host_debugs h" "host_engine h" "memory w" p th c] a
    by simp
  from forward_ends [OF finite_feed_grows [OF assms g1]] a show ?thesis
    by (auto simp: answer_observation_def split: sum.splits)
qed

lemma answer_ordinary_ends:
  assumes "finite_feed (host_env h) (calls w)"
  shows "\<exists>r w'. answer_ordinary h stream w = Some (r, w')"
proof -
  obtain x w1 where a: "read_frame (host_env h) (de_query (host_client h)) stream w = (x, w1)" by fastforce
  have "grows w w1" using grow.stable_read_frame [of w "host_env h" "de_query (host_client h)" stream] a by simp
  then have f: "finite_feed (host_env h) (calls w1)" using finite_feed_grows [OF assms] by blast
  show ?thesis using a answer_send_ends [OF f] answer_observation_ends [OF f]
    by (auto simp: answer_ordinary_def split: sum.splits option.splits query.splits prod.splits)
qed


section \<open>Properties\<close>

text \<open>Values for witnesses: a system where everything works, one connection and then a signal.\<close>

definition sample_fs :: fs_host where
  "sample_fs = \<lparr>os_exists = (\<lambda>_ _. True), os_answers = (\<lambda>_ _. False), os_unit = (\<lambda>_ _. None)\<rparr>"

definition sample_loop :: loop_host where
  "sample_loop = \<lparr>lo_poll = (\<lambda>k. Inr (k > 0, True, False)), lo_accept = (\<lambda>_ _. Inr 3), lo_control = (\<lambda>_ _. Inr 4),
     lo_completion = (\<lambda>_ _. Inr 5), lo_finished = (\<lambda>_ _. False)\<rparr>"

lemma sample_serve:
  "serve_loop sample_loop = Some (Inr (), \<lparr>sv_round = 2, sv_spawned = [(Ordinary_Socket, 3, 5)], sv_workers = [],
     sv_joined = [0], sv_shut = [4]\<rparr>)"
proof -
  let ?s = "\<lparr>sv_round = 1, sv_spawned = [(Ordinary_Socket, 3, 5)], sv_workers = [(4, 0)], sv_joined = [], sv_shut = []\<rparr>"
  have "serve_round sample_loop new_server = Inr ?s"
    by (simp add: serve_round_def sample_loop_def new_server_def accept_one_def enlist_def reap_server_def reap.simps)
  moreover have "serve_round sample_loop ?s = Inl (Inr (), ?s\<lparr>sv_round := 2\<rparr>)"
    by (simp add: serve_round_def sample_loop_def)
  ultimately show ?thesis by (simp add: serve_loop_def iterate_again iterate_done finish_server_def)
qed

text \<open>C31. Binding takes a path over only from nobody: the calls are a prefix of one fixed sequence, a
  file is removed only at the path itself, when it was there and no server answered a probe
  just before, and a listener is handed on only after the path was closed to other users.\<close>

theorem bind_takes_only_stale:
  assumes "bind_socket os path w = (r, w @ cs)"
  shows "(Remove_File p \<in> set cs \<longrightarrow> p = path \<and> (\<exists>v. os_exists os v path \<and> \<not> os_answers os (v @ [Exists path]) path \<and>
      prefix (v @ [Exists path, Probe path, Remove_File path]) (w @ cs))) \<and>
    (r = Inr () \<longrightarrow> (\<exists>before. cs = before @ [Bind_Listener path, Set_Mode path (6 * 8 * 8)]))"
proof -
  obtain there remove where p: "prefix cs (bind_calls path there remove)"
    and there: "there = os_exists os (w @ bind_dirs path) path"
    and remove: "remove = (there \<and> \<not> os_answers os (w @ bind_dirs path @ [Exists path]) path)"
    and ok: "r = Inr () \<longrightarrow> cs = bind_calls path there remove"
    using bind_socket_calls [OF assms] by auto
  have all: "bind_calls path there remove = bind_dirs path @ Exists path # (if there then [Probe path] else []) @
      (if remove then [Remove_File path] else []) @ [Bind_Listener path, Set_Mode path 384]"
    by (simp add: bind_calls_def)
  have dirs: "Remove_File q \<notin> set (bind_dirs path)" for q by (simp add: bind_dirs_def split: option.splits)
  have "p = path \<and> (\<exists>v. os_exists os v path \<and> \<not> os_answers os (v @ [Exists path]) path \<and>
      prefix (v @ [Exists path, Probe path, Remove_File path]) (w @ cs))" if rm: "Remove_File p \<in> set cs"
  proof -
    obtain rest where rest: "bind_calls path there remove = cs @ rest" using p by (auto simp: prefix_def)
    then have "Remove_File p \<in> set (bind_calls path there remove)" using rm by simp
    then have "remove \<and> p = path" using dirs by (auto simp: all split: if_splits)
    then have r: "remove" "there" "p = path" using remove by simp_all
    have "prefix (bind_dirs path @ [Exists path, Probe path, Remove_File path]) cs"
    proof (rule ccontr)
      assume no: "\<not> ?thesis"
      have "prefix (bind_dirs path @ [Exists path, Probe path, Remove_File path]) (bind_calls path there remove)"
        unfolding all using r by simp
      with no p have "prefix cs (bind_dirs path @ [Exists path, Probe path])"
        using prefix_same_cases [of cs _ "bind_dirs path @ [Exists path, Probe path, Remove_File path]"]
          prefix_snoc [of cs "bind_dirs path @ [Exists path, Probe path]" "Remove_File path"] by auto
      from set_mono_prefix [OF this] rm have "Remove_File p \<in> set (bind_dirs path @ [Exists path, Probe path])" by blast
      with dirs show False by simp
    qed
    with r there remove show ?thesis by (intro conjI exI [of _ "w @ bind_dirs path"]) (auto simp: prefix_def)
  qed
  moreover have "\<exists>before. cs = before @ [Bind_Listener path, Set_Mode path (6 * 8 * 8)]" if "r = Inr ()"
    using ok that by (auto simp: bind_calls_def)
  ultimately show ?thesis by blast
qed

lemma bind_takes_only_stale_witness:
  "\<exists>cs. bind_socket sample_fs ''/r/m'' [] = (Inr (), cs) \<and> Remove_File ''/r/m'' \<in> set cs \<and>
     prefix [Create_Dirs ''/r'', Exists ''/r/m'', Probe ''/r/m'', Remove_File ''/r/m''] cs"
proof -
  let ?cs = "[Create_Dirs ''/r'', Exists ''/r/m'', Probe ''/r/m'', Remove_File ''/r/m'', Bind_Listener ''/r/m'', Set_Mode ''/r/m'' 384]"
  have "bind_socket sample_fs ''/r/m'' [] = (Inr (), [] @ ?cs)"
    by (simp add: bind_socket_def stale_def path_parent_def fs_unit_def fs_exists_def fs_answers_def sample_fs_def io_simps)
  from bind_takes_only_stale [OF this, of "''/r/m''"] this show ?thesis by simp
qed

text \<open>C20. The server abandons no connection: when it returns, with whatever result, it has joined the
  worker of every accepted connection exactly once and holds none.\<close>

theorem serve_joins_every_worker:
  assumes "serve os lo bound w = Some (r, w', s)"
  shows "sv_workers s = [] \<and> distinct (sv_joined s) \<and> set (sv_joined s) = {0..<length (sv_spawned s)}"
proof (cases "listen os bound w")
  case (Pair x v)
  show ?thesis
  proof (cases x)
    case (Inl e)
    with Pair assms show ?thesis by (auto simp: serve_def new_server_def)
  next
    case (Inr u)
    with Pair assms have "serve_loop lo = Some (r, s)" by (auto simp: serve_def)
    from serve_loop_ok [OF this] have ms: "mset (sv_joined s) = mset [0..<length (sv_spawned s)]" and "sv_workers s = []"
      by simp_all
    moreover from ms have "distinct (sv_joined s)" using mset_eq_imp_distinct_iff distinct_upt by blast
    moreover from ms have "set (sv_joined s) = {0..<length (sv_spawned s)}" using mset_eq_setD by fastforce
    ultimately show ?thesis by simp
  qed
qed

lemma sample_listen: "\<exists>w'. listen sample_fs other_configuration [] = (Inr (), w')"
  by (simp add: listen_def bind_socket_def stale_def fs_unit_def fs_exists_def fs_answers_def sample_fs_def io_simps
      split: option.splits)

lemma serve_joins_every_worker_witness:
  "\<exists>w' s. serve sample_fs sample_loop other_configuration [] = Some (Inr (), w', s) \<and> set (sv_joined s) = {0..<1}"
proof -
  obtain w' where "listen sample_fs other_configuration [] = (Inr (), w')" using sample_listen by blast
  then obtain s where s: "serve sample_fs sample_loop other_configuration [] = Some (Inr (), w', s)"
      "length (sv_spawned s) = 1"
    by (simp add: serve_def sample_serve)
  from serve_joins_every_worker [OF s(1)] s show ?thesis by auto
qed





end
