(* ===== verification/Clients.thy ===== *)
theory Clients imports Listener Defaults begin

text \<open>
  message/src/main.rs and message-meta/src/main.rs: the two command-line clients. Each sends one
  query and prints the replies; \<open>message\<close> reads on until a reply ends its conversation. The
  datom codec and the archives belong to other packages and are parameters. What a client
  prints is kept in its world.
\<close>

record 'r client_world = net +
  printed :: "'r list"

record ('q, 'r) client_wire =
  archive_query :: "'q \<Rightarrow> string + byte list"
  unarchive_reply :: "byte list \<Rightarrow> string + 'r"

section \<open>Where the Nexus is and what is asked\<close>

text \<open>\<open>env::var\<close>: a variable that is not UTF-8 counts as unset.\<close>

definition env_var :: "string option \<Rightarrow> string option" where
  "env_var v = (case v of Some s \<Rightarrow> if utf8_valid s then Some s else None | None \<Rightarrow> None)"

definition message_client_socket :: "string option \<Rightarrow> surroundings \<Rightarrow> string" where
  "message_client_socket MESSAGE_SOCKET e =
     (case env_var MESSAGE_SOCKET of
        Some s \<Rightarrow> s
      | None \<Rightarrow> utf8_lossy (ordinary_socket_path (from_environment e)))"

definition meta_client_socket :: "string option \<Rightarrow> surroundings \<Rightarrow> string" where
  "meta_client_socket MESSAGE_META_SOCKET e =
     (case env_var MESSAGE_META_SOCKET of
        Some s \<Rightarrow> s
      | None \<Rightarrow> utf8_lossy (meta_socket_path (from_environment e)))"

record budget =
  bud_remaining :: nat
  bud_reader :: nat
  bud_depth :: nat
  bud_maximum_depth :: nat

definition query_budget :: budget where
  "query_budget = \<lparr>bud_remaining = 65536, bud_reader = 65536, bud_depth = 0, bud_maximum_depth = 1024\<rparr>"

text \<open>\<open>actualize\<close> is the datom codec; its error is already rendered.\<close>

definition message_parse :: "(budget \<Rightarrow> string \<Rightarrow> string + 'q) \<Rightarrow> string list \<Rightarrow> string + 'q" where
  "message_parse actualize arguments =
     (case arguments of
        [datom] \<Rightarrow> map_err (\<lambda>e. ''invalid Message query: '' @ e) (actualize query_budget datom)
      | _ \<Rightarrow> Inl (''usage: message '' @ [CHR 0x27] @ ''<one inline Message query datom>'' @ [CHR 0x27]))"

definition meta_parse :: "(budget \<Rightarrow> string \<Rightarrow> string + 'q) \<Rightarrow> string list \<Rightarrow> string + 'q" where
  "meta_parse actualize arguments =
     (case arguments of
        [datom] \<Rightarrow> map_err (\<lambda>e. ''invalid Message meta query: '' @ e) (actualize query_budget datom)
      | _ \<Rightarrow> Inl (''usage: message-meta '' @ [CHR 0x27] @ ''<one inline Message meta query datom>'' @ [CHR 0x27]))"

section \<open>One conversation\<close>

text \<open>The length is cast with \<open>as u32\<close>, which wraps.\<close>

definition send_archive :: "env \<Rightarrow> ('q, 'r) client_wire \<Rightarrow> stream \<Rightarrow> 'q \<Rightarrow> ('z net_scheme, string, unit) io" where
  "send_archive env wire peer q =
     io_bind (io_of_sum (archive_query wire q)) (\<lambda>bytes.
     io_map_err err_text
       (io_bind (write_all env peer (to_be_bytes (of_nat (length bytes)))) (\<lambda>_. write_all env peer bytes)))"

definition read_reply :: "env \<Rightarrow> ('q, 'r) client_wire \<Rightarrow> stream \<Rightarrow> ('z net_scheme, string, 'r) io" where
  "read_reply env wire peer =
     io_bind (io_map_err err_text (read_exact env peer 4)) (\<lambda>prefix.
     let len = unat (from_be_bytes prefix) in
     if len > 1024 * 1024 then io_fail ''Signal frame exceeds 1 MiB''
     else io_bind (io_map_err err_text (read_exact env peer len)) (\<lambda>reply.
          io_of_sum (unarchive_reply wire reply)))"

definition print_reply :: "'r \<Rightarrow> ('r, 'z) client_world_scheme \<Rightarrow> ('r, 'z) client_world_scheme" where
  "print_reply r w = w\<lparr>printed := printed w @ [r]\<rparr>"

text \<open>The id of an accepted message, and whether a reply ends the conversation.\<close>

definition reply_accepts :: "string option \<Rightarrow> response \<Rightarrow> string option" where
  "reply_accepts accepted_id r = (case r of SendAccepted accepted \<Rightarrow> Some (acc_id accepted) | _ \<Rightarrow> accepted_id)"

definition reply_terminal :: "string option \<Rightarrow> response \<Rightarrow> bool" where
  "reply_terminal accepted_id r =
     (case r of
        SendAccepted _ \<Rightarrow> False
      | SendsObserved observation \<Rightarrow>
          (case accepted_id of
             None \<Rightarrow> False
           | Some i \<Rightarrow> list_ex (\<lambda>snapshot. snap_id snapshot = i \<and>
               (case snap_state snapshot of Delivered _ \<Rightarrow> True | Delivery_Failed _ \<Rightarrow> True | _ \<Rightarrow> False))
               (obs_snapshots observation))
      | SendChanged snapshot \<Rightarrow> accepted_id = Some (snap_id snapshot) \<and>
          (case snap_state snapshot of Delivered _ \<Rightarrow> True | Delivery_Failed _ \<Rightarrow> True | _ \<Rightarrow> False)
      | _ \<Rightarrow> True)"

definition message_round ::
  "env \<Rightarrow> (query, response) client_wire \<Rightarrow> stream \<Rightarrow> string option \<times> (response, 'z) client_world_scheme \<Rightarrow>
   ((string + unit) \<times> (response, 'z) client_world_scheme) + (string option \<times> (response, 'z) client_world_scheme)" where
  "message_round env wire peer = (\<lambda>(accepted_id, w).
     case read_reply env wire peer w of
       (Inl e, w1) \<Rightarrow> Inl (Inl e, w1)
     | (Inr reply, w1) \<Rightarrow>
         (let w2 = print_reply reply w1 in
          if reply_terminal accepted_id reply then Inl (Inr (), w2)
          else Inr (reply_accepts accepted_id reply, w2)))"

definition message_call ::
  "env \<Rightarrow> (query, response) client_wire \<Rightarrow> string \<Rightarrow> query \<Rightarrow> (response, 'z) client_world_scheme \<Rightarrow>
   ((string + unit) \<times> (response, 'z) client_world_scheme) option" where
  "message_call env wire socket q w =
     (case io_map_err err_text (sys_connect env socket) w of
        (Inl e, w1) \<Rightarrow> Some (Inl e, w1)
      | (Inr peer, w1) \<Rightarrow>
          (case send_archive env wire peer q w1 of
             (Inl e, w2) \<Rightarrow> Some (Inl e, w2)
           | (Inr _, w2) \<Rightarrow> iterate (message_round env wire peer) (None, w2)))"

definition meta_call ::
  "env \<Rightarrow> (meta_query, meta_response) client_wire \<Rightarrow> string \<Rightarrow> meta_query \<Rightarrow>
   ((meta_response, 'z) client_world_scheme, string, unit) io" where
  "meta_call env wire socket q =
     io_bind (io_map_err err_text (sys_connect env socket)) (\<lambda>peer.
     io_bind (send_archive env wire peer q) (\<lambda>_.
     io_bind (read_reply env wire peer) (\<lambda>reply w. (Inr (), print_reply reply w))))"

section \<open>The two programs\<close>

text \<open>
  What \<open>main\<close> leaves: the exit code and the lines of both outputs. A reply is printed as it is
  rendered (\<open>datomize\<close>, \<open>protosize\<close>, \<open>compact\<close>), in the order \<open>each\<close> is called with the replies; \<open>version\<close>
  is the version the program was built with.
\<close>

record program_end =
  exit_code :: nat
  stdout :: "string list"
  stderr :: "string list"

definition client_end :: "string \<Rightarrow> ('r \<Rightarrow> string) \<Rightarrow> ('r, 'z) client_world_scheme \<Rightarrow>
    (string + unit) \<times> ('r, 'z) client_world_scheme \<Rightarrow> program_end \<times> ('r, 'z) client_world_scheme" where
  "client_end name render w = (\<lambda>(outcome, w').
     (\<lparr>exit_code = (case outcome of Inr _ \<Rightarrow> 0 | Inl _ \<Rightarrow> 2),
       stdout = map render (drop (length (printed w)) (printed w')),
       stderr = (case outcome of Inr _ \<Rightarrow> [] | Inl error \<Rightarrow> [name @ '': '' @ error])\<rparr>, w'))"

definition message_main ::
  "env \<Rightarrow> (query, response) client_wire \<Rightarrow> (response \<Rightarrow> string) \<Rightarrow> string \<Rightarrow> (budget \<Rightarrow> string \<Rightarrow> string + query) \<Rightarrow>
   string option \<Rightarrow> surroundings \<Rightarrow> string list \<Rightarrow> (response, 'z) client_world_scheme \<Rightarrow>
   (program_end \<times> (response, 'z) client_world_scheme) option" where
  "message_main env wire render version actualize MESSAGE_SOCKET e arguments w =
     (if arguments = [''--version'']
      then Some (\<lparr>exit_code = 0, stdout = [version], stderr = []\<rparr>, w)
      else let socket = message_client_socket MESSAGE_SOCKET e
           in map_option (client_end ''message'' render w)
                (case message_parse actualize arguments of
                   Inl error \<Rightarrow> Some (Inl error, w)
                 | Inr q \<Rightarrow> message_call env wire socket q w))"

definition meta_main ::
  "env \<Rightarrow> (meta_query, meta_response) client_wire \<Rightarrow> (meta_response \<Rightarrow> string) \<Rightarrow> string \<Rightarrow>
   (budget \<Rightarrow> string \<Rightarrow> string + meta_query) \<Rightarrow> string option \<Rightarrow> surroundings \<Rightarrow> string list \<Rightarrow>
   (meta_response, 'z) client_world_scheme \<Rightarrow> program_end \<times> (meta_response, 'z) client_world_scheme" where
  "meta_main env wire render version actualize MESSAGE_META_SOCKET e arguments w =
     (if arguments = [''--version'']
      then (\<lparr>exit_code = 0, stdout = [version], stderr = []\<rparr>, w)
      else let socket = meta_client_socket MESSAGE_META_SOCKET e
           in client_end ''message-meta'' render w
                (case meta_parse actualize arguments of
                   Inl error \<Rightarrow> (Inl error, w)
                 | Inr q \<Rightarrow> meta_call env wire socket q w))"


section \<open>Talking to Flow leaves the transcript and the memory alone\<close>

definition keeps :: "'z flow_world_scheme \<Rightarrow> 'z flow_world_scheme \<Rightarrow> bool" where
  "keeps w w' \<longleftrightarrow> flow_world.more w' = flow_world.more w"

interpretation keep: stable_effects keeps
  by unfold_locales (simp_all add: keeps_def called_def)

lemma keeps_noted [simp]: "keeps u (noted c w) \<longleftrightarrow> keeps u w"
  by (simp add: keeps_def noted_def)

lemma keeps_exchange [simp]: "keeps w (snd (exchange env cod path q w))"
proof -
  have "keeps w (snd (raw_exchange env cod path q w))" by (auto simp: raw_exchange_def)
  then show ?thesis by (cases "raw_exchange env cod path q w") (simp add: exchange_def)
qed

lemma keeps_operations [simp]:
  "keeps w (snd (identify env cod path p w))" "keeps w (snd (identify_thread env cod path p t w))"
  "keeps w (snd (flow_lock env cod path a r w))" "keeps w (snd (deliver env cod path l q w))"
  "keeps w (snd (release env cod path l w))"
  by (auto simp: identify_def identify_thread_def flow_lock_def deliver_def release_def)

lemma keeps_observe_sender [simp]: "keeps w (snd (observe_sender env cod path p th cursor w))"
proof -
  have "keeps w (snd (raw_subscribe env cod path (Ask_ObserveSender p th cursor) w))" by (auto simp: raw_subscribe_def)
  then show ?thesis
    by (cases "raw_subscribe env cod path (Ask_ObserveSender p th cursor) w") (simp add: observe_sender_def)
qed

lemma keeps_accept_send [simp]: "keeps w (snd (accept_send env cod dbg api g p rq th w))"
proof -
  have settle: "keeps v (snd (settle_delivery env cod dbg path p th l reply v))" for path l reply v
    by (auto simp: settle_delivery_def split: flow_send_reply.split)
  have under: "keeps v (snd (deliver_under_lock env cod dbg path p rq th l v))" for path l v
    by (auto simp: deliver_under_lock_def Let_def settle split: sum.split edge_failure.split)
  have "keeps v (snd (send_identified env cod dbg path p rq th s v))" for path s v
    by (auto simp: send_identified_def Let_def under)
  then show ?thesis
    by (auto simp: accept_send_def Let_def split: sum.split option.split)
qed

lemma keeps_observe_sends [simp]: "keeps w (snd (observe_sends env cod dbg api g p th cursor w))"
  by (auto simp: observe_sends_def split: sum.split)

lemma keeps_worlds:
  fixes w w' :: "'g nexus_world"
  assumes "keeps w w'"
  shows "talk w' = talk w" and "memory w' = memory w"
  using assms by (cases w; cases w'; simp add: keeps_def)+

section \<open>The Nexus stops where the client stops\<close>

fun told_of :: "talk_event list \<Rightarrow> (response \<times> (frame_error + unit)) list" where
  "told_of [] = []"
| "told_of (Told r res # es) = (r, res) # told_of es"
| "told_of (_ # es) = told_of es"

text \<open>How many replies the client's loop takes in before it returns, if it does.\<close>

fun consumed :: "string option \<Rightarrow> response list \<Rightarrow> nat option" where
  "consumed a [] = None"
| "consumed a (r # rs) = (if reply_terminal a r then Some 1 else map_option Suc (consumed (reply_accepts a r) rs))"

definition conversation :: "string option \<Rightarrow> talk_event list \<Rightarrow> bool" where
  "conversation a es \<longleftrightarrow>
     (\<exists>rs. told_of es = map (\<lambda>r. (r, Inr ())) rs \<and> consumed a rs = Some (length rs))"

lemma told_of_append [simp]: "told_of (a @ b) = told_of a @ told_of b"
  by (induction a rule: told_of.induct) auto

lemma conversation_last: "reply_terminal a r \<Longrightarrow> conversation a [Told r (Inr ())]"
  by (auto simp: conversation_def intro!: exI [of _ "[r]"])

lemma conversation_step:
  assumes "\<not> reply_terminal a r" and "conversation (reply_accepts a r) es"
  shows "conversation a (Told r (Inr ()) # es)"
proof -
  from assms(2) obtain rs where "told_of es = map (\<lambda>r. (r, Inr ())) rs"
    and "consumed (reply_accepts a r) rs = Some (length rs)" by (auto simp: conversation_def)
  with assms(1) show ?thesis by (auto simp: conversation_def intro!: exI [of _ "r # rs"])
qed

lemma conversation_heard [simp]: "conversation a (Heard x # es) \<longleftrightarrow> conversation a es"
  by (simp add: conversation_def)

text \<open>The client's test for a terminal reply is the relay's.\<close>

lemma terminal_agrees: "reply_terminal t (relay_answer dbg c x) \<longleftrightarrow> relay_ends t x"
  by (auto simp: reply_terminal_def relay_answer_def relay_ends_def observation_finished_def change_finished_def
      is_terminal_def split: sum.splits flow_response.splits option.splits)

lemma relay_answer_not_accepted [simp]: "reply_accepts t (relay_answer dbg c x) = t"
  by (auto simp: reply_accepts_def relay_answer_def split: sum.splits flow_response.splits)

lemma relay_conversation:
  assumes "\<forall>y \<in> set xs. \<not> relay_ends t y" and "relay_ends t x"
  shows "conversation t (relay_talk dbg c (map (\<lambda>x. (x, Inr ())) xs @ [(x, Inr ())]))"
  using assms
  by (induction xs arbitrary: c) (simp_all add: conversation_last conversation_step terminal_agrees)

lemma tell_conversation:
  assumes "tell h stream r w = (Inr (), w')" and "reply_terminal a r"
  shows "\<exists>es. talk w' = talk (w :: 'z relay_world_scheme) @ es \<and> conversation a es"
  using tell_talk [of h stream r w] assms by (auto intro: conversation_last)

lemma forward_conversation:
  assumes "forward_subscription h stream sub t w = Some (Inr (), w')"
  shows "\<exists>es. talk w' = talk w @ es \<and> conversation t es"
  using forward_subscription_talk [OF assms] by (auto intro: relay_conversation)

lemma reply_terminal_simps [simp]:
  "reply_terminal a Configured" "reply_terminal a (Refused x)" "reply_terminal a (Sent rc)"
  "reply_terminal a (Failed f)" "reply_terminal a (ObservationInterrupted c t)" "\<not> reply_terminal a (SendAccepted acc)"
  "reply_accepts a (SendAccepted acc) = Some (acc_id acc)"
  by (simp_all add: reply_terminal_def reply_accepts_def)

lemma failure_for_send_terminal [simp]: "reply_terminal a (failure_for_send dbg f x y)"
  by (simp add: failure_for_send_def)

lemma accept_send_terminal:
  assumes "accept_send env cod dbg api g p rq th w = (res, w')"
  shows "case res of Inl r \<Rightarrow> reply_terminal a r
    | Inr (Reply_Queued acc (Inl r)) \<Rightarrow> reply_terminal a r | _ \<Rightarrow> True"
proof (cases "flow_edge api g")
  case (Inl e)
  with assms show ?thesis by (auto simp: accept_send_def io_simps Let_def)
next
  case (Inr path)
  from accept_send_protocol_run [OF Inr assms] obtain K where
    "send_protocol dbg (clock_ticks env w w') p rq th K res" by blast
  then show ?thesis
    by cases (auto simp: subscription_refusal_def map_err_def split: sum.splits)
qed

lemma answer_send_conversation:
  assumes "answer_send h stream p rq th w = Some (Inr (), w')"
  shows "\<exists>es. talk w' = talk w @ es \<and> conversation None es"
proof -
  obtain res w1 where a: "accept_send (host_env h) (host_flow h) (host_debugs h) (host_engine h) (memory w) p rq th w = (res, w1)"
    by fastforce
  have t1: "talk w1 = talk w"
    using keeps_worlds(1) [of w w1] a by (metis keeps_accept_send snd_conv)
  note ends = accept_send_terminal [OF a]
  consider (error) r where "res = Inl r" | (sent) rc where "res = Inr (Reply_Sent rc)"
    | (failed) f where "res = Inr (Reply_Failed f)"
    | (queued) acc sub where "res = Inr (Reply_Queued acc sub)"
    by (metis send_reply.exhaust sum.exhaust)
  then show ?thesis
  proof cases
    case error
    with a assms have "tell h stream r w1 = (Inr (), w')" by (simp add: answer_send_def)
    from tell_conversation [OF this, of None] ends error t1 show ?thesis by simp
  next
    case sent
    with a assms have "tell h stream (Sent rc) w1 = (Inr (), w')" by (simp add: answer_send_def)
    from tell_conversation [OF this, of None] t1 show ?thesis by simp
  next
    case failed
    with a assms have "tell h stream (Failed f) w1 = (Inr (), w')" by (simp add: answer_send_def)
    from tell_conversation [OF this, of None] t1 show ?thesis by simp
  next
    case queued
    obtain x w2 where t: "tell h stream (SendAccepted acc) w1 = (x, w2)" by fastforce
    with a assms queued have x: "x = Inr ()" by (cases x) (auto simp: answer_send_def)
    have t2: "talk w2 = talk w @ [Told (SendAccepted acc) (Inr ())]"
      using tell_talk [of h stream "SendAccepted acc" w1] t t1 x by simp
    have "\<exists>es. talk w' = talk w2 @ es \<and> conversation (Some (acc_id acc)) es"
    proof (cases sub)
      case (Inl r)
      with a assms queued t x have "tell h stream r w2 = (Inr (), w')" by (simp add: answer_send_def)
      from tell_conversation [OF this] accept_send_terminal [OF a, of "Some (acc_id acc)"] queued Inl
      show ?thesis by simp
    next
      case (Inr s)
      with a assms queued t x have "forward_subscription h stream s (Some (acc_id acc)) w2 = Some (Inr (), w')"
        by (simp add: answer_send_def)
      then show ?thesis by (rule forward_conversation)
    qed
    then obtain es where "talk w' = talk w2 @ es" and c: "conversation (Some (acc_id acc)) es" by blast
    moreover have "conversation None (Told (SendAccepted acc) (Inr ()) # es)"
      using c by (intro conversation_step) simp_all
    ultimately show ?thesis by (simp add: t2)
  qed
qed

lemma answer_observation_conversation:
  assumes "answer_observation h stream p th cursor w = Some (Inr (), w')"
  shows "\<exists>es. talk w' = talk w @ es \<and> conversation None es"
proof -
  obtain res w1 where o: "observe_sends (host_env h) (host_flow h) (host_debugs h) (host_engine h) (memory w) p th cursor w = (res, w1)"
    by fastforce
  have t1: "talk w1 = talk w"
    using keeps_worlds(1) [of w w1] o by (metis keeps_observe_sends snd_conv)
  show ?thesis
  proof (cases res)
    case (Inl r)
    with o assms have t: "tell h stream r w1 = (Inr (), w')" by (simp add: answer_observation_def)
    from o Inl have "reply_terminal None r"
      by (auto simp: observe_sends_def io_simps subscription_refusal_def
          split: sum.splits prod.splits edge_failure.splits)
    from tell_conversation [OF t this] t1 show ?thesis by simp
  next
    case (Inr s)
    with o assms have "forward_subscription h stream s None w1 = Some (Inr (), w')"
      by (simp add: answer_observation_def)
    from forward_conversation [OF this] t1 show ?thesis by simp
  qed
qed

lemma serve_query_terminal: "reply_terminal a (fst (serve_query api q g))"
  by (auto simp: serve_query_def split: query.splits prod.splits sum.splits configure_failure.splits)

lemma answer_ordinary_conversation:
  assumes "answer_ordinary h stream w = Some (Inr (), w')"
  shows "\<exists>es. talk w' = talk w @ es \<and> conversation None es"
proof -
  obtain x w1 where rd: "read_frame (host_env h) (de_query (host_client h)) stream w = (x, w1)" by fastforce
  then have t1: "talk w1 = talk w" using read_frame_worlds(1) [of "host_env h" "de_query (host_client h)" stream w] by simp
  from rd assms obtain q where q: "x = Inr q" by (cases x) (auto simp: answer_ordinary_def)
  from rd q assms obtain p where p: "peer_process (host_peercred h stream) (host_proc h) = Some p"
    by (cases "peer_process (host_peercred h stream) (host_proc h)") (auto simp: answer_ordinary_def)
  show ?thesis
  proof (cases q)
    case (Configure c)
    obtain r g where s: "serve_query (host_engine h) (Configure c) (memory w1) = (r, g)" by fastforce
    with rd q p Configure assms have t: "tell h stream r (w1\<lparr>memory := g\<rparr>) = (Inr (), w')"
      by (simp add: answer_ordinary_def)
    have "reply_terminal None r" using serve_query_terminal [of None "host_engine h" "Configure c" "memory w1"] s by simp
    from tell_conversation [OF t this] t1 show ?thesis by simp
  next
    case (Send rq)
    with rd q p assms have "answer_send h stream p rq None w1 = Some (Inr (), w')" by (simp add: answer_ordinary_def)
    from answer_send_conversation [OF this] t1 show ?thesis by simp
  next
    case (SendThread rq th)
    with rd q p assms have "answer_send h stream p rq (Some th) w1 = Some (Inr (), w')" by (simp add: answer_ordinary_def)
    from answer_send_conversation [OF this] t1 show ?thesis by simp
  next
    case (ObserveSends c)
    with rd q p assms have "answer_observation h stream p None c w1 = Some (Inr (), w')" by (simp add: answer_ordinary_def)
    from answer_observation_conversation [OF this] t1 show ?thesis by simp
  next
    case (ObserveThread c th)
    with rd q p assms have "answer_observation h stream p (Some th) c w1 = Some (Inr (), w')" by (simp add: answer_ordinary_def)
    from answer_observation_conversation [OF this] t1 show ?thesis by simp
  qed
qed

section \<open>The client's loop\<close>

text \<open>A frame as \<open>write_frame\<close> puts it on the wire.\<close>

definition frame_bytes :: "byte list \<Rightarrow> byte list" where
  "frame_bytes bytes = to_be_bytes (of_nat (length bytes)) @ bytes"

lemma read_reply_fed:
  assumes fed: "feeds env peer (frame_bytes bytes @ rest) (calls w)"
    and lim: "length bytes \<le> FRAME_LIMIT" and dec: "unarchive_reply wire bytes = Inr r"
  obtains w1 where "read_reply env wire peer w = (Inr r, w1)" and "feeds env peer rest (calls w1)"
    and "net.more w1 = net.more (w :: 'z net_scheme)"
proof -
  let ?n = "of_nat (length bytes) :: 32 word"
  let ?w1 = "called (Read_Exact peer 4) w"
  let ?w2 = "called (Read_Exact peer (length bytes)) ?w1"
  have len: "unat ?n = length bytes" using lim by (intro unat_u32) (simp add: FRAME_LIMIT_def)
  have r1: "read_exact env peer 4 w = (Inr (to_be_bytes ?n), ?w1)" and f1: "feeds env peer (bytes @ rest) (calls ?w1)"
    using read_exact_fed [of env peer "to_be_bytes ?n" "bytes @ rest" w] fed
    by (simp_all add: length_to_be_bytes frame_bytes_def)
  note r2 = read_exact_fed [OF f1]
  have "read_reply env wire peer w = (Inr r, ?w2)"
    using lim by (simp add: read_reply_def io_simps r1 r2(1) len from_to_be_bytes dec FRAME_LIMIT_def)
  moreover have "net.more ?w2 = net.more w" by simp
  ultimately show ?thesis using r2(2) that by blast
qed

lemma printed_more: "net.more v = net.more w \<Longrightarrow> printed v = printed (w :: ('r, 'z) client_world_scheme)"
  by (cases v; cases w) simp

lemma message_loop_prints:
  assumes "consumed a rs = Some (length rs)"
    and "list_all2 (\<lambda>bytes r. length bytes \<le> FRAME_LIMIT \<and> unarchive_reply wire bytes = Inr r) archives rs"
    and "feeds env peer (concat (map frame_bytes archives) @ rest) (calls w)"
  shows "\<exists>w'. iterate (message_round env wire peer) (a, w) = Some (Inr (), w') \<and> printed w' = printed w @ rs"
  using assms
proof (induction rs arbitrary: a w archives)
  case Nil
  then show ?case by simp
next
  case (Cons r rs)
  from Cons.prems(2) obtain b bs where arch: "archives = b # bs" and b: "length b \<le> FRAME_LIMIT" "unarchive_reply wire b = Inr r"
    and bs: "list_all2 (\<lambda>bytes r. length bytes \<le> FRAME_LIMIT \<and> unarchive_reply wire bytes = Inr r) bs rs"
    by (cases archives) auto
  from Cons.prems(3) arch have "feeds env peer (frame_bytes b @ concat (map frame_bytes bs) @ rest) (calls w)" by simp
  from read_reply_fed [OF this b] obtain w1 where rd: "read_reply env wire peer w = (Inr r, w1)"
    and f1: "feeds env peer (concat (map frame_bytes bs) @ rest) (calls w1)" and p1: "printed w1 = printed w"
    using printed_more by blast
  let ?w2 = "print_reply r w1"
  show ?case
  proof (cases "reply_terminal a r")
    case True
    with Cons.prems(1) have "rs = []" by simp
    with True rd p1 show ?thesis
      by (simp add: message_round_def iterate_done print_reply_def)
  next
    case False
    with Cons.prems(1) have c: "consumed (reply_accepts a r) rs = Some (length rs)" by auto
    have round: "message_round env wire peer (a, w) = Inr (reply_accepts a r, ?w2)"
      using False rd by (simp add: message_round_def)
    have "feeds env peer (concat (map frame_bytes bs) @ rest) (calls ?w2)" using f1 by (simp add: print_reply_def)
    from Cons.IH [OF c bs this] obtain w' where
      "iterate (message_round env wire peer) (reply_accepts a r, ?w2) = Some (Inr (), w')" "printed w' = printed ?w2 @ rs"
      by blast
    then show ?thesis
      unfolding iterate_again [of "message_round env wire peer", OF round] using p1 by (simp add: print_reply_def)
  qed
qed


section \<open>Examples\<close>

definition sample_message_wire :: "(query, response) client_wire" where
  "sample_message_wire = \<lparr>archive_query = (\<lambda>_. Inr [9]),
     unarchive_reply = (\<lambda>bs. if bs = [0] then Inr (SendAccepted sample_acceptance)
        else Inr (SendChanged (sample_snapshot 6 (Delivered (rcpt_native sample_receipt)))))\<rparr>"

definition sample_configure_host :: "(string \<Rightarrow> standard option) host" where
  "sample_configure_host = \<lparr>host_env = quiet_env (replicate 4 0), host_flow = scripted_codec [],
     host_client = \<lparr>de_query = (\<lambda>_. Inr (Configure (std_configuration sample_standard))), ser_response = (\<lambda>_. Inr []),
       de_meta_query = (\<lambda>_. Inl ''none''), ser_meta_response = (\<lambda>_. Inr [])\<rparr>,
     host_debugs = sample_debugs, host_engine = mem_engine, host_peercred = (\<lambda>_. Inr 42), host_proc = sample_stat\<rparr>"

lemma sample_peer: "peer_process (Inr 42) sample_stat = Some \<lparr>proc_pid = 42, proc_started = 777\<rparr>"
  by (simp add: peer_process_def sample_for_pid)

lemma sample_configure:
  "\<exists>w'. answer_ordinary sample_configure_host 1 idle = Some (Inr (), w')"
proof -
  let ?h = sample_configure_host and ?q = "Configure (std_configuration sample_standard)"
  have e: "host_env ?h = quiet_env (replicate 4 0)" "de_query (host_client ?h) = (\<lambda>_. Inr ?q)"
    "ser_response (host_client ?h) = (\<lambda>_. Inr [])"
    by (simp_all add: sample_configure_host_def)
  have p: "peer_process (host_peercred ?h 1) (host_proc ?h) = Some \<lparr>proc_pid = 42, proc_started = 777\<rparr>"
    by (simp add: sample_configure_host_def sample_peer)
  have z: "from_be_bytes (replicate 4 0) = 0" by (simp add: from_be_bytes_def numeral_eq_Suc)
  obtain w1 where rd: "read_frame (host_env ?h) (de_query (host_client ?h)) 1 idle = (Inr ?q, w1)"
    by (simp add: e read_frame_def io_simps read_exact_def quiet_env_def z Let_def FRAME_LIMIT_def)
  obtain r g where s: "serve_query (host_engine ?h) ?q (memory w1) = (r, g)" by fastforce
  obtain v where "tell ?h 1 r (w1\<lparr>memory := g\<rparr>) = (Inr (), v)"
    by (simp add: tell_def e quiet_write)
  with rd p s show ?thesis by (simp add: answer_ordinary_def)
qed

section \<open>Properties\<close>

text \<open>C3. The Nexus and the client agree on where a conversation ends: when the Nexus has
  answered a query and every write went through, the replies it told are exactly those the
  client's loop takes in before it returns. The client neither leaves a reply unread nor waits
  for one that does not come, for every query, on the success and on the error paths.\<close>

theorem client_stops_with_nexus:
  assumes "answer_ordinary h stream w = Some (Inr (), w')"
  shows "\<exists>es rs. talk w' = talk w @ es \<and> told_of es = map (\<lambda>r. (r, Inr ())) rs \<and>
    consumed None rs = Some (length rs)"
  using answer_ordinary_conversation [OF assms] by (auto simp: conversation_def)

lemma client_stops_with_nexus_witness:
  "\<exists>w' rs. answer_ordinary sample_configure_host 1 idle = Some (Inr (), w') \<and>
     told_of (talk w') = map (\<lambda>r. (r, Inr ())) rs \<and> consumed None rs = Some (length rs)"
proof -
  obtain w' where run: "answer_ordinary sample_configure_host 1 idle = Some (Inr (), w')"
    using sample_configure by blast
  from client_stops_with_nexus [OF run] run show ?thesis by auto
qed

text \<open>The client prints its whole conversation: when the bytes on its connection are the frames
  of replies of which the last ends it, each within the size limit, the client returns with
  success and has printed exactly these replies in order.\<close>

lemma message_prints_conversation:
  assumes "env_connect env (calls w) socket = Inr peer" and "\<And>tr c. env_unit env tr c = None"
    and "archive_query wire q = Inr bytes"
    and "feeds env peer (concat (map frame_bytes archives) @ rest) (calls w)"
    and "list_all2 (\<lambda>bytes r. length bytes \<le> FRAME_LIMIT \<and> unarchive_reply wire bytes = Inr r) archives rs"
    and "consumed None rs = Some (length rs)"
  shows "\<exists>w'. message_call env wire socket q w = Some (Inr (), w') \<and> printed w' = printed w @ rs"
proof -
  let ?p = "to_be_bytes (of_nat (length bytes))"
  let ?w2 = "called (Write_All peer bytes) (called (Write_All peer ?p) (called (Connect socket) w))"
  have "send_archive env wire peer q (called (Connect socket) w) = (Inr (), ?w2)"
    using assms(2,3) by (simp add: send_archive_def io_simps write_all_def sys_unit_def)
  then have "message_call env wire socket q w = iterate (message_round env wire peer) (None, ?w2)"
    using assms(1) by (simp add: message_call_def io_map_err_def sys_connect_def)
  moreover have "feeds env peer (concat (map frame_bytes archives) @ rest) (calls ?w2)"
    using feeds_later [OF assms(4), of "[Connect socket, Write_All peer ?p, Write_All peer bytes]"] by simp
  moreover have "printed ?w2 = printed w" by (simp add: called_def)
  ultimately show ?thesis using message_loop_prints [OF assms(6,5), of env peer rest ?w2 ] by simp
qed

lemma message_prints_conversation_witness:
  "\<exists>w'. message_call (quiet_env two_frames) sample_message_wire ''/r/m'' (ObserveSends None)
       \<lparr>calls = [], printed = []\<rparr> = Some (Inr (), w') \<and>
     printed w' = [SendAccepted sample_acceptance,
       SendChanged (sample_snapshot 6 (Delivered (rcpt_native sample_receipt)))]"
proof -
  let ?w = "\<lparr>calls = [], printed = []\<rparr> :: response client_world"
  let ?rs = "[SendAccepted sample_acceptance, SendChanged (sample_snapshot 6 (Delivered (rcpt_native sample_receipt)))]"
  have "env_connect (quiet_env two_frames) (calls ?w) ''/r/m'' = Inr 0"
    "\<And>tr c. env_unit (quiet_env two_frames) tr c = None" "archive_query sample_message_wire (ObserveSends None) = Inr [9]"
    by (simp_all add: quiet_env_def sample_message_wire_def)
  moreover have "feeds (quiet_env two_frames) 0 (concat (map frame_bytes [[0], [1]]) @ []) (calls ?w)"
    using quiet_env_feeds [of two_frames 0 "[]"] by (simp add: frame_bytes_def to_be_bytes_def)
  moreover have "list_all2 (\<lambda>bytes r. length bytes \<le> FRAME_LIMIT \<and> unarchive_reply sample_message_wire bytes = Inr r) [[0], [1]] ?rs"
    by (simp add: sample_message_wire_def FRAME_LIMIT_def)
  moreover have "consumed None ?rs = Some (length ?rs)"
    by (simp add: reply_terminal_def reply_accepts_def sample_snapshot_def)
  ultimately show ?thesis
    using message_prints_conversation [of "quiet_env two_frames" ?w "''/r/m''" 0 sample_message_wire "ObserveSends None"
        "[9]" "[[0], [1]]" "[]" ?rs] by simp
qed

text \<open>The clients' length prefix is the archive's length modulo 2^32, and the archive follows
  whole: below four GiB it is the frame \<open>write_frame\<close> writes, and beyond, where \<open>write_frame\<close>
  refuses, a wrong one.\<close>

lemma client_length_prefix_wraps:
  assumes "send_archive env wire peer q w = (Inr (), w')" and "archive_query wire q = Inr bytes"
  shows "\<exists>prefix. calls w' = calls w @ [Write_All peer prefix, Write_All peer bytes] \<and> length prefix = 4 \<and>
    unat (from_be_bytes prefix) = length bytes mod 2 ^ 32 \<and>
    (prefix @ bytes = frame_bytes bytes) \<and>
    (length bytes < 2 ^ 32 \<longleftrightarrow> (\<exists>n. u32_try_from (length bytes) = Some n))"
  using assms
  by (auto simp: send_archive_def io_simps write_all_def sys_unit_def length_to_be_bytes from_to_be_bytes
      unat_of_nat frame_bytes_def u32_try_from_def split: option.splits)

lemma client_length_prefix_wraps_witness:
  "\<exists>w'. send_archive (quiet_env []) sample_message_wire 1 (ObserveSends None) \<lparr>calls = []\<rparr> = (Inr (), w') \<and>
     written 1 (calls w') = [0, 0, 0, 1, 9]"
proof -
  let ?w' = "called (Write_All 1 [9]) (called (Write_All 1 [0, 0, 0, 1]) \<lparr>calls = []\<rparr>)"
  have run: "send_archive (quiet_env []) sample_message_wire 1 (ObserveSends None) \<lparr>calls = []\<rparr> = (Inr (), ?w')"
    by (simp add: send_archive_def io_simps write_all_def sys_unit_def sample_message_wire_def quiet_env_def to_be_bytes_def)
  from client_length_prefix_wraps [OF run, of "[9]"] run show ?thesis by (simp add: sample_message_wire_def)
qed

end
