(* ===== verification/Mcp_Call.thy ===== *)
theory Mcp_Call imports Clients begin

text \<open>
  message-mcp-send/src/main.rs, one tool call: \<open>Sender::connect\<close> and \<open>send\<close>, \<open>read_response\<close>,
  \<open>terminal_for\<close> and \<open>CallRequest::run\<close>, the body of the thread that serves the call. The JSON
  values of serde_json are a type parameter: a call only carries its id and its progress token.
  The two atomic flags a call shares with the session and with other calls are oracles, asked
  at every load; they are only ever set in one direction, so what a load has seen stays.
\<close>

section \<open>What a call works with\<close>

text \<open>A line of output: an error, a result of a tool call, or a progress notification.\<close>

datatype 'v rpc =
    Rpc_Error 'v int string
  | Rpc_Result 'v string bool
  | Rpc_Progress 'v nat string
  | Rpc_Initialize 'v
  | Rpc_Empty 'v
  | Rpc_Tools 'v

record 'v call_request =
  call_id :: 'v
  call_key :: string
  call_token :: 'v
  call_query :: query

definition MAX_LINE :: nat where
  "MAX_LINE = 1024 * 1024"

text \<open>
  \<open>mcp_cancel\<close> and \<open>mcp_alive\<close> answer the loads of \<open>cancelled\<close> and \<open>connection_alive\<close> from the
  calls made so far and the number of loads before; \<open>mcp_writable\<close> says whether the output
  takes a line; \<open>mcp_text\<close> is the rendering of a response as a compact datom.
\<close>

record 'v mcp_host =
  mcp_env :: env
  mcp_wire :: "(query, response) client_wire"
  mcp_socket :: string
  mcp_text :: "response \<Rightarrow> string"
  mcp_cancel :: "sys_call list \<Rightarrow> nat \<Rightarrow> bool"
  mcp_alive :: "sys_call list \<Rightarrow> nat \<Rightarrow> bool"
  mcp_writable :: "sys_call list \<Rightarrow> 'v rpc \<Rightarrow> bool"

text \<open>
  Beside the flags as this call has seen or set them, its world has the lines it wrote, each
  with whether the output took it, the responses it read, the observer it registered in the
  table of active calls and how often it removed its entry from that table.
\<close>

record 'v call_world = net +
  flag_cancelled :: bool
  flag_dead :: bool
  loads :: nat
  shown :: "('v rpc \<times> bool) list"
  replies :: "response list"
  observer :: "stream option"
  removals :: nat

type_synonym 'v call_state = "'v call_world"

definition load_cancelled :: "'v mcp_host \<Rightarrow> 'v call_state \<Rightarrow> bool \<times> 'v call_state" where
  "load_cancelled h w =
     (let c = flag_cancelled w \<or> mcp_cancel h (calls w) (loads w)
      in (c, w\<lparr>flag_cancelled := c, loads := Suc (loads w)\<rparr>))"

definition load_alive :: "'v mcp_host \<Rightarrow> 'v call_state \<Rightarrow> bool \<times> 'v call_state" where
  "load_alive h w =
     (let a = \<not> flag_dead w \<and> mcp_alive h (calls w) (loads w)
      in (a, w\<lparr>flag_dead := \<not> a, loads := Suc (loads w)\<rparr>))"

text \<open>\<open>write_json\<close>: one line, flushed, and whether that succeeded.\<close>

definition write_json :: "'v mcp_host \<Rightarrow> 'v rpc \<Rightarrow> 'v call_state \<Rightarrow> bool \<times> 'v call_state" where
  "write_json h r w =
     (let ok = mcp_writable h (calls w) r in (ok, w\<lparr>shown := shown w @ [(r, ok)]\<rparr>))"

definition forget_call :: "'v call_state \<Rightarrow> 'v call_state" where
  "forget_call w = w\<lparr>removals := Suc (removals w)\<rparr>"

section \<open>Reaching Message\<close>

definition mcp_connect :: "'v mcp_host \<Rightarrow> ('v call_state, string, stream) io" where
  "mcp_connect h =
     io_bind (io_map_err err_text (sys_connect (mcp_env h) (mcp_socket h))) (\<lambda>peer.
     io_bind (io_map_err err_text (sys_unit (mcp_env h) (Set_Write_Timeout peer (Some 10)))) (\<lambda>_.
     io_ret peer))"

definition mcp_send :: "'v mcp_host \<Rightarrow> stream \<Rightarrow> query \<Rightarrow> ('v call_state, string, unit) io" where
  "mcp_send h peer q =
     io_bind (io_of_sum (archive_query (mcp_wire h) q)) (\<lambda>bytes.
     io_bind (case u32_try_from (length bytes) of
                None \<Rightarrow> io_fail ''oversized Message frame'' | Some n \<Rightarrow> io_ret n) (\<lambda>len.
     io_map_err (\<lambda>e. ''Uncertain: Send outcome may be unknown; do not retry: '' @ err_text e)
       (io_bind (write_all (mcp_env h) peer (to_be_bytes len)) (\<lambda>_. write_all (mcp_env h) peer bytes))))"

definition read_response :: "'v mcp_host \<Rightarrow> stream \<Rightarrow> ('v call_state, string, response) io" where
  "read_response h peer =
     io_bind (io_map_err (\<lambda>e. ''Message stream ended: '' @ err_text e) (read_exact (mcp_env h) peer 4)) (\<lambda>prefix.
     let len = unat (from_be_bytes prefix) in
     if len > MAX_LINE then io_fail ''oversized Message response''
     else io_bind (io_map_err (\<lambda>e. ''incomplete Message response: '' @ err_text e)
                    (read_exact (mcp_env h) peer len)) (\<lambda>bytes.
          io_map_err (\<lambda>e. ''invalid Message response: '' @ e) (io_of_sum (unarchive_reply (mcp_wire h) bytes))))"

definition snapshot_ended :: "delivery_snapshot \<Rightarrow> bool" where
  "snapshot_ended s = (case snap_state s of Delivered _ \<Rightarrow> True | Delivery_Failed _ \<Rightarrow> True | _ \<Rightarrow> False)"

definition terminal_for :: "response \<Rightarrow> string option \<Rightarrow> bool" where
  "terminal_for r accepted_id =
     (case r of
        Sent _ \<Rightarrow> True
      | Failed _ \<Rightarrow> True
      | SendAccepted _ \<Rightarrow> False
      | SendsObserved observation \<Rightarrow>
          (case accepted_id of
             None \<Rightarrow> False
           | Some i \<Rightarrow> list_ex (\<lambda>s. snap_id s = i \<and> snapshot_ended s) (obs_snapshots observation))
      | SendChanged s \<Rightarrow> accepted_id = Some (snap_id s) \<and> snapshot_ended s
      | ObservationInterrupted _ _ \<Rightarrow> True
      | Refused _ \<Rightarrow> True
      | Configured \<Rightarrow> True)"

section \<open>The replies of one call\<close>

definition next_accepted :: "response \<Rightarrow> string option \<Rightarrow> string option" where
  "next_accepted r accepted_id = (case r of SendAccepted a \<Rightarrow> Some (acc_id a) | _ \<Rightarrow> accepted_id)"

definition next_cursor :: "response \<Rightarrow> int option \<Rightarrow> int option" where
  "next_cursor r cursor =
     (case r of
        SendAccepted a \<Rightarrow> Some (acc_cursor a)
      | SendsObserved observation \<Rightarrow> Some (obs_cursor observation)
      | SendChanged s \<Rightarrow> Some (snap_cursor s)
      | _ \<Rightarrow> cursor)"

definition snapshot_failed :: "delivery_snapshot \<Rightarrow> bool" where
  "snapshot_failed s = (case snap_state s of Delivery_Failed _ \<Rightarrow> True | _ \<Rightarrow> False)"

definition reply_failed :: "response \<Rightarrow> string option \<Rightarrow> bool" where
  "reply_failed r accepted_id =
     (case r of
        Failed _ \<Rightarrow> True
      | Refused _ \<Rightarrow> True
      | ObservationInterrupted _ _ \<Rightarrow> True
      | SendChanged s \<Rightarrow> snapshot_failed s
      | SendsObserved observation \<Rightarrow>
          list_ex (\<lambda>s. accepted_id = Some (snap_id s) \<and> snapshot_failed s) (obs_snapshots observation)
      | _ \<Rightarrow> False)"

definition final_reply :: "'v mcp_host \<Rightarrow> 'v call_request \<Rightarrow> response \<Rightarrow> string option \<Rightarrow> int option \<Rightarrow> 'v rpc" where
  "final_reply h call r accepted_id cursor =
     (case r of
        ObservationInterrupted _ _ \<Rightarrow>
          Rpc_Error (call_id call) (- 32001)
            (''Observation interrupted at durable cursor '' @
             (case cursor of None \<Rightarrow> ''none'' | Some c \<Rightarrow> decimal_int c) @
             ''; delivery state is not Failed. Resume with observe_sends from this cursor.'')
      | _ \<Rightarrow> Rpc_Result (call_id call) (mcp_text h r) (reply_failed r accepted_id))"

definition stream_ended :: "'v call_request \<Rightarrow> string option \<Rightarrow> string \<Rightarrow> 'v rpc" where
  "stream_ended call accepted_id error =
     Rpc_Error (call_id call) (- 32001)
       ((if accepted_id \<noteq> None
         then ''Observation interrupted; resume from the last progress cursor. Durable delivery was not canceled: ''
         else ''Send admission outcome is unknown; do not retry blindly. Observe sender deliveries before another Send: '')
        @ error)"

type_synonym 'v round_state = "string option \<times> int option \<times> nat \<times> 'v call_state"

text \<open>One round of the loop; it ends with the final response, if it has one, and the cursor.\<close>

definition call_round ::
  "'v mcp_host \<Rightarrow> 'v call_request \<Rightarrow> stream \<Rightarrow> 'v round_state \<Rightarrow>
   ('v rpc option \<times> int option \<times> 'v call_state) + 'v round_state" where
  "call_round h call peer = (\<lambda>(accepted_id, cursor, progress, w).
     case load_cancelled h w of
       (True, w1) \<Rightarrow> Inl (None, cursor, w1)
     | (False, w1) \<Rightarrow>
         (case read_response h peer w1 of
            (Inl error, w2) \<Rightarrow>
              (case load_cancelled h w2 of
                 (c, w3) \<Rightarrow> Inl (if c then None else Some (stream_ended call accepted_id error), cursor, w3))
          | (Inr r, w2) \<Rightarrow>
              (let accepted' = next_accepted r accepted_id;
                   cursor' = next_cursor r cursor;
                   progress' = Suc progress
               in case write_json h (Rpc_Progress (call_token call) progress' (mcp_text h r))
                         (w2\<lparr>replies := replies w2 @ [r]\<rparr>) of
                    (False, w3) \<Rightarrow>
                      Inl (None, cursor', snd (sys_unit (mcp_env h) (Shutdown peer Shut_Both)
                        (w3\<lparr>flag_cancelled := True, flag_dead := True\<rparr>)))
                  | (True, w3) \<Rightarrow>
                      if terminal_for r accepted' then Inl (Some (final_reply h call r accepted' cursor'), cursor', w3)
                      else Inr (accepted', cursor', progress', w3))))"

definition cancelled_reply :: "'v call_request \<Rightarrow> int option \<Rightarrow> 'v rpc" where
  "cancelled_reply call cursor =
     Rpc_Error (call_id call) (- 32800)
       (case cursor of
          Some c \<Rightarrow> ''Observation cancelled at durable cursor '' @ decimal_int c @
            ''; delivery was not cancelled. Resume from this cursor.''
        | None \<Rightarrow> ''Send admission was cancelled before acceptance and its outcome is unknown; do not resend blindly. Observe sender deliveries before another Send.'')"

definition conclude :: "'v mcp_host \<Rightarrow> 'v call_request \<Rightarrow> 'v rpc option \<Rightarrow> int option \<Rightarrow> 'v call_state \<Rightarrow> 'v call_state" where
  "conclude h call final cursor w =
     (let w1 = forget_call w;
          (final', w2) =
            (case final of
               Some r \<Rightarrow> (Some r, w1)
             | None \<Rightarrow>
                 (case load_cancelled h w1 of
                    (False, w2) \<Rightarrow> (None, w2)
                  | (True, w2) \<Rightarrow>
                      (case load_alive h w2 of
                         (False, w3) \<Rightarrow> (None, w3)
                       | (True, w3) \<Rightarrow> (Some (cancelled_reply call cursor), w3))))
      in case final' of None \<Rightarrow> w2 | Some r \<Rightarrow> snd (write_json h r w2))"

definition converse :: "'v mcp_host \<Rightarrow> 'v call_request \<Rightarrow> stream \<Rightarrow> 'v call_state \<Rightarrow> 'v call_state option" where
  "converse h call peer w =
     (case iterate (call_round h call peer) (None, None, 0, w) of
        None \<Rightarrow> None
      | Some (final, cursor, w1) \<Rightarrow> Some (conclude h call final cursor w1))"

section \<open>The call\<close>

text \<open>The two ways out before the conversation: each flag is loaded anew where the code loads it.\<close>

definition report_failure :: "'v mcp_host \<Rightarrow> 'v call_request \<Rightarrow> string \<Rightarrow> 'v call_state \<Rightarrow> 'v call_state" where
  "report_failure h call error w =
     (case load_alive h w of
        (False, w1) \<Rightarrow> w1
      | (True, w1) \<Rightarrow>
          (case load_cancelled h w1 of
             (c1, w2) \<Rightarrow>
               (case load_cancelled h w2 of
                  (c2, w3) \<Rightarrow>
                    snd (write_json h (Rpc_Error (call_id call) (if c2 then - 32800 else - 32001)
                      (if c1 then ''Send admission outcome is unknown; do not resend. Resume with observe_sends from this sender''
                          @ [CHR 0x27] @ ''s durable history.'' else error)) w3))))"

definition report_if_alive :: "'v mcp_host \<Rightarrow> 'v rpc \<Rightarrow> 'v call_state \<Rightarrow> 'v call_state" where
  "report_if_alive h r w =
     (case load_alive h w of (False, w1) \<Rightarrow> w1 | (True, w1) \<Rightarrow> snd (write_json h r w1))"

definition cancelled_before :: "'v call_request \<Rightarrow> 'v rpc" where
  "cancelled_before call = Rpc_Error (call_id call) (- 32800)
     (''Send admission outcome is unknown; do not resend. Resume with observe_sends using this sender''
        @ [CHR 0x27] @ ''s durable delivery cursor.'')"

definition unregistered :: "'v call_request \<Rightarrow> io_error \<Rightarrow> 'v rpc" where
  "unregistered call error = Rpc_Error (call_id call) (- 32001)
     (''Send outcome unknown; observer could not be registered: '' @ err_text error)"

definition run_call :: "'v mcp_host \<Rightarrow> 'v call_request \<Rightarrow> 'v call_state \<Rightarrow> 'v call_state option" where
  "run_call h call w =
     (case load_cancelled h w of
        (True, w1) \<Rightarrow> Some (forget_call (report_if_alive h (cancelled_before call) w1))
      | (False, w1) \<Rightarrow>
          (case mcp_connect h w1 of
             (Inl error, w2) \<Rightarrow> Some (forget_call (report_failure h call error w2))
           | (Inr peer, w2) \<Rightarrow>
               (case sys_clone (mcp_env h) peer w2 of
                  (Inl error, w3) \<Rightarrow> Some (forget_call (report_if_alive h (unregistered call error) w3))
                | (Inr obs, w3) \<Rightarrow>
                    (case load_cancelled h (w3\<lparr>observer := Some obs\<rparr>) of
                       (True, w4) \<Rightarrow> converse h call peer (snd (sys_unit (mcp_env h) (Shutdown peer Shut_Both) w4))
                     | (False, w4) \<Rightarrow>
                         (case mcp_send h peer (call_query call) w4 of
                            (Inl error, w5) \<Rightarrow> Some (forget_call (report_failure h call error w5))
                          | (Inr _, w5) \<Rightarrow> converse h call peer w5)))))"

section \<open>What a conversation writes\<close>

text \<open>Reaching and reading the peer touches the record of calls only.\<close>

definition only_calls :: "'v call_state \<Rightarrow> 'v call_state \<Rightarrow> bool" where
  "only_calls w v \<longleftrightarrow> net.more v = net.more w"

interpretation only: stable_effects only_calls
  by unfold_locales (simp_all add: only_calls_def called_def)

lemma only_calls_state:
  assumes "only_calls w v"
  shows "flag_cancelled v = flag_cancelled w" and "flag_dead v = flag_dead w" and "shown v = shown w"
    and "replies v = replies w" and "removals v = removals w"
  using assms by (cases w; cases v; simp add: only_calls_def)+

lemma only_calls_mcp [simp]:
  "only_calls w (snd (mcp_connect h w))" "only_calls w (snd (mcp_send h peer q w))"
  "only_calls w (snd (read_response h peer w))"
  by (auto simp: mcp_connect_def mcp_send_def read_response_def Let_def split: option.split)

text \<open>The client's test for the last reply is the command-line client's.\<close>

lemma terminal_for_reply: "terminal_for r a = reply_terminal a r"
  by (simp add: terminal_for_def reply_terminal_def snapshot_ended_def split: response.split option.split)

lemma next_accepted_reply: "next_accepted r a = reply_accepts a r"
  by (simp add: next_accepted_def reply_accepts_def)

fun progress_lines :: "'v mcp_host \<Rightarrow> 'v call_request \<Rightarrow> nat \<Rightarrow> response list \<Rightarrow> 'v rpc list" where
  "progress_lines h call n [] = []"
| "progress_lines h call n (r # rs) =
     Rpc_Progress (call_token call) (Suc n) (mcp_text h r) # progress_lines h call (Suc n) rs"

lemma progress_lines_append:
  "progress_lines h call n (rs @ ss) = progress_lines h call n rs @ progress_lines h call (n + length rs) ss"
  by (induction rs arbitrary: n) auto

lemma consumed_snoc:
  "consumed a rs = None \<Longrightarrow> consumed a (rs @ [r]) =
     (if reply_terminal (fold (\<lambda>r a. reply_accepts a r) rs a) r then Some (Suc (length rs)) else None)"
  by (induction rs arbitrary: a) (auto split: if_splits)

definition accepted_after :: "response list \<Rightarrow> string option" where
  "accepted_after rs = fold next_accepted rs None"

definition cursor_after :: "response list \<Rightarrow> int option" where
  "cursor_after rs = fold next_cursor rs None"

lemma accepted_after_fold: "accepted_after rs = fold (\<lambda>r a. reply_accepts a r) rs None"
proof -
  have "next_accepted = (\<lambda>r a. reply_accepts a r)" by (intro ext) (rule next_accepted_reply)
  then show ?thesis by (simp add: accepted_after_def)
qed

lemma consumed_after:
  "consumed None rs = None \<Longrightarrow> consumed None (rs @ [r]) =
     (if terminal_for r (accepted_after rs) then Some (Suc (length rs)) else None)"
  by (simp add: consumed_snoc terminal_for_reply accepted_after_fold)

text \<open>The test is the same with the id after the reply: an acceptance is never the last reply.\<close>

lemma terminal_for_next: "terminal_for r (next_accepted r a) = terminal_for r a"
  by (simp add: terminal_for_def next_accepted_def split: response.split)

text \<open>
  \<open>progressed h call w rs v\<close>: from \<open>w\<close> to \<open>v\<close> the replies \<open>rs\<close>, none of them the last, were
  read and each was reported in a progress line the output took.
\<close>

definition progressed :: "'v mcp_host \<Rightarrow> 'v call_request \<Rightarrow> 'v call_state \<Rightarrow> response list \<Rightarrow> 'v call_state \<Rightarrow> bool" where
  "progressed h call w rs v \<longleftrightarrow>
     replies v = replies w @ rs \<and> shown v = shown w @ map (\<lambda>l. (l, True)) (progress_lines h call 0 rs) \<and>
     removals v = removals w"

text \<open>How a conversation can end: with what final line, after which replies.\<close>

inductive call_ends :: "'v mcp_host \<Rightarrow> 'v call_request \<Rightarrow> 'v call_state \<Rightarrow>
    'v rpc option \<times> int option \<times> 'v call_state \<Rightarrow> bool" for h call w where
  cancelled: "progressed h call w rs v \<Longrightarrow> flag_cancelled v \<Longrightarrow> flag_dead v = flag_dead w \<Longrightarrow>
    call_ends h call w (None, cursor_after rs, v)"
| stopped: "progressed h call w rs v \<Longrightarrow> flag_dead v = flag_dead w \<Longrightarrow>
    call_ends h call w (Some (stream_ended call (accepted_after rs) error), cursor_after rs, v)"
| unwritable: "replies v = replies w @ rs @ [r] \<Longrightarrow>
    shown v = shown w @ map (\<lambda>l. (l, True)) (progress_lines h call 0 rs) @
      [(Rpc_Progress (call_token call) (Suc (length rs)) (mcp_text h r), False)] \<Longrightarrow>
    removals v = removals w \<Longrightarrow> flag_dead v \<Longrightarrow>
    call_ends h call w (None, cursor_after (rs @ [r]), v)"
| complete: "progressed h call w (rs @ [r]) v \<Longrightarrow> flag_dead v = flag_dead w \<Longrightarrow>
    consumed None (rs @ [r]) = Some (Suc (length rs)) \<Longrightarrow>
    call_ends h call w (Some (final_reply h call r (accepted_after (rs @ [r])) (cursor_after (rs @ [r]))),
      cursor_after (rs @ [r]), v)"

inductive_cases call_endsE: "call_ends h call w z"

definition round_invariant :: "'v mcp_host \<Rightarrow> 'v call_request \<Rightarrow> 'v call_state \<Rightarrow> response list \<Rightarrow> 'v round_state \<Rightarrow> bool" where
  "round_invariant h call w rs = (\<lambda>(a, c, n, v). progressed h call w rs v \<and> flag_dead v = flag_dead w \<and>
     a = accepted_after rs \<and> c = cursor_after rs \<and> n = length rs \<and> consumed None rs = None)"

lemma load_cancelled_state:
  assumes "load_cancelled h w = (c, v)"
  shows "flag_cancelled v = c" and "flag_dead v = flag_dead w" and "shown v = shown w"
    and "replies v = replies w" and "removals v = removals w" and "calls v = calls w"
  using assms by (auto simp: load_cancelled_def Let_def)

lemma write_json_state:
  assumes "write_json h r w = (ok, v)"
  shows "flag_cancelled v = flag_cancelled w" and "flag_dead v = flag_dead w" and "shown v = shown w @ [(r, ok)]"
    and "replies v = replies w" and "removals v = removals w" and "calls v = calls w"
  using assms by (auto simp: write_json_def Let_def)

text \<open>Steps that write no line, read no reply and leave the table alone.\<close>

definition untold :: "'v call_state \<Rightarrow> 'v call_state \<Rightarrow> bool" where
  "untold w v \<longleftrightarrow> shown v = shown w \<and> replies v = replies w \<and> removals v = removals w"

lemma untold_trans [trans]: "untold u v \<Longrightarrow> untold v w \<Longrightarrow> untold u w"
  by (simp add: untold_def)

lemma untold_steps:
  "only_calls w v \<Longrightarrow> untold w v" "load_cancelled h w = (c, v) \<Longrightarrow> untold w v"
  "only_calls w v \<Longrightarrow> untold w (v\<lparr>observer := ob\<rparr>)"
  using only_calls_state [of w v] load_cancelled_state [of h w c v] by (auto simp: untold_def)

text \<open>A round that read a reply: the output is lost, the reply is the last, or the loop goes on.\<close>

lemma call_round_reply:
  assumes inv: "round_invariant h call w rs (a, c, n, v)" and u: "untold v v2" "flag_dead v2 = flag_dead v"
    and wr: "write_json h (Rpc_Progress (call_token call) (Suc n) (mcp_text h r)) (v2\<lparr>replies := replies v2 @ [r]\<rparr>) = (ok, v4)"
  shows "\<not> ok \<Longrightarrow> only_calls (v4\<lparr>flag_cancelled := True, flag_dead := True\<rparr>) v6 \<Longrightarrow>
      call_ends h call w (None, next_cursor r c, v6)"
    and "ok \<Longrightarrow> terminal_for r (next_accepted r a) \<Longrightarrow>
      call_ends h call w (Some (final_reply h call r (next_accepted r a) (next_cursor r c)), next_cursor r c, v4)"
    and "ok \<Longrightarrow> \<not> terminal_for r (next_accepted r a) \<Longrightarrow>
      round_invariant h call w (rs @ [r]) (next_accepted r a, next_cursor r c, Suc n, v4)"
proof -
  from inv have p: "progressed h call w rs v" and d: "flag_dead v = flag_dead w"
    and ac: "a = accepted_after rs" "c = cursor_after rs" "n = length rs" and open': "consumed None rs = None"
    by (simp_all add: round_invariant_def)
  note s4 = write_json_state [OF wr]
  let ?line = "Rpc_Progress (call_token call) (Suc n) (mcp_text h r)"
  have lines: "progress_lines h call 0 (rs @ [r]) = progress_lines h call 0 rs @ [?line]"
    by (simp add: progress_lines_append ac)
  have acc: "next_accepted r a = accepted_after (rs @ [r])" and cur: "next_cursor r c = cursor_after (rs @ [r])"
    by (simp_all add: accepted_after_def cursor_after_def ac)
  have ends: "consumed None (rs @ [r]) = (if terminal_for r (next_accepted r a) then Some (Suc (length rs)) else None)"
    using consumed_after [OF open', of r] by (simp add: terminal_for_next ac)
  have p4: "progressed h call w (rs @ [r]) v4" and d4: "flag_dead v4 = flag_dead w" if ok
    using p d u s4 lines that by (simp_all add: progressed_def untold_def)
  show "call_ends h call w (None, next_cursor r c, v6)" if "\<not> ok" "only_calls (v4\<lparr>flag_cancelled := True, flag_dead := True\<rparr>) v6"
    unfolding cur by (rule call_ends.unwritable)
      (use p u s4 only_calls_state [OF that(2)] that(1) ac in \<open>simp_all add: progressed_def untold_def\<close>)
  show "call_ends h call w (Some (final_reply h call r (next_accepted r a) (next_cursor r c)), next_cursor r c, v4)"
    if ok "terminal_for r (next_accepted r a)"
    using call_ends.complete [OF p4 d4] ends that acc cur by simp
  show "round_invariant h call w (rs @ [r]) (next_accepted r a, next_cursor r c, Suc n, v4)"
    if ok "\<not> terminal_for r (next_accepted r a)"
    using p4 d4 ends that acc cur ac by (simp add: round_invariant_def)
qed

lemma call_round_ends:
  assumes inv: "round_invariant h call w rs (a, c, n, v)"
  shows "case call_round h call peer (a, c, n, v) of
      Inl z \<Rightarrow> call_ends h call w z | Inr s \<Rightarrow> \<exists>r. round_invariant h call w (rs @ [r]) s"
proof -
  from inv have p: "progressed h call w rs v" and d: "flag_dead v = flag_dead w"
    and ac: "a = accepted_after rs" "c = cursor_after rs" by (simp_all add: round_invariant_def)
  obtain k v1 where l1: "load_cancelled h v = (k, v1)" by fastforce
  note s1 = load_cancelled_state [OF l1]
  show ?thesis
  proof (cases k)
    case True
    have "call_ends h call w (None, c, v1)"
      unfolding ac by (rule call_ends.cancelled) (use p d s1 True in \<open>simp_all add: progressed_def\<close>)
    with l1 True show ?thesis by (simp add: call_round_def)
  next
    case False
    obtain x v2 where rd: "read_response h peer v1 = (x, v2)" by fastforce
    then have read: "only_calls v1 v2" using only_calls_mcp(3) [of v1 h peer] by simp
    have u: "untold v v2" "flag_dead v2 = flag_dead v"
      using untold_trans [OF untold_steps(2) [OF l1] untold_steps(1) [OF read]] only_calls_state(2) [OF read] s1(2) by simp_all
    show ?thesis
    proof (cases x)
      case (Inl error)
      obtain k2 v3 where l3: "load_cancelled h v2 = (k2, v3)" by fastforce
      note s3 = load_cancelled_state [OF l3]
      have p3: "progressed h call w rs v3" and d3: "flag_dead v3 = flag_dead w"
        using p d u s3 by (simp_all add: progressed_def untold_def)
      have "call_ends h call w (if k2 then None else Some (stream_ended call a error), c, v3)"
        using call_ends.cancelled [OF p3 _ d3] call_ends.stopped [OF p3 d3, of error] s3(1) ac by simp
      with l1 False rd Inl l3 show ?thesis by (simp add: call_round_def)
    next
      case (Inr r)
      obtain ok v4 where wr: "write_json h (Rpc_Progress (call_token call) (Suc n) (mcp_text h r))
        (v2\<lparr>replies := replies v2 @ [r]\<rparr>) = (ok, v4)" by fastforce
      note reply = call_round_reply [OF inv u wr]
      let ?v5 = "v4\<lparr>flag_cancelled := True, flag_dead := True\<rparr>"
      have "only_calls ?v5 (snd (sys_unit (mcp_env h) (Shutdown peer Shut_Both) ?v5))" by simp
      from reply(1) [OF _ this] reply(2,3) l1 False rd Inr wr show ?thesis
        by (auto simp: call_round_def Let_def split: bool.split)
    qed
  qed
qed

lemma call_round_step:
  "round_invariant h call w rs s \<Longrightarrow> call_round h call peer s = Inr t \<Longrightarrow> \<exists>r. round_invariant h call w (rs @ [r]) t"
  "round_invariant h call w rs s \<Longrightarrow> call_round h call peer s = Inl z \<Longrightarrow> call_ends h call w z"
proof -
  obtain a c n v where "s = (a, c, n, v)" by (cases s)
  then show "round_invariant h call w rs s \<Longrightarrow> call_round h call peer s = Inr t \<Longrightarrow> \<exists>r. round_invariant h call w (rs @ [r]) t"
    "round_invariant h call w rs s \<Longrightarrow> call_round h call peer s = Inl z \<Longrightarrow> call_ends h call w z"
    using call_round_ends [of h call w rs a c n v peer] by auto
qed

lemma call_loop_ends:
  assumes "iterate (call_round h call peer) (None, None, 0, w) = Some z"
  shows "call_ends h call w z"
proof (rule iterate_invariant [OF assms, where I = "\<lambda>s. \<exists>rs. round_invariant h call w rs s"])
  show "\<exists>rs. round_invariant h call w rs (None, None, 0, w)"
    by (rule exI [of _ "[]"]) (simp add: round_invariant_def progressed_def accepted_after_def cursor_after_def)
next
  fix s t assume "\<exists>rs. round_invariant h call w rs s" and "call_round h call peer s = Inr t"
  then show "\<exists>rs. round_invariant h call w rs t" by (metis call_round_step(1))
next
  fix s z assume "\<exists>rs. round_invariant h call w rs s" and "call_round h call peer s = Inl z"
  then show "call_ends h call w z" by (metis call_round_step(2))
qed

section \<open>What a call writes last\<close>

definition is_error :: "'v call_request \<Rightarrow> 'v rpc \<times> bool \<Rightarrow> bool" where
  "is_error call x \<longleftrightarrow> (\<exists>c t. fst x = Rpc_Error (call_id call) c t)"

definition answers :: "'v call_request \<Rightarrow> 'v rpc \<times> bool \<Rightarrow> bool" where
  "answers call x \<longleftrightarrow> is_error call x \<or> (\<exists>t e. fst x = Rpc_Result (call_id call) t e)"

lemma final_reply_answers [simp]: "answers call (final_reply h call r a c, ok)"
  by (simp add: answers_def is_error_def final_reply_def split: response.split)

lemma error_answers [simp]:
  "answers call (stream_ended call a e, ok)" "answers call (cancelled_reply call c, ok)"
  by (simp_all add: answers_def is_error_def stream_ended_def cancelled_reply_def)

lemma early_errors [simp]: "is_error call (cancelled_before call, ok)" "is_error call (unregistered call e, ok)"
  by (simp_all add: is_error_def cancelled_before_def unregistered_def)

lemma load_alive_state:
  assumes "load_alive h w = (a, v)"
  shows "flag_dead v = (\<not> a)" and "flag_cancelled v = flag_cancelled w" and "shown v = shown w"
    and "replies v = replies w" and "removals v = removals w" and "flag_dead w \<Longrightarrow> \<not> a"
  using assms by (auto simp: load_alive_def Let_def)

text \<open>Whoever reports when the connection is alive writes one line or has seen it dead.\<close>

definition closed_with :: "('v rpc \<times> bool \<Rightarrow> bool) \<Rightarrow> 'v call_state \<Rightarrow> 'v call_state \<Rightarrow> bool" where
  "closed_with P w v \<longleftrightarrow> replies v = replies w \<and> removals v = removals w \<and>
     (shown v = shown w \<and> flag_dead v \<or> (\<exists>x. shown v = shown w @ [x] \<and> P x))"

lemma report_if_alive_closes:
  "(\<And>ok. P (r, ok)) \<Longrightarrow> closed_with P w (report_if_alive h r w)"
  using load_alive_state [of h w] write_json_state [of h r]
  by (cases "load_alive h w"; cases "write_json h r (snd (load_alive h w))")
     (auto simp: report_if_alive_def closed_with_def split: bool.split)

lemma report_failure_closes: "closed_with (is_error call) w (report_failure h call e w)"
proof -
  obtain a w1 where a: "load_alive h w = (a, w1)" by fastforce
  obtain c1 w2 where c1: "load_cancelled h w1 = (c1, w2)" by fastforce
  obtain c2 w3 where c2: "load_cancelled h w2 = (c2, w3)" by fastforce
  let ?line = "Rpc_Error (call_id call) (if c2 then - 32800 else - 32001)
    (if c1 then ''Send admission outcome is unknown; do not resend. Resume with observe_sends from this sender''
       @ [CHR 0x27] @ ''s durable history.'' else e)"
  obtain ok w4 where wr: "write_json h ?line w3 = (ok, w4)" by fastforce
  note s = load_alive_state [OF a] load_cancelled_state [OF c1] load_cancelled_state [OF c2] write_json_state [OF wr]
  show ?thesis
  proof (cases a)
    case False
    with a s show ?thesis by (simp add: report_failure_def closed_with_def)
  next
    case True
    then have r: "report_failure h call e w = w4" using a c1 c2 wr by (simp add: report_failure_def)
    show ?thesis unfolding r using s by (simp add: closed_with_def is_error_def)
  qed
qed

lemma conclude_closes:
  assumes "final = None \<Longrightarrow> flag_cancelled u \<or> flag_dead u" and "\<And>r ok. final = Some r \<Longrightarrow> P (r, ok)"
    and "\<And>ok. P (cancelled_reply call cursor, ok)"
  shows "closed_with P (forget_call u) (conclude h call final cursor u)"
proof (cases final)
  case (Some r)
  obtain ok v where wr: "write_json h r (forget_call u) = (ok, v)" by fastforce
  from write_json_state [OF wr] wr Some assms(2) show ?thesis
    by (simp add: conclude_def closed_with_def)
next
  case None
  let ?w1 = "forget_call u"
  obtain c w2 where c: "load_cancelled h ?w1 = (c, w2)" by fastforce
  note s2 = load_cancelled_state [OF c]
  have sticky: "flag_cancelled u \<Longrightarrow> c" using c by (auto simp: load_cancelled_def Let_def forget_call_def)
  show ?thesis
  proof (cases c)
    case False
    with sticky assms(1) None have "flag_dead u" by blast
    with c False None s2 show ?thesis by (simp add: conclude_def closed_with_def forget_call_def)
  next
    case True
    obtain a w3 where a: "load_alive h w2 = (a, w3)" by fastforce
    note s3 = load_alive_state [OF a]
    obtain ok w4 where wr: "write_json h (cancelled_reply call cursor) w3 = (ok, w4)" by fastforce
    note s4 = write_json_state [OF wr]
    show ?thesis
    proof (cases a)
      case False
      with c a True None s2 s3 show ?thesis by (simp add: conclude_def closed_with_def)
    next
      case alive: True
      with c a True None wr have "conclude h call final cursor u = w4" by (simp add: conclude_def)
      with s2 s3 s4 assms(3) show ?thesis by (simp add: closed_with_def)
    qed
  qed
qed

lemma closed_with_untold: "untold w v \<Longrightarrow> closed_with P v u \<Longrightarrow> closed_with P w u"
  by (simp add: untold_def closed_with_def)

text \<open>Once its connection is registered, a call fails to send or converses.\<close>

lemma call_registered:
  assumes "(case load_cancelled h v of
      (True, w1) \<Rightarrow> converse h call peer (snd (sys_unit (mcp_env h) (Shutdown peer Shut_Both) w1))
    | (False, w1) \<Rightarrow> (case mcp_send h peer (call_query call) w1 of
          (Inl error, w2) \<Rightarrow> Some (forget_call (report_failure h call error w2))
        | (Inr _, w2) \<Rightarrow> converse h call peer w2)) = Some w'"
  obtains (unsent) u where "closed_with (is_error call) v u" and "w' = forget_call u"
  | (sent) u where "untold v u" and "converse h call peer u = Some w'"
proof -
  obtain c w1 where l: "load_cancelled h v = (c, w1)" by fastforce
  note 1 = untold_steps(2) [OF l]
  show thesis
  proof (cases c)
    case True
    let ?w2 = "snd (sys_unit (mcp_env h) (Shutdown peer Shut_Both) w1)"
    have "only_calls w1 ?w2" by simp
    from untold_trans [OF 1 untold_steps(1) [OF this]] assms l True show thesis by (intro sent) simp_all
  next
    case False
    obtain z w2 where sd: "mcp_send h peer (call_query call) w1 = (z, w2)" by fastforce
    have "only_calls w1 w2" using only_calls_mcp(2) [of w1 h peer "call_query call"] sd by simp
    note 2 = untold_trans [OF 1 untold_steps(1) [OF this]]
    show thesis
    proof (cases z)
      case (Inl e)
      show thesis by (rule unsent [OF closed_with_untold [OF 2 report_failure_closes [of call w2 h e]]])
        (use assms l False sd Inl in simp)
    next
      case (Inr u)
      with assms l False sd 2 show thesis by (intro sent) simp_all
    qed
  qed
qed

text \<open>A run either reports one error before any conversation, or concludes a conversation.\<close>

lemma run_call_starts:
  assumes "run_call h call w = Some w'"
  obtains (failed) u where "closed_with (is_error call) w u" and "w' = forget_call u"
  | (conversed) u peer where "untold w u" and "converse h call peer u = Some w'"
proof -
  obtain c1 w1 where l1: "load_cancelled h w = (c1, w1)" by fastforce
  note 1 = untold_steps(2) [OF l1]
  show thesis
  proof (cases c1)
    case True
    show thesis
      by (rule failed [OF closed_with_untold [OF 1 report_if_alive_closes [of "is_error call" "cancelled_before call" w1 h]]])
         (use assms l1 True in \<open>simp_all add: run_call_def early_errors\<close>)
  next
    case c1: False
    obtain x w2 where cn: "mcp_connect h w1 = (x, w2)" by fastforce
    have "only_calls w1 w2" using only_calls_mcp(1) [of w1 h] cn by simp
    note 2 = untold_trans [OF 1 untold_steps(1) [OF this]]
    show thesis
    proof (cases x)
      case (Inl e)
      show thesis by (rule failed [OF closed_with_untold [OF 2 report_failure_closes [of call w2 h e]]])
        (use assms l1 c1 cn Inl in \<open>simp add: run_call_def\<close>)
    next
      case (Inr peer)
      obtain y w3 where cl: "sys_clone (mcp_env h) peer w2 = (y, w3)" by fastforce
      have o3: "only_calls w2 w3" using only.stable_sys(4) [of w2 "mcp_env h" peer] cl by simp
      show thesis
      proof (cases y)
        case (Inl e)
        show thesis
          by (rule failed [OF closed_with_untold [OF untold_trans [OF 2 untold_steps(1) [OF o3]]
                report_if_alive_closes [of "is_error call" "unregistered call e" w3 h]]])
             (use assms l1 c1 cn cl Inr Inl in \<open>simp_all add: run_call_def early_errors\<close>)
      next
        case y: (Inr obs)
        note 3 = untold_trans [OF 2 untold_steps(3) [OF o3, of "Some obs"]]
        from assms l1 c1 cn cl Inr y have "(case load_cancelled h (w3\<lparr>observer := Some obs\<rparr>) of
            (True, w1) \<Rightarrow> converse h call peer (snd (sys_unit (mcp_env h) (Shutdown peer Shut_Both) w1))
          | (False, w1) \<Rightarrow> (case mcp_send h peer (call_query call) w1 of
                (Inl error, w2) \<Rightarrow> Some (forget_call (report_failure h call error w2))
              | (Inr _, w2) \<Rightarrow> converse h call peer w2)) = Some w'" by (simp add: run_call_def)
        then show thesis
        proof (cases rule: call_registered)
          case (unsent u)
          show thesis by (rule failed [OF closed_with_untold [OF 3 unsent(1)] unsent(2)])
        next
          case (sent u)
          show thesis by (rule conversed [OF untold_trans [OF 3 sent(1)] sent(2)])
        qed
      qed
    qed
  qed
qed

lemma run_call_split:
  assumes "run_call h call w = Some w'"
  obtains (early) v where "closed_with (is_error call) w v" and "w' = forget_call v"
  | (talked) v peer final c u where "shown v = shown w" and "replies v = replies w" and "removals v = removals w"
      and "iterate (call_round h call peer) (None, None, 0, v) = Some (final, c, u)" and "w' = conclude h call final c u"
  using assms
proof (cases rule: run_call_starts)
  case (conversed v peer)
  then obtain final c u where "iterate (call_round h call peer) (None, None, 0, v) = Some (final, c, u)"
    "w' = conclude h call final c u" by (auto simp: converse_def split: option.splits)
  with conversed(1) show thesis by (intro talked) (simp_all add: untold_def)
qed (rule early)

lemma call_ends_lines:
  assumes "call_ends h call v (final, c, u)"
  shows "\<exists>ps. shown u = shown v @ ps \<and> list_all (\<lambda>x. \<exists>n t. fst x = Rpc_Progress (call_token call) n t) ps"
    and "removals u = removals v" and "final = None \<Longrightarrow> flag_cancelled u \<or> flag_dead u"
    and "final = Some r \<Longrightarrow> answers call (r, ok)"
proof -
  have lines: "list_all (\<lambda>x. \<exists>n t. fst x = Rpc_Progress (call_token call) n t)
      (map (\<lambda>l. (l, True)) (progress_lines h call n rs))" for n rs
    by (induction rs arbitrary: n) auto
  from assms show "\<exists>ps. shown u = shown v @ ps \<and> list_all (\<lambda>x. \<exists>n t. fst x = Rpc_Progress (call_token call) n t) ps"
  proof cases
    case (unwritable rs r)
    with lines [of 0 rs] show ?thesis
      by (intro exI [of _ "map (\<lambda>l. (l, True)) (progress_lines h call 0 rs) @
        [(Rpc_Progress (call_token call) (Suc (length rs)) (mcp_text h r), False)]"]) simp
  qed (use lines in \<open>auto simp: progressed_def\<close>)
  from assms show "removals u = removals v" by cases (auto simp: progressed_def)
  from assms show "final = None \<Longrightarrow> flag_cancelled u \<or> flag_dead u" by cases auto
  from assms show "final = Some r \<Longrightarrow> answers call (r, ok)" by cases auto
qed

text \<open>The result of a tool call is the last reply of a whole conversation.\<close>

lemma conclude_result:
  assumes "call_ends h call v (final, c, u)" and "shown (conclude h call final c u) = shown u @ [(Rpc_Result i t e, ok)]"
  shows "\<exists>rs r. progressed h call v (rs @ [r]) u \<and> consumed None (rs @ [r]) = Some (Suc (length rs)) \<and>
    (\<nexists>c' t'. r = ObservationInterrupted c' t') \<and> i = call_id call \<and> t = mcp_text h r \<and>
    e = reply_failed r (accepted_after (rs @ [r]))"
proof -
  have some: "Rpc_Result i t e = r" if "final = Some r" for r
  proof -
    obtain ok' v' where wr: "write_json h r (forget_call u) = (ok', v')" by fastforce
    from write_json_state [OF wr] assms(2) that wr show ?thesis by (simp add: conclude_def forget_call_def)
  qed
  have "final \<noteq> None"
  proof
    assume none: "final = None"
    have "closed_with (is_error call) (forget_call u) (conclude h call final c u)"
      using call_ends_lines(3) [OF assms(1)] none
      by (intro conclude_closes) (auto simp: is_error_def cancelled_reply_def)
    with assms(2) show False by (auto simp: closed_with_def is_error_def forget_call_def)
  qed
  then obtain r where r: "final = Some r" by blast
  with some have "r = Rpc_Result i t e" by simp
  with assms(1) r show ?thesis
    by cases (auto simp: stream_ended_def final_reply_def split: response.splits)
qed

section \<open>Calls that are served\<close>

lemma read_response_reply:
  assumes "read_reply (mcp_env h) (mcp_wire h) peer w = (Inr r, v)"
  shows "read_response h peer w = (Inr r, v)"
  using assms
  by (auto simp: read_reply_def read_response_def io_simps Let_def MAX_LINE_def split: prod.splits sum.splits if_splits)

lemma read_frame_reply:
  assumes "feeds (mcp_env h) peer (frame_bytes bytes @ rest) (calls w)"
    and "length bytes \<le> FRAME_LIMIT" and "unarchive_reply (mcp_wire h) bytes = Inr r"
  obtains v where "read_response h peer w = (Inr r, v)" and "feeds (mcp_env h) peer rest (calls v)"
  using read_reply_fed [of "mcp_env h" peer bytes rest w "mcp_wire h" r] assms read_response_reply [of h peer w r] by metis

lemma read_response_consumes:
  assumes "feeds (mcp_env h) peer bs (calls w)" and "read_response h peer w = (Inr r, v)"
  shows "\<exists>bs'. feeds (mcp_env h) peer bs' (calls v) \<and> length bs' < length bs"
proof -
  have "4 \<le> length bs"
  proof (rule ccontr)
    assume "\<not> 4 \<le> length bs"
    with read_exact_short [OF assms(1), of 4] assms(2) show False by (simp add: read_response_def io_simps)
  qed
  moreover obtain n where "calls v = calls w @ [Read_Exact peer 4, Read_Exact peer n]"
    using assms(2) by (auto simp: read_response_def io_simps read_exact_def Let_def split: prod.splits sum.splits if_splits)
  ultimately show ?thesis
    using feeds_later [OF assms(1), of "[Read_Exact peer 4, Read_Exact peer n]"]
    by (intro exI [of _ "drop (taken peer [Read_Exact peer 4, Read_Exact peer n]) bs"]) simp
qed

lemma call_loop_returns:
  assumes "feeds (mcp_env h) peer bs (calls w)"
  shows "\<exists>z. iterate (call_round h call peer) (a, c, n, w) = Some z"
  using assms
proof (induction "length bs" arbitrary: bs a c n w rule: less_induct)
  case less
  show ?case
  proof (cases "call_round h call peer (a, c, n, w)")
    case (Inl z)
    then show ?thesis by (metis iterate_done)
  next
    case (Inr s)
    obtain a' c' n' v where s: "s = (a', c', n', v)" by (cases s)
    obtain k w1 where l: "load_cancelled h w = (k, w1)" by fastforce
    obtain x w2 where rd: "read_response h peer w1 = (x, w2)" by fastforce
    from Inr l have k: "\<not> k" by (auto simp: call_round_def)
    from Inr l k rd obtain r where x: "x = Inr r"
      by (cases x) (auto simp: call_round_def split: prod.splits)
    obtain ok w3 where wr: "write_json h (Rpc_Progress (call_token call) (Suc n) (mcp_text h r))
        (w2\<lparr>replies := replies w2 @ [r]\<rparr>) = (ok, w3)" by fastforce
    from Inr l k rd x wr s have v: "v = w3" by (auto simp: call_round_def Let_def split: bool.splits if_splits)
    from rd x less.prems load_cancelled_state(6) [OF l] obtain bs' where
      "feeds (mcp_env h) peer bs' (calls w2)" "length bs' < length bs"
      using read_response_consumes [of h peer bs w1 r w2] by auto
    with write_json_state(6) [OF wr] v have "feeds (mcp_env h) peer bs' (calls v)" by simp
    from less.hyps [OF \<open>length bs' < length bs\<close> this] obtain z where
      "iterate (call_round h call peer) (a', c', n', v) = Some z" by blast
    then show ?thesis unfolding iterate_again [of "call_round h call peer", OF Inr] s by blast
  qed
qed

text \<open>Without cancellation and with a working output, a whole conversation is reported whole.\<close>

definition undisturbed :: "'v mcp_host \<Rightarrow> bool" where
  "undisturbed h \<longleftrightarrow> mcp_cancel h = (\<lambda>_ _. False) \<and> mcp_writable h = (\<lambda>_ _. True)"

lemma call_loop_reports:
  assumes "undisturbed h" and "\<not> flag_cancelled w"
    and "consumed a rs = Some (length rs)"
    and "list_all2 (\<lambda>bytes r. length bytes \<le> FRAME_LIMIT \<and> unarchive_reply (mcp_wire h) bytes = Inr r) archives rs"
    and "feeds (mcp_env h) peer (concat (map frame_bytes archives) @ rest) (calls w)"
  shows "\<exists>v. iterate (call_round h call peer) (a, c, n, w) =
      Some (Some (final_reply h call (last rs) (fold next_accepted rs a) (fold next_cursor rs c)), fold next_cursor rs c, v) \<and>
    shown v = shown w @ map (\<lambda>l. (l, True)) (progress_lines h call n rs)"
  using assms(2-)
proof (induction rs arbitrary: a c n w archives)
  case Nil
  then show ?case by simp
next
  case (Cons r rs)
  from Cons.prems(3) obtain b bs where arch: "archives = b # bs" and b: "length b \<le> FRAME_LIMIT" "unarchive_reply (mcp_wire h) b = Inr r"
    and bs: "list_all2 (\<lambda>bytes r. length bytes \<le> FRAME_LIMIT \<and> unarchive_reply (mcp_wire h) bytes = Inr r) bs rs"
    by (cases archives) auto
  obtain k w1 where l: "load_cancelled h w = (k, w1)" by fastforce
  note s1 = load_cancelled_state [OF l]
  have k: "\<not> k" using l assms(1) Cons.prems(1) by (auto simp: load_cancelled_def Let_def undisturbed_def)
  from Cons.prems(4) arch s1(6) have "feeds (mcp_env h) peer (frame_bytes b @ concat (map frame_bytes bs) @ rest) (calls w1)" by simp
  from read_frame_reply [OF this b] obtain w2 where rd: "read_response h peer w1 = (Inr r, w2)"
    and f2: "feeds (mcp_env h) peer (concat (map frame_bytes bs) @ rest) (calls w2)" by blast
  have "only_calls w1 w2" using only_calls_mcp(3) [of w1 h peer] rd by simp
  note s2 = only_calls_state [OF this]
  let ?line = "Rpc_Progress (call_token call) (Suc n) (mcp_text h r)"
  obtain ok w3 where wr: "write_json h ?line (w2\<lparr>replies := replies w2 @ [r]\<rparr>) = (ok, w3)" by fastforce
  note s3 = write_json_state [OF wr]
  have ok: "ok" using wr assms(1) by (simp add: write_json_def Let_def undisturbed_def)
  show ?case
  proof (cases "terminal_for r a")
    case True
    then have "rs = []" using Cons.prems(2) by (simp add: terminal_for_reply)
    with True l k rd wr ok s1 s2 s3 show ?thesis
      by (simp add: call_round_def Let_def iterate_done terminal_for_next)
  next
    case False
    let ?s = "(next_accepted r a, next_cursor r c, Suc n, w3)"
    have round: "call_round h call peer (a, c, n, w) = Inr ?s"
      using False l k rd wr ok by (simp add: call_round_def Let_def terminal_for_next)
    have c: "consumed (next_accepted r a) rs = Some (length rs)"
      using Cons.prems(2) False by (auto simp: terminal_for_reply next_accepted_reply)
    have nc: "\<not> flag_cancelled w3" using s1 s2 s3 k by simp
    have f3: "feeds (mcp_env h) peer (concat (map frame_bytes bs) @ rest) (calls w3)" using f2 s3 by simp
    from c have "rs \<noteq> []" by auto
    with Cons.IH [OF nc c bs f3, of "next_cursor r c" "Suc n"] show ?thesis
      unfolding iterate_again [of "call_round h call peer", OF round] using s1 s2 s3 ok by auto
  qed
qed


lemma called_fields [simp]:
  fixes w :: "'v call_state"
  shows "flag_cancelled (called c w) = flag_cancelled w" and "shown (called c w) = shown w"
  by (simp_all add: called_def)

lemma undisturbed_load:
  "undisturbed h \<Longrightarrow> \<not> flag_cancelled w \<Longrightarrow> load_cancelled h w = (False, w\<lparr>flag_cancelled := False, loads := Suc (loads w)\<rparr>)"
  by (simp add: load_cancelled_def undisturbed_def)

lemma undisturbed_write: "undisturbed h \<Longrightarrow> write_json h r w = (True, w\<lparr>shown := shown w @ [(r, True)]\<rparr>)"
  by (simp add: write_json_def undisturbed_def)

lemma undisturbed_call_reports:
  assumes "undisturbed h" and "\<not> flag_cancelled w"
    and "env_connect (mcp_env h) (calls w) (mcp_socket h) = Inr peer" and "\<And>tr c. env_unit (mcp_env h) tr c = None"
    and "\<And>tr. env_clone (mcp_env h) tr peer = Inr obs"
    and "archive_query (mcp_wire h) (call_query call) = Inr bytes" and "length bytes < 2 ^ 32"
    and "feeds (mcp_env h) peer (concat (map frame_bytes archives) @ rest) (calls w)"
    and "list_all2 (\<lambda>bytes r. length bytes \<le> FRAME_LIMIT \<and> unarchive_reply (mcp_wire h) bytes = Inr r) archives rs"
    and "consumed None rs = Some (length rs)"
  shows "\<exists>w'. run_call h call w = Some w' \<and> shown w' = shown w @ map (\<lambda>l. (l, True))
    (progress_lines h call 0 rs @ [final_reply h call (last rs) (accepted_after rs) (cursor_after rs)])"
proof -
  let ?p = "to_be_bytes (of_nat (length bytes))"
  let ?calls = "[Connect (mcp_socket h), Set_Write_Timeout peer (Some 10), Try_Clone peer, Write_All peer ?p, Write_All peer bytes]"
  obtain v where run: "run_call h call w = converse h call peer v"
    and v: "calls v = calls w @ ?calls" "shown v = shown w" "\<not> flag_cancelled v"
    using assms(1-7)
    by (simp add: run_call_def undisturbed_load mcp_connect_def mcp_send_def io_simps sys_connect_def sys_unit_def
        sys_clone_def write_all_def u32_try_from_def)
  have "feeds (mcp_env h) peer (concat (map frame_bytes archives) @ rest) (calls v)"
    using feeds_later [OF assms(8), of ?calls] v(1) by simp
  from call_loop_reports [OF assms(1) v(3) assms(10,9) this, of call None 0] obtain u where
    "iterate (call_round h call peer) (None, None, 0, v) =
      Some (Some (final_reply h call (last rs) (accepted_after rs) (cursor_after rs)), cursor_after rs, u)"
    and "shown u = shown v @ map (\<lambda>l. (l, True)) (progress_lines h call 0 rs)"
    by (auto simp: accepted_after_def cursor_after_def)
  then show ?thesis
    using run v(2) by (simp add: converse_def conclude_def undisturbed_write [OF assms(1)] forget_call_def)
qed


section \<open>Examples\<close>

definition sample_mcp :: "string mcp_host" where
  "sample_mcp = \<lparr>mcp_env = quiet_env two_frames, mcp_wire = sample_message_wire, mcp_socket = ''/r/m'',
     mcp_text = (\<lambda>_. ''reply''), mcp_cancel = (\<lambda>_ _. False), mcp_alive = (\<lambda>_ _. True), mcp_writable = (\<lambda>_ _. True)\<rparr>"

definition sample_call :: "string call_request" where
  "sample_call = \<lparr>call_id = ''1'', call_key = ''1'', call_token = ''t'', call_query = ObserveSends None\<rparr>"

abbreviation fresh_call :: "string call_state" where
  "fresh_call \<equiv> \<lparr>calls = [], flag_cancelled = False, flag_dead = False, loads = 0, shown = [], replies = [],
     observer = None, removals = 0\<rparr>"

abbreviation sample_replies :: "response list" where
  "sample_replies \<equiv> [SendAccepted sample_acceptance, SendChanged (sample_snapshot 6 (Delivered (rcpt_native sample_receipt)))]"

lemma sample_mcp_simps [simp]:
  "mcp_env sample_mcp = quiet_env two_frames" "mcp_wire sample_mcp = sample_message_wire"
  "mcp_socket sample_mcp = ''/r/m''" "undisturbed sample_mcp" "mcp_text sample_mcp r = ''reply''"
  by (simp_all add: sample_mcp_def undisturbed_def)

lemma sample_call_premises:
  "env_connect (mcp_env sample_mcp) (calls fresh_call) (mcp_socket sample_mcp) = Inr 0"
  "env_unit (mcp_env sample_mcp) tr c = None" "env_clone (mcp_env sample_mcp) tr 0 = Inr 1"
  "archive_query (mcp_wire sample_mcp) (call_query sample_call) = Inr [9]"
  "feeds (mcp_env sample_mcp) 0 (concat (map frame_bytes [[0], [1]]) @ []) (calls fresh_call)"
  "list_all2 (\<lambda>bytes r. length bytes \<le> FRAME_LIMIT \<and> unarchive_reply (mcp_wire sample_mcp) bytes = Inr r) [[0], [1]] sample_replies"
  "consumed None sample_replies = Some (length sample_replies)"
  using quiet_env_feeds [of two_frames 0 "[]"]
  by (simp_all add: quiet_env_def sample_message_wire_def FRAME_LIMIT_def reply_terminal_def reply_accepts_def
      sample_snapshot_def frame_bytes_def to_be_bytes_def)

lemma call_answered_once:
  assumes "run_call h call w = Some w'"
  shows "\<exists>ps fin. shown w' = shown w @ ps @ fin \<and>
    list_all (\<lambda>x. \<exists>n t. fst x = Rpc_Progress (call_token call) n t) ps \<and>
    length fin \<le> 1 \<and> list_all (answers call) fin \<and> (fin = [] \<longrightarrow> flag_dead w') \<and>
    removals w' = Suc (removals w)"
  using assms
proof (cases rule: run_call_split)
  case (early v)
  then show ?thesis
  proof (cases "shown v = shown w")
    case True
    with early show ?thesis by (intro exI [of _ "[]"]) (auto simp: closed_with_def forget_call_def)
  next
    case False
    with early(1) obtain x where "shown v = shown w @ [x]" "is_error call x" by (auto simp: closed_with_def)
    with early show ?thesis
      by (intro exI [of _ "[]"] exI [of _ "[x]"]) (auto simp: closed_with_def forget_call_def answers_def)
  qed
next
  case (talked v peer final c u)
  note ends = call_loop_ends [OF talked(4)]
  obtain ps where ps: "shown u = shown v @ ps" "list_all (\<lambda>x. \<exists>n t. fst x = Rpc_Progress (call_token call) n t) ps"
    using call_ends_lines(1) [OF ends] by blast
  have "closed_with (answers call) (forget_call u) w'"
    unfolding talked(5) using call_ends_lines(3,4) [OF ends] by (intro conclude_closes) auto
  then have rem: "removals w' = Suc (removals u)"
    and fin: "shown w' = shown u \<and> flag_dead w' \<or> (\<exists>x. shown w' = shown u @ [x] \<and> answers call x)"
    by (simp_all add: closed_with_def forget_call_def)
  obtain fin where "shown w' = shown u @ fin" "length fin \<le> 1" "list_all (answers call) fin" "fin = [] \<longrightarrow> flag_dead w'"
    using fin by (elim disjE conjE exE) (force, force)
  with ps talked(1,3) rem call_ends_lines(2) [OF ends] show ?thesis
    by (intro exI [of _ ps] exI [of _ fin]) simp
qed

section \<open>Properties\<close>

text \<open>C10. A tool call is answered exactly once while the session lives: whatever fails, races or is
  cancelled, a call that returns has written its progress lines and then at most one line that
  answers its id, last; it wrote none only having seen the connection dead; and it removed its
  entry from the table of active calls exactly once.\<close>

theorem one_answer_per_call:
  assumes "run_call h call w = Some w'"
  shows "\<exists>ps fin. shown w' = shown w @ ps @ fin \<and>
    list_all (\<lambda>x. \<exists>n t. fst x = Rpc_Progress (call_token call) n t) ps \<and>
    length fin \<le> 1 \<and> list_all (answers call) fin \<and> (fin = [] \<longrightarrow> flag_dead w') \<and>
    removals w' = Suc (removals w)"
  using assms by (rule call_answered_once)

lemma one_answer_per_call_witness:
  "\<exists>w' ps fin. run_call (sample_mcp\<lparr>mcp_cancel := (\<lambda>_ _. True)\<rparr>) sample_call fresh_call = Some w' \<and>
     shown w' = ps @ fin \<and> length fin \<le> 1 \<and> removals w' = 1"
proof -
  obtain w' where run: "run_call (sample_mcp\<lparr>mcp_cancel := (\<lambda>_ _. True)\<rparr>) sample_call fresh_call = Some w'"
    by (simp add: run_call_def load_cancelled_def)
  from one_answer_per_call [OF run] run show ?thesis by auto
qed

text \<open>C19. A call reports a result, rather than an error, only for a conversation it has read to its
  end: the result line is the rendering of the last reply, which ends the delivery waited for
  by the same test as the Nexus and the command-line client apply, and is flagged as a failure
  exactly when that reply says so; before it every reply has its progress line, numbered from
  one; an interrupted observation is never a result.\<close>

theorem result_only_for_conversation:
  assumes "run_call h call w = Some w'" and "shown w' = shown w @ lines @ [(Rpc_Result i t e, ok)]"
  shows "\<exists>rs r. replies w' = replies w @ rs @ [r] \<and> consumed None (rs @ [r]) = Some (length (rs @ [r])) \<and>
    lines = map (\<lambda>l. (l, True)) (progress_lines h call 0 (rs @ [r])) \<and> i = call_id call \<and> t = mcp_text h r \<and>
    e = reply_failed r (accepted_after (rs @ [r])) \<and> (\<nexists>c' t'. r = ObservationInterrupted c' t')"
  using assms(1)
proof (cases rule: run_call_split)
  case (early v)
  with assms(2) show ?thesis by (auto simp: closed_with_def forget_call_def is_error_def)
next
  case (talked v peer final c u)
  note ends = call_loop_ends [OF talked(4)]
  have cw: "closed_with (answers call) (forget_call u) w'"
    unfolding talked(5) using call_ends_lines(3,4) [OF ends] by (intro conclude_closes) auto
  obtain ps where ps: "shown u = shown v @ ps" "list_all (\<lambda>x. \<exists>n t. fst x = Rpc_Progress (call_token call) n t) ps"
    using call_ends_lines(1) [OF ends] by blast
  have "shown w' \<noteq> shown u"
  proof
    assume "shown w' = shown u"
    with assms(2) ps(1) talked(1) have "ps = lines @ [(Rpc_Result i t e, ok)]" by simp
    with ps(2) show False by auto
  qed
  with cw obtain x where x: "shown w' = shown u @ [x]" by (auto simp: closed_with_def forget_call_def)
  with assms(2) ps(1) talked(1) have "ps @ [x] = lines @ [(Rpc_Result i t e, ok)]" by simp
  then have x': "x = (Rpc_Result i t e, ok)" and lines: "lines = ps" by simp_all
  from conclude_result [OF ends, of i t e ok] x x' talked(5) obtain rs r where
    r: "progressed h call v (rs @ [r]) u" "consumed None (rs @ [r]) = Some (Suc (length rs))"
      "\<nexists>c' t'. r = ObservationInterrupted c' t'" "i = call_id call" "t = mcp_text h r"
      "e = reply_failed r (accepted_after (rs @ [r]))" by auto
  moreover have "replies w' = replies u" using cw by (simp add: closed_with_def forget_call_def)
  ultimately show ?thesis using ps(1) lines talked(2)
    by (intro exI [of _ rs] exI [of _ r]) (auto simp: progressed_def)
qed

lemma sample_call_run:
  "\<exists>w'. run_call sample_mcp sample_call fresh_call = Some w' \<and>
     shown w' = shown fresh_call @ [(Rpc_Progress ''t'' 1 ''reply'', True), (Rpc_Progress ''t'' 2 ''reply'', True)] @
       [(Rpc_Result ''1'' ''reply'' False, True)]"
  using undisturbed_call_reports [of sample_mcp fresh_call 0 1 sample_call "[9]" "[[0], [1]]" "[]" sample_replies] sample_call_premises
  by (auto simp: sample_call_def final_reply_def reply_failed_def snapshot_failed_def sample_snapshot_def)

lemma result_only_for_conversation_witness:
  "\<exists>w' r rs. run_call sample_mcp sample_call fresh_call = Some w' \<and> replies w' = rs @ [r] \<and>
     consumed None (rs @ [r]) = Some (length (rs @ [r]))"
proof -
  obtain w' where run: "run_call sample_mcp sample_call fresh_call = Some w'"
    and lines: "shown w' = shown fresh_call @ [(Rpc_Progress ''t'' 1 ''reply'', True), (Rpc_Progress ''t'' 2 ''reply'', True)] @
       [(Rpc_Result ''1'' ''reply'' False, True)]"
    using sample_call_run by blast
  from result_only_for_conversation [OF run lines] run show ?thesis by auto
qed

text \<open>A call whose query reaches a Nexus that answers it is served: undisturbed, it reports
  every reply in a progress line and then exactly the final line of the last one.\<close>

lemma call_serves:
  assumes "undisturbed h" and "\<not> flag_cancelled w"
    and "env_connect (mcp_env h) (calls w) (mcp_socket h) = Inr peer" and "\<And>tr c. env_unit (mcp_env h) tr c = None"
    and "\<And>tr. env_clone (mcp_env h) tr peer = Inr obs"
    and "archive_query (mcp_wire h) (call_query call) = Inr bytes" and "length bytes < 2 ^ 32"
    and "feeds (mcp_env h) peer (concat (map frame_bytes archives) @ rest) (calls w)"
    and "list_all2 (\<lambda>bytes r. length bytes \<le> FRAME_LIMIT \<and> unarchive_reply (mcp_wire h) bytes = Inr r) archives rs"
    and "consumed None rs = Some (length rs)"
  shows "\<exists>w'. run_call h call w = Some w' \<and> shown w' = shown w @ map (\<lambda>l. (l, True))
    (progress_lines h call 0 rs @ [final_reply h call (last rs) (accepted_after rs) (cursor_after rs)])"
  using assms by (rule undisturbed_call_reports)

lemma call_serves_witness:
  "\<exists>w'. run_call sample_mcp sample_call fresh_call = Some w' \<and>
     shown w' = [(Rpc_Progress ''t'' 1 ''reply'', True), (Rpc_Progress ''t'' 2 ''reply'', True),
       (Rpc_Result ''1'' ''reply'' False, True)]"
proof -
  obtain w' where "run_call sample_mcp sample_call fresh_call = Some w'"
    and "shown w' = shown fresh_call @ map (\<lambda>l. (l, True)) (progress_lines sample_mcp sample_call 0 sample_replies @
      [final_reply sample_mcp sample_call (last sample_replies) (accepted_after sample_replies) (cursor_after sample_replies)])"
    using call_serves [of sample_mcp fresh_call 0 1 sample_call "[9]" "[[0], [1]]" "[]" sample_replies] sample_call_premises
    by auto
  then show ?thesis
    by (simp add: sample_call_def final_reply_def reply_failed_def snapshot_failed_def sample_snapshot_def)
qed

text \<open>C34. A call returns when Message's side of its connection brings finitely many bytes: no stream
  of replies, cancellation or failing output keeps its thread for ever.\<close>

theorem call_returns:
  assumes "\<And>peer. env_connect (mcp_env h) (calls w) (mcp_socket h) = Inr peer \<Longrightarrow>
    feeds (mcp_env h) peer (bytes peer) (calls w)"
  shows "\<exists>w'. run_call h call w = Some w'"
proof -
  have conv: "\<exists>w'. converse h call peer v = Some w'"
    if "env_connect (mcp_env h) (calls w) (mcp_socket h) = Inr peer" "calls v = calls w @ ext" "taken peer ext = 0" for peer v ext
  proof -
    have "feeds (mcp_env h) peer (bytes peer) (calls v)"
      using feeds_later [OF assms [OF that(1)], of ext] that by simp
    from call_loop_returns [OF this, of call None None 0] show ?thesis by (auto simp: converse_def)
  qed
  show ?thesis
  proof (cases "run_call h call w")
    case None
    then obtain peer v where c: "env_connect (mcp_env h) (calls w) (mcp_socket h) = Inr peer" and n: "converse h call peer v = None"
      and e: "\<exists>ext. calls v = calls w @ ext \<and> taken peer ext = 0"
      by (auto simp: run_call_def load_cancelled_def Let_def mcp_connect_def mcp_send_def io_simps sys_connect_def
          sys_unit_def sys_clone_def write_all_def split: bool.splits sum.splits option.splits prod.splits)
    from e obtain ext where "calls v = calls w @ ext" "taken peer ext = 0" by blast
    from conv [OF c this] n show ?thesis by simp
  qed auto
qed

lemma call_returns_witness: "\<exists>w'. run_call sample_mcp sample_call fresh_call = Some w'"
  by (rule call_returns [of _ _ "\<lambda>_. two_frames"]) (use quiet_env_feeds [of two_frames _ "[]"] in simp)

end
