(* ===== verification/Mcp_Session.thy ===== *)
theory Mcp_Session imports Mcp_Call begin

text \<open>
  message-mcp-send/src/main.rs, the session: the \<open>Adapter\<close> that checks requests and the loop of
  \<open>Sender::run\<close> that reads lines, cancels calls, dispatches tool calls to worker threads, answers
  everything else and reaps finished workers. serde_json is a record of functions on a type of
  values; the threads are steps of a transition system that interleave with the loop's lines.
\<close>

section \<open>JSON\<close>

text \<open>\<open>js_text\<close> is \<open>Value::to_string\<close>, \<open>js_object\<close> the entries of an object, each key once.\<close>

record 'v json_api =
  js_null :: 'v
  js_get :: "'v \<Rightarrow> string \<Rightarrow> 'v option"
  js_pointer :: "'v \<Rightarrow> string \<Rightarrow> 'v option"
  js_is_string :: "'v \<Rightarrow> bool"
  js_is_number :: "'v \<Rightarrow> bool"
  js_str :: "'v \<Rightarrow> string option"
  js_i64 :: "'v \<Rightarrow> int option"
  js_object :: "'v \<Rightarrow> (string \<times> 'v) list option"
  js_text :: "'v \<Rightarrow> string"

record 'v session_host =
  sh_json :: "'v json_api"
  sh_parse :: "string \<Rightarrow> 'v option"
  sh_actualize :: "budget \<Rightarrow> string \<Rightarrow> string + query"

section \<open>The adapter\<close>

definition MAX_ACTIVE_CALLS :: nat where "MAX_ACTIVE_CALLS = 16"
definition MAX_SEEN_CALLS :: nat where "MAX_SEEN_CALLS = 65536"

record adapter =
  initialized :: bool
  ready :: bool
  seen_ids :: "string set"

definition new_adapter :: adapter where
  "new_adapter = \<lparr>initialized = False, ready = False, seen_ids = {}\<rparr>"

definition ok_or :: "'a option \<Rightarrow> 'e \<Rightarrow> 'e + 'a" where
  "ok_or x e = (case x of None \<Rightarrow> Inl e | Some a \<Rightarrow> Inr a)"

definition keep_if :: "('a \<Rightarrow> bool) \<Rightarrow> 'a option \<Rightarrow> 'a option" where
  "keep_if P x = (case x of Some a \<Rightarrow> if P a then Some a else None | None \<Rightarrow> None)"

text \<open>\<open>char::is_control\<close> on well-formed UTF-8: below U+0020, U+007F, and U+0080 to U+009F.\<close>

fun has_control :: "string \<Rightarrow> bool" where
  "has_control [] = False"
| "has_control (b # s) =
     (of_char b < (32 :: nat) \<or> of_char b = (127 :: nat) \<or>
      (of_char b = (0xC2 :: nat) \<and> (case s of [] \<Rightarrow> False | d # _ \<Rightarrow> 0x80 \<le> (of_char d :: nat) \<and> of_char d \<le> (0x9F :: nat))) \<or>
      has_control s)"

definition thread_id_ok :: "string \<Rightarrow> bool" where
  "thread_id_ok s \<longleftrightarrow> s \<noteq> [] \<and> length s \<le> 256 \<and> \<not> has_control s"

definition send_query :: "'v session_host \<Rightarrow> string \<Rightarrow> (string \<times> 'v) list \<Rightarrow> string + query" where
  "send_query h thread args =
     (if length args \<noteq> 1 \<or> map_of args ''query'' = None
      then Inl ''Send accepts only query; sender, process and thread are transport-owned''
      else sum_bind (ok_or (Option.bind (map_of args ''query'') (js_str (sh_json h))) ''query must be a Send datom'') (\<lambda>text.
           sum_bind (map_err (\<lambda>e. ''Invalid Send datom: '' @ e) (sh_actualize h query_budget text)) (\<lambda>q.
           case q of
             Send request \<Rightarrow> Inr (SendThread request thread)
           | _ \<Rightarrow> Inl ''Tool accepts Send only; no Configure or caller-supplied SendThread'')))"

definition observe_query :: "'v session_host \<Rightarrow> string \<Rightarrow> (string \<times> 'v) list \<Rightarrow> string + query" where
  "observe_query h thread args =
     (if length args > 1 \<or> list_ex (\<lambda>(k, _). k \<noteq> ''cursor'') args
      then Inl ''observe_sends accepts only an optional cursor''
      else sum_bind
             (case map_of args ''cursor'' of
                None \<Rightarrow> Inr None
              | Some v \<Rightarrow> (case js_i64 (sh_json h) v of
                    None \<Rightarrow> Inl ''cursor must be an integer'' | Some c \<Rightarrow> Inr (Some c)))
             (\<lambda>cursor. Inr (ObserveThread cursor thread)))"

definition thread_query :: "'v session_host \<Rightarrow> 'v \<Rightarrow> string + query" where
  "thread_query h params =
     (let js = sh_json h in
      sum_bind (ok_or (Option.bind (js_get js params ''name'') (js_str js)) ''Missing tool name'') (\<lambda>name.
      sum_bind (ok_or (Option.bind (js_get js params ''arguments'') (js_object js)) ''Missing arguments'') (\<lambda>args.
      sum_bind (ok_or (keep_if thread_id_ok (Option.bind (js_pointer js params ''/_meta/threadId'') (js_str js)))
                 ''Missing or invalid harness-stamped _meta.threadId'') (\<lambda>thread.
      if name = ''send'' then send_query h thread args
      else if name = ''observe_sends'' then observe_query h thread args
      else Inl ''Unknown tool''))))"

definition is_id :: "'v json_api \<Rightarrow> 'v \<Rightarrow> bool" where
  "is_id js v \<longleftrightarrow> js_is_string js v \<or> js_is_number js v"

definition check_call :: "'v session_host \<Rightarrow> adapter \<Rightarrow> 'v \<Rightarrow> 'v rpc + 'v call_request" where
  "check_call h ad input =
     (let js = sh_json h in
      sum_bind (ok_or (keep_if (is_id js) (js_get js input ''id''))
                 (Rpc_Error (js_null js) (- 32600) ''Invalid request id'')) (\<lambda>i.
      let key = js_text js i in
      if key \<in> seen_ids ad then Inl (Rpc_Error i (- 32600) ''Request id has already been used'')
      else if card (seen_ids ad) \<ge> MAX_SEEN_CALLS
      then Inl (Rpc_Error i (- 32000) ''Session request-id limit reached; restart this MCP process'')
      else if \<not> ready ad then Inl (Rpc_Error i (- 32002) ''MCP initialization is incomplete'')
      else (let params = (case js_get js input ''params'' of Some p \<Rightarrow> p | None \<Rightarrow> js_null js) in
        sum_bind (ok_or (keep_if (is_id js) (js_pointer js params ''/_meta/progressToken''))
                   (Rpc_Error i (- 32602) ''Send requires _meta.progressToken so delivery status can be streamed'')) (\<lambda>token.
        sum_bind (map_err (\<lambda>m. Rpc_Error i (- 32602) m) (thread_query h params)) (\<lambda>q.
        Inr \<lparr>call_id = i, call_key = key, call_token = token, call_query = q\<rparr>)))))"

text \<open>\<open>Adapter::call_request\<close> records the id only of a request that passes every check.\<close>

definition admit_call :: "'v session_host \<Rightarrow> adapter \<Rightarrow> 'v \<Rightarrow> ('v rpc + 'v call_request) \<times> adapter" where
  "admit_call h ad input =
     (case check_call h ad input of
        Inl r \<Rightarrow> (Inl r, ad)
      | Inr call \<Rightarrow> (Inr call, ad\<lparr>seen_ids := insert (call_key call) (seen_ids ad)\<rparr>))"

definition method_of :: "'v json_api \<Rightarrow> 'v \<Rightarrow> string option" where
  "method_of js input = Option.bind (js_get js input ''method'') (js_str js)"

definition synchronous :: "'v session_host \<Rightarrow> adapter \<Rightarrow> 'v \<Rightarrow> 'v rpc option \<times> adapter" where
  "synchronous h ad input =
     (let js = sh_json h; rpc_id = js_get js input ''id''; method = method_of js input in
      if Option.bind (js_get js input ''jsonrpc'') (js_str js) \<noteq> Some ''2.0''
      then (Some (Rpc_Error (case rpc_id of Some i \<Rightarrow> i | None \<Rightarrow> js_null js) (- 32600) ''Invalid Request''), ad)
      else (case rpc_id of
          None \<Rightarrow>
            (None, if method = Some ''notifications/initialized'' \<and> initialized ad then ad\<lparr>ready := True\<rparr> else ad)
        | Some i \<Rightarrow>
            if \<not> is_id js i then (Some (Rpc_Error (js_null js) (- 32600) ''Invalid request id''), ad)
            else if method = Some ''initialize'' \<and> \<not> initialized ad
            then (Some (Rpc_Initialize i), ad\<lparr>initialized := True\<rparr>)
            else if method = Some ''ping'' then (Some (Rpc_Empty i), ad)
            else if \<not> ready ad then (Some (Rpc_Error i (- 32002) ''MCP initialization is incomplete''), ad)
            else if method = Some ''tools/list'' then (Some (Rpc_Tools i), ad)
            else if method = Some ''tools/call'' then (None, ad)
            else (Some (Rpc_Error i (- 32601) ''Method not found''), ad)))"

section \<open>The loop\<close>

text \<open>
  An active call: the connection its worker registered, its flag, and whether its worker has
  found the flag clear after registering (\<open>run_call\<close> then sends the query).
\<close>

record active_call =
  act_observer :: "stream option"
  act_cancelled :: bool
  act_checked :: bool

text \<open>
  Beside the adapter, the flag and the table, a session has the handles of its workers, those
  already joined, the calls dispatched so far, the lines the loop wrote and the connections
  that were shut down.
\<close>

record 'v session =
  s_adapter :: adapter
  s_alive :: bool
  s_active :: "string \<Rightarrow> active_call option"
  s_workers :: "string list"
  s_joined :: "string list"
  s_dispatched :: "'v call_request list"
  s_shown :: "('v rpc \<times> bool) list"
  s_shut :: "stream list"

definition new_session :: "'v session" where
  "new_session = \<lparr>s_adapter = new_adapter, s_alive = True, s_active = Map.empty, s_workers = [], s_joined = [],
     s_dispatched = [], s_shown = [], s_shut = []\<rparr>"

datatype 'v line = Eof | Oversized_Line | Read_Error | Unparsable | Parsed 'v

text \<open>One \<open>read_line\<close> through \<open>take(MAX_LINE + 1)\<close>; \<open>None\<close> is an error of the input.\<close>

definition classify :: "'v session_host \<Rightarrow> string option \<Rightarrow> 'v line" where
  "classify h raw =
     (case raw of
        None \<Rightarrow> Read_Error
      | Some line \<Rightarrow>
          if line = [] then Eof
          else if length line > MAX_LINE then Oversized_Line
          else (case sh_parse h line of None \<Rightarrow> Unparsable | Some v \<Rightarrow> Parsed v))"

text \<open>Write a line; the session goes on when the output took it.\<close>

definition write_or_stop :: "('v rpc \<Rightarrow> bool) \<Rightarrow> 'v rpc \<Rightarrow> 'v session \<Rightarrow> 'v session \<times> bool" where
  "write_or_stop writable r s =
     (let s' = s\<lparr>s_shown := s_shown s @ [(r, writable r)]\<rparr>
      in if writable r then (s', True) else (s'\<lparr>s_alive := False\<rparr>, False))"

definition shut_observer :: "active_call \<Rightarrow> stream list" where
  "shut_observer a = (case act_observer a of None \<Rightarrow> [] | Some o' \<Rightarrow> [o'])"

definition cancel_call :: "string option \<Rightarrow> 'v session \<Rightarrow> 'v session" where
  "cancel_call request s =
     (case Option.bind request (s_active s) of
        None \<Rightarrow> s
      | Some a \<Rightarrow> s\<lparr>s_active := (s_active s)(the request \<mapsto> a\<lparr>act_cancelled := True\<rparr>),
                       s_shut := s_shut s @ shut_observer a\<rparr>)"

definition spawn_call :: "'v call_request \<Rightarrow> 'v session \<Rightarrow> 'v session" where
  "spawn_call call s =
     s\<lparr>s_active := (s_active s)(call_key call \<mapsto> \<lparr>act_observer = None, act_cancelled = False, act_checked = False\<rparr>),
       s_workers := s_workers s @ [call_key call], s_dispatched := s_dispatched s @ [call]\<rparr>"

text \<open>The reaping of workers: the loop of the listener, on \<open>finished\<close> as the loop finds it.\<close>

definition reap_session :: "(string \<Rightarrow> bool) \<Rightarrow> 'v session \<Rightarrow> 'v session" where
  "reap_session finished s =
     (case reap finished (s_workers s) 0 [] of
        None \<Rightarrow> s
      | Some (ws, joined) \<Rightarrow> s\<lparr>s_workers := ws, s_joined := s_joined s @ joined\<rparr>)"

definition session_line ::
  "'v session_host \<Rightarrow> (string \<Rightarrow> bool) \<Rightarrow> ('v rpc \<Rightarrow> bool) \<Rightarrow> string option \<Rightarrow> 'v session \<Rightarrow> 'v session \<times> bool" where
  "session_line h finished writable raw s =
     (let js = sh_json h in
      case classify h raw of
        Eof \<Rightarrow> (s\<lparr>s_alive := False\<rparr>, False)
      | Oversized_Line \<Rightarrow> (s, False)
      | Read_Error \<Rightarrow> (s\<lparr>s_alive := False\<rparr>, False)
      | Unparsable \<Rightarrow> write_or_stop writable (Rpc_Error (js_null js) (- 32700) ''Parse error'') s
      | Parsed input \<Rightarrow>
          if method_of js input = Some ''notifications/cancelled''
          then (cancel_call (map_option (js_text js) (js_pointer js input ''/params/requestId'')) s, True)
          else if method_of js input = Some ''tools/call''
          then (case admit_call h (s_adapter s) input of
                  (Inl response, ad) \<Rightarrow> write_or_stop writable response (s\<lparr>s_adapter := ad\<rparr>)
                | (Inr call, ad) \<Rightarrow>
                    (let s1 = s\<lparr>s_adapter := ad\<rparr> in
                     if card (dom (s_active s1)) \<ge> MAX_ACTIVE_CALLS
                     then write_or_stop writable (Rpc_Error (call_id call) (- 32000) ''Too many active Send observers'') s1
                     else (reap_session finished (spawn_call call s1), True)))
          else (case synchronous h (s_adapter s) input of
                  (None, ad) \<Rightarrow> (reap_session finished (s\<lparr>s_adapter := ad\<rparr>), True)
                | (Some response, ad) \<Rightarrow>
                    (case write_or_stop writable response (s\<lparr>s_adapter := ad\<rparr>) of
                       (s', True) \<Rightarrow> (reap_session finished s', True)
                     | (s', False) \<Rightarrow> (s', False))))"

text \<open>After the loop: every active call is cancelled, its connection shut, every worker joined.\<close>

definition close_session :: "string list \<Rightarrow> 'v session \<Rightarrow> 'v session" where
  "close_session order s =
     s\<lparr>s_alive := False,
       s_active := (\<lambda>k. map_option (\<lambda>a. a\<lparr>act_cancelled := True\<rparr>) (s_active s k)),
       s_shut := s_shut s @ concat (map (\<lambda>k. case s_active s k of None \<Rightarrow> [] | Some a \<Rightarrow> shut_observer a) order),
       s_workers := [], s_joined := s_joined s @ s_workers s\<rparr>"

text \<open>The socket of \<open>main\<close>: the same choice as the command-line client makes.\<close>

definition sender_socket :: "string option \<Rightarrow> surroundings \<Rightarrow> string" where
  "sender_socket MESSAGE_SOCKET e =
     (case env_var MESSAGE_SOCKET of
        Some s \<Rightarrow> s
      | None \<Rightarrow> utf8_lossy (ordinary_socket_path (from_environment e)))"

lemma sender_socket_client: "sender_socket = message_client_socket"
  by (simp add: fun_eq_iff sender_socket_def message_client_socket_def)

section \<open>The session as a transition system\<close>

text \<open>
  The loop takes a line; between two lines any worker may register its connection, find its
  flag clear, lose the output (it then sets both flags and shuts its connection) or leave.
\<close>

inductive session_step :: "'v session_host \<Rightarrow> 'v session \<Rightarrow> 'v session \<Rightarrow> bool" for h where
  line: "session_line h finished writable raw s = (s', True) \<Longrightarrow> session_step h s s'"
| registered: "s_active s k = Some a \<Longrightarrow> act_observer a = None \<Longrightarrow>
    session_step h s (s\<lparr>s_active := (s_active s)(k \<mapsto> a\<lparr>act_observer := Some c\<rparr>)\<rparr>)"
| checked: "s_active s k = Some a \<Longrightarrow> act_observer a = Some c \<Longrightarrow> \<not> act_cancelled a \<Longrightarrow>
    session_step h s (s\<lparr>s_active := (s_active s)(k \<mapsto> a\<lparr>act_checked := True\<rparr>)\<rparr>)"
| output_lost: "s_active s k = Some a \<Longrightarrow> act_observer a = Some c \<Longrightarrow>
    session_step h s (s\<lparr>s_alive := False, s_active := (s_active s)(k \<mapsto> a\<lparr>act_cancelled := True\<rparr>),
      s_shut := s_shut s @ [c]\<rparr>)"
| left_call: "s_active s k = Some a \<Longrightarrow> session_step h s (s\<lparr>s_active := (s_active s)(k := None)\<rparr>)"

inductive session_reach :: "'v session_host \<Rightarrow> 'v session \<Rightarrow> bool" for h where
  start: "session_reach h new_session"
| further: "session_reach h s \<Longrightarrow> session_step h s s' \<Longrightarrow> session_reach h s'"

text \<open>The parts of the invariant: the adapter, the table, the workers, the cancelled calls.\<close>

definition adapter_ok :: "adapter \<Rightarrow> bool" where
  "adapter_ok ad \<longleftrightarrow> finite (seen_ids ad) \<and> card (seen_ids ad) \<le> MAX_SEEN_CALLS \<and> (ready ad \<longrightarrow> initialized ad)"

definition table_ok :: "'v session \<Rightarrow> bool" where
  "table_ok s \<longleftrightarrow> finite (dom (s_active s)) \<and> card (dom (s_active s)) \<le> MAX_ACTIVE_CALLS \<and>
     dom (s_active s) \<subseteq> set (map call_key (s_dispatched s))"

definition dispatch_ok :: "'v session \<Rightarrow> bool" where
  "dispatch_ok s \<longleftrightarrow> distinct (map call_key (s_dispatched s)) \<and>
     set (map call_key (s_dispatched s)) \<subseteq> seen_ids (s_adapter s) \<and>
     (s_dispatched s \<noteq> [] \<longrightarrow> ready (s_adapter s)) \<and>
     mset (s_workers s) + mset (s_joined s) = mset (map call_key (s_dispatched s))"

definition cancels_ok :: "'v session \<Rightarrow> bool" where
  "cancels_ok s \<longleftrightarrow> (\<forall>k a. s_active s k = Some a \<longrightarrow>
     (act_checked a \<longrightarrow> act_observer a \<noteq> None) \<and>
     (act_checked a \<and> act_cancelled a \<longrightarrow> (\<exists>c. act_observer a = Some c \<and> c \<in> set (s_shut s))))"

definition session_ok :: "'v session \<Rightarrow> bool" where
  "session_ok s \<longleftrightarrow> adapter_ok (s_adapter s) \<and> table_ok s \<and> dispatch_ok s \<and> cancels_ok s"

lemmas session_ok_defs = session_ok_def adapter_ok_def table_ok_def dispatch_ok_def cancels_ok_def

text \<open>What a request can do to the adapter.\<close>

definition adapter_grows :: "adapter \<Rightarrow> adapter \<Rightarrow> bool" where
  "adapter_grows ad ad' \<longleftrightarrow> seen_ids ad \<subseteq> seen_ids ad' \<and> (ready ad \<longrightarrow> ready ad') \<and> (adapter_ok ad \<longrightarrow> adapter_ok ad')"

lemma check_call_Inr:
  assumes "check_call h ad input = Inr call"
  shows "call_key call \<notin> seen_ids ad" and "card (seen_ids ad) < MAX_SEEN_CALLS" and "ready ad"
    and "\<exists>params. thread_query h params = Inr (call_query call)"
    and "js_get (sh_json h) input ''id'' = Some (call_id call)" and "call_key call = js_text (sh_json h) (call_id call)"
  using assms by (auto simp: check_call_def Let_def sum_bind_Inr_iff ok_or_def keep_if_def split: option.splits if_splits)

lemma admit_call_adapter:
  assumes "admit_call h ad input = (x, ad')"
  shows "case x of Inl r \<Rightarrow> ad' = ad
    | Inr call \<Rightarrow> adapter_grows ad ad' \<and> call_key call \<notin> seen_ids ad \<and> call_key call \<in> seen_ids ad' \<and> ready ad'"
proof (cases "check_call h ad input")
  case (Inl r)
  with assms have "x = Inl r" and "ad' = ad" by (auto simp: admit_call_def)
  then show ?thesis by simp
next
  case (Inr call)
  with assms have x: "x = Inr call" "ad' = ad\<lparr>seen_ids := insert (call_key call) (seen_ids ad)\<rparr>"
    by (auto simp: admit_call_def)
  from check_call_Inr(1-3) [OF Inr] show ?thesis
    by (auto simp: x adapter_grows_def adapter_ok_def card_insert_if)
qed

lemma synchronous_adapter:
  "synchronous h ad input = (x, ad') \<Longrightarrow> adapter_grows ad ad' \<and> seen_ids ad' = seen_ids ad"
  by (auto simp: synchronous_def Let_def adapter_grows_def adapter_ok_def split: option.splits if_splits)

text \<open>What the pieces of a line keep.\<close>

lemma write_or_stop_state:
  assumes "write_or_stop writable r s = (s', b)"
  shows "s_adapter s' = s_adapter s" and "s_active s' = s_active s" and "s_workers s' = s_workers s"
    and "s_joined s' = s_joined s" and "s_dispatched s' = s_dispatched s" and "s_shut s' = s_shut s"
    and "s_shown s' = s_shown s @ [(r, b)]" and "b = writable r"
  using assms by (auto simp: write_or_stop_def Let_def split: if_splits)

lemma session_ok_write: "write_or_stop writable r s = (s', b) \<Longrightarrow> session_ok s \<Longrightarrow> session_ok s'"
  using write_or_stop_state [of writable r s s' b] by (simp add: session_ok_defs)

lemma session_ok_alive [simp]: "session_ok (s\<lparr>s_alive := b\<rparr>) = session_ok s"
  by (simp add: session_ok_defs)

lemma session_ok_adapter:
  assumes "session_ok s" and "adapter_grows (s_adapter s) ad"
  shows "session_ok (s\<lparr>s_adapter := ad\<rparr>)"
  using assms unfolding session_ok_def by (auto simp: adapter_grows_def table_ok_def dispatch_ok_def cancels_ok_def)

lemma reap_session_state:
  "s_adapter (reap_session f s) = s_adapter s" "s_active (reap_session f s) = s_active s"
  "s_dispatched (reap_session f s) = s_dispatched s" "s_shut (reap_session f s) = s_shut s"
  "s_shown (reap_session f s) = s_shown s" "s_alive (reap_session f s) = s_alive s"
  "mset (s_workers (reap_session f s)) + mset (s_joined (reap_session f s)) = mset (s_workers s) + mset (s_joined s)"
  using reap_partition [of f "s_workers s" 0 "[]"]
  by (auto simp: reap_session_def split: option.splits)

interpretation ses: crew "\<lambda>s. mset (s_workers s)" "\<lambda>s. mset (s_joined s)" "\<lambda>s. mset (map call_key (s_dispatched s))"
  spawn_call "\<lambda>call _. call_key call" reap_session "close_session order" for order
  by unfold_locales (simp_all add: spawn_call_def reap_session_state close_session_def)

lemma session_ok_reap: "session_ok s \<Longrightarrow> session_ok (reap_session f s)"
  by (simp add: session_ok_defs reap_session_state)

text \<open>An entry of the table may change to one that keeps the law of a cancelled call.\<close>

lemma session_ok_entry:
  assumes "session_ok s" and "s_active s k = Some a"
    and "act_checked a' \<longrightarrow> act_observer a' \<noteq> None"
    and "act_checked a' \<and> act_cancelled a' \<longrightarrow> (\<exists>c. act_observer a' = Some c \<and> c \<in> set (s_shut s @ shut))"
  shows "session_ok (s\<lparr>s_active := (s_active s)(k \<mapsto> a'), s_shut := s_shut s @ shut\<rparr>)"
proof -
  let ?s = "s\<lparr>s_active := (s_active s)(k \<mapsto> a'), s_shut := s_shut s @ shut\<rparr>"
  have "dom (s_active ?s) = dom (s_active s)" using assms(2) by auto
  moreover have "cancels_ok ?s"
    using assms(1,3,4) unfolding cancels_ok_def session_ok_def by (simp del: not_None_eq) blast
  ultimately show ?thesis using assms(1) by (simp add: session_ok_def table_ok_def dispatch_ok_def)
qed

lemma entry_observed:
  assumes "session_ok s" and "s_active s k = Some a"
  shows "act_checked a \<Longrightarrow> act_observer a \<noteq> None"
    and "act_checked a \<Longrightarrow> act_cancelled a \<Longrightarrow> \<exists>c. act_observer a = Some c \<and> c \<in> set (s_shut s)"
  using assms unfolding session_ok_def cancels_ok_def by blast+

lemma session_ok_cancel: "session_ok s \<Longrightarrow> session_ok (cancel_call request s)"
proof (cases "Option.bind request (s_active s)")
  case None
  then show "session_ok s \<Longrightarrow> ?thesis" by (simp add: cancel_call_def)
next
  case (Some a)
  then obtain k where k: "request = Some k" "s_active s k = Some a" by (cases request) auto
  assume ok: "session_ok s"
  have "session_ok (s\<lparr>s_active := (s_active s)(k \<mapsto> a\<lparr>act_cancelled := True\<rparr>), s_shut := s_shut s @ shut_observer a\<rparr>)"
  proof (rule session_ok_entry [OF ok k(2)])
    show "act_checked (a\<lparr>act_cancelled := True\<rparr>) \<longrightarrow> act_observer (a\<lparr>act_cancelled := True\<rparr>) \<noteq> None"
      using entry_observed(1) [OF ok k(2)] by simp
    then show "act_checked (a\<lparr>act_cancelled := True\<rparr>) \<and> act_cancelled (a\<lparr>act_cancelled := True\<rparr>) \<longrightarrow>
      (\<exists>c. act_observer (a\<lparr>act_cancelled := True\<rparr>) = Some c \<and> c \<in> set (s_shut s @ shut_observer a))"
      by (auto simp: shut_observer_def)
  qed
  then show ?thesis using k by (simp add: cancel_call_def)
qed

lemma session_ok_spawn:
  assumes "session_ok s" and "card (dom (s_active s)) < MAX_ACTIVE_CALLS" and "call_key call \<in> seen_ids (s_adapter s)"
    and "call_key call \<notin> set (map call_key (s_dispatched s))" and "ready (s_adapter s)"
  shows "session_ok (spawn_call call s)"
proof -
  have "dom (s_active (spawn_call call s)) = insert (call_key call) (dom (s_active s))" by (simp add: spawn_call_def)
  moreover have "card (insert (call_key call) (dom (s_active s))) \<le> MAX_ACTIVE_CALLS"
    using assms(1,2) by (simp add: session_ok_def table_ok_def card_insert_if)
  ultimately have "table_ok (spawn_call call s)"
    using assms(1) by (auto simp: session_ok_def table_ok_def spawn_call_def)
  moreover have "dispatch_ok (spawn_call call s)"
    using assms ses.none_lost_hire [of s call] by (auto simp: session_ok_def dispatch_ok_def spawn_call_def)
  moreover have "cancels_ok (spawn_call call s)"
    using assms(1) by (auto simp: session_ok_def cancels_ok_def spawn_call_def)
  ultimately show ?thesis using assms(1) by (simp add: session_ok_def spawn_call_def)
qed

text \<open>What a line does, by its method: a tool call is refused, too many, or started.\<close>

lemma session_line_call:
  assumes "classify h raw = Parsed input" and "method_of (sh_json h) input = Some ''tools/call''"
    and "session_line h finished writable raw s = (s', on)"
  obtains (refused) r where "check_call h (s_adapter s) input = Inl r" and "write_or_stop writable r s = (s', on)"
  | (busy) call ad where "check_call h (s_adapter s) input = Inr call" and "admit_call h (s_adapter s) input = (Inr call, ad)"
      and "write_or_stop writable (Rpc_Error (call_id call) (- 32000) ''Too many active Send observers'')
        (s\<lparr>s_adapter := ad\<rparr>) = (s', on)"
  | (started) call ad where "check_call h (s_adapter s) input = Inr call" and "admit_call h (s_adapter s) input = (Inr call, ad)"
      and "card (dom (s_active s)) < MAX_ACTIVE_CALLS" and "s' = reap_session finished (spawn_call call (s\<lparr>s_adapter := ad\<rparr>))" and on
proof -
  have m: "method_of (sh_json h) input \<noteq> Some ''notifications/cancelled''" using assms(2) by simp
  show thesis
  proof (cases "check_call h (s_adapter s) input")
    case (Inl r)
    then have "admit_call h (s_adapter s) input = (Inl r, s_adapter s)" by (simp add: admit_call_def)
    with assms m have "write_or_stop writable r (s\<lparr>s_adapter := s_adapter s\<rparr>) = (s', on)" by (simp add: session_line_def Let_def)
    with Inl show thesis by (intro refused) simp_all
  next
    case (Inr call)
    then obtain ad where ad: "admit_call h (s_adapter s) input = (Inr call, ad)" by (simp add: admit_call_def)
    show thesis
    proof (cases "card (dom (s_active s)) \<ge> MAX_ACTIVE_CALLS")
      case True
      with assms m ad show thesis by (intro busy [OF Inr ad]) (simp add: session_line_def Let_def)
    next
      case False
      with assms m ad show thesis by (intro started [OF Inr ad]) (simp_all add: session_line_def Let_def)
    qed
  qed
qed

lemma session_call_ok:
  assumes "session_ok s" and "classify h raw = Parsed input" and "method_of (sh_json h) input = Some ''tools/call''"
    and "session_line h finished writable raw s = (s', on)"
  shows "session_ok s'"
  using assms(2-4)
proof (cases rule: session_line_call)
  case (refused r)
  then show ?thesis using session_ok_write assms(1) by blast
next
  case (busy call ad)
  with admit_call_adapter [OF busy(2)] session_ok_adapter [OF assms(1)] show ?thesis
    using session_ok_write [OF busy(3)] by simp
next
  case (started call ad)
  from admit_call_adapter [OF started(2)] have g: "adapter_grows (s_adapter s) ad" "call_key call \<notin> seen_ids (s_adapter s)"
    "call_key call \<in> seen_ids ad" "ready ad" by simp_all
  have "session_ok (spawn_call call (s\<lparr>s_adapter := ad\<rparr>))"
    using session_ok_adapter [OF assms(1) g(1)] started(3) g assms(1)
    by (intro session_ok_spawn) (auto simp: session_ok_def dispatch_ok_def)
  then show ?thesis unfolding started(4) by (rule session_ok_reap)
qed

lemma session_other_ok:
  assumes "session_ok s" and "classify h raw = Parsed input" and "method_of (sh_json h) input \<noteq> Some ''notifications/cancelled''"
    and "method_of (sh_json h) input \<noteq> Some ''tools/call''" and "session_line h finished writable raw s = (s', on)"
  shows "session_ok s'"
proof -
  obtain x ad where sy: "synchronous h (s_adapter s) input = (x, ad)" by fastforce
  then have ok1: "session_ok (s\<lparr>s_adapter := ad\<rparr>)"
    using session_ok_adapter [OF assms(1)] synchronous_adapter by fast
  show ?thesis
  proof (cases x)
    case None
    with assms sy ok1 show ?thesis by (auto simp: session_line_def Let_def session_ok_reap)
  next
    case (Some r)
    obtain s2 b2 where w: "write_or_stop writable r (s\<lparr>s_adapter := ad\<rparr>) = (s2, b2)" by fastforce
    with session_ok_write ok1 have "session_ok s2" by blast
    with assms sy Some w show ?thesis by (cases b2) (auto simp: session_line_def Let_def session_ok_reap)
  qed
qed

lemma session_line_ok:
  assumes "session_ok s" and "session_line h finished writable raw s = (s', on)"
  shows "session_ok s'"
proof (cases "classify h raw")
  case (Parsed input)
  show ?thesis
  proof (cases "method_of (sh_json h) input = Some ''notifications/cancelled''")
    case True
    with assms Parsed show ?thesis by (auto simp: session_line_def Let_def session_ok_cancel)
  next
    case False
    with session_call_ok [OF assms(1) Parsed _ assms(2)] session_other_ok [OF assms(1) Parsed False _ assms(2)]
    show ?thesis by blast
  qed
next
  case Unparsable
  with assms session_ok_write show ?thesis by (auto simp: session_line_def Let_def)
qed (use assms in \<open>auto simp: session_line_def Let_def\<close>)

lemma session_step_ok:
  assumes "session_step h s s'" and "session_ok s"
  shows "session_ok s'"
  using assms(1)
proof cases
  case (line finished writable raw)
  with assms(2) session_line_ok show ?thesis by blast
next
  case (registered k a c)
  from session_ok_entry [OF assms(2) registered(2), of "a\<lparr>act_observer := Some c\<rparr>" "[]"]
    entry_observed(1) [OF assms(2) registered(2)] registered show ?thesis by auto
next
  case (checked k a c)
  from session_ok_entry [OF assms(2) checked(2), of "a\<lparr>act_checked := True\<rparr>" "[]"] checked show ?thesis by simp
next
  case (output_lost k a c)
  from session_ok_entry [OF assms(2) output_lost(2), of "a\<lparr>act_cancelled := True\<rparr>" "[c]"] output_lost
  have ok: "session_ok (s\<lparr>s_active := (s_active s)(k \<mapsto> a\<lparr>act_cancelled := True\<rparr>), s_shut := s_shut s @ [c]\<rparr>)"
    by simp
  have "s' = (s\<lparr>s_active := (s_active s)(k \<mapsto> a\<lparr>act_cancelled := True\<rparr>), s_shut := s_shut s @ [c]\<rparr>)\<lparr>s_alive := False\<rparr>"
    using output_lost by simp
  then show ?thesis using ok by (simp only: session_ok_alive)
next
  case (left_call k a)
  have f: "finite (dom (s_active s))" using assms(2) by (simp add: session_ok_def table_ok_def)
  have "card (dom (s_active s) - {k}) \<le> card (dom (s_active s))" using f by (intro card_mono) auto
  with assms(2) have "table_ok s'" unfolding left_call(1) by (auto simp: session_ok_def table_ok_def)
  moreover have "cancels_ok s'" "dispatch_ok s'" "adapter_ok (s_adapter s')"
    using assms(2) unfolding left_call(1) by (auto simp: session_ok_def cancels_ok_def dispatch_ok_def)
  ultimately show ?thesis by (simp add: session_ok_def)
qed

lemma session_reach_ok: "session_reach h s \<Longrightarrow> session_ok s"
proof (induction rule: session_reach.induct)
  case start
  show ?case by (simp add: session_ok_defs new_session_def new_adapter_def)
next
  case (further s s')
  then show ?case by (blast intro: session_step_ok)
qed

section \<open>What a session guarantees\<close>

text \<open>Values for witnesses: plain JSON, a session's requests and the states they lead to.\<close>

datatype json = J_Null | J_Int int | J_Str string | J_Obj "(string \<times> json) list"

fun json_get :: "json \<Rightarrow> string \<Rightarrow> json option" where
  "json_get (J_Obj kvs) k = map_of kvs k"
| "json_get _ _ = None"

definition plain_json :: "json json_api" where
  "plain_json = \<lparr>js_null = J_Null, js_get = json_get,
     js_pointer = (\<lambda>v p. fold (\<lambda>k v'. Option.bind v' (\<lambda>x. json_get x k))
       (if p = ''/_meta/threadId'' then [''_meta'', ''threadId'']
        else if p = ''/_meta/progressToken'' then [''_meta'', ''progressToken''] else [''params'', ''requestId'']) (Some v)),
     js_is_string = (\<lambda>v. case v of J_Str _ \<Rightarrow> True | _ \<Rightarrow> False),
     js_is_number = (\<lambda>v. case v of J_Int _ \<Rightarrow> True | _ \<Rightarrow> False),
     js_str = (\<lambda>v. case v of J_Str s \<Rightarrow> Some s | _ \<Rightarrow> None),
     js_i64 = (\<lambda>v. case v of J_Int n \<Rightarrow> Some n | _ \<Rightarrow> None),
     js_object = (\<lambda>v. case v of J_Obj kvs \<Rightarrow> Some kvs | _ \<Rightarrow> None),
     js_text = (\<lambda>v. case v of J_Str s \<Rightarrow> s | _ \<Rightarrow> ''null'')\<rparr>"

abbreviation json_request :: "string \<Rightarrow> json \<Rightarrow> json" where
  "json_request method params \<equiv>
     J_Obj [(''jsonrpc'', J_Str ''2.0''), (''id'', J_Str ''i''), (''method'', J_Str method), (''params'', params)]"

abbreviation json_send :: json where
  "json_send \<equiv> J_Obj [(''name'', J_Str ''send''), (''arguments'', J_Obj [(''query'', J_Str ''(Send)'')]),
     (''_meta'', J_Obj [(''threadId'', J_Str ''t''), (''progressToken'', J_Str ''p'')])]"

definition sample_session :: "json session_host" where
  "sample_session = \<lparr>sh_json = plain_json,
     sh_parse = (\<lambda>line.
       if line = ''init'' then Some (json_request ''initialize'' J_Null)
       else if line = ''inited'' then Some (J_Obj [(''jsonrpc'', J_Str ''2.0''), (''method'', J_Str ''notifications/initialized'')])
       else if line = ''call'' then Some (json_request ''tools/call'' json_send)
       else if line = ''cancel'' then Some (J_Obj [(''method'', J_Str ''notifications/cancelled''),
         (''params'', J_Obj [(''requestId'', J_Str ''i'')])])
       else None),
     sh_actualize = (\<lambda>_ _. Inr (Send (sample_request (Soft (Question ''q'')))))\<rparr>"

definition sample_json_call :: "json call_request" where
  "sample_json_call = \<lparr>call_id = J_Str ''i'', call_key = ''i'', call_token = J_Str ''p'',
     call_query = SendThread (sample_request (Soft (Question ''q''))) ''t''\<rparr>"

lemma plain_json_simps [simp]:
  "js_null plain_json = J_Null" "js_get plain_json = json_get" "js_str plain_json (J_Str s) = Some s"
  "js_is_string plain_json (J_Str s)" "js_text plain_json (J_Str s) = s" "js_object plain_json (J_Obj kvs) = Some kvs"
  "js_pointer plain_json v ''/_meta/threadId'' = Option.bind (json_get v ''_meta'') (\<lambda>x. json_get x ''threadId'')"
  "js_pointer plain_json v ''/_meta/progressToken'' = Option.bind (json_get v ''_meta'') (\<lambda>x. json_get x ''progressToken'')"
  "js_pointer plain_json v ''/params/requestId'' = Option.bind (json_get v ''params'') (\<lambda>x. json_get x ''requestId'')"
  by (simp_all add: plain_json_def)

lemma sample_session_simps [simp]:
  "sh_json sample_session = plain_json"
  "sh_actualize sample_session b t = Inr (Send (sample_request (Soft (Question ''q''))))"
  by (simp_all add: sample_session_def)

lemma sample_thread_query:
  "thread_query sample_session json_send = Inr (call_query sample_json_call)"
  by (simp add: thread_query_def send_query_def ok_or_def keep_if_def thread_id_ok_def sample_json_call_def map_err_def)

lemma sample_check_call:
  "check_call sample_session ad (json_request ''tools/call'' json_send) =
     (if ''i'' \<in> seen_ids ad then Inl (Rpc_Error (J_Str ''i'') (- 32600) ''Request id has already been used'')
      else if card (seen_ids ad) \<ge> MAX_SEEN_CALLS
      then Inl (Rpc_Error (J_Str ''i'') (- 32000) ''Session request-id limit reached; restart this MCP process'')
      else if \<not> ready ad then Inl (Rpc_Error (J_Str ''i'') (- 32002) ''MCP initialization is incomplete'')
      else Inr sample_json_call)"
  using sample_thread_query
  by (simp add: check_call_def Let_def ok_or_def keep_if_def is_id_def sample_json_call_def map_err_def)

lemma sample_lines:
  "classify sample_session (Some ''init'') = Parsed (json_request ''initialize'' J_Null)"
  "classify sample_session (Some ''inited'') =
     Parsed (J_Obj [(''jsonrpc'', J_Str ''2.0''), (''method'', J_Str ''notifications/initialized'')])"
  "classify sample_session (Some ''call'') = Parsed (json_request ''tools/call'' json_send)"
  "classify sample_session (Some ''cancel'') = Parsed (J_Obj [(''method'', J_Str ''notifications/cancelled''),
     (''params'', J_Obj [(''requestId'', J_Str ''i'')])])"
  by (simp_all add: classify_def sample_session_def MAX_LINE_def)

abbreviation ready_session :: "json session" where
  "ready_session \<equiv> new_session\<lparr>s_adapter := \<lparr>initialized = True, ready = True, seen_ids = {}\<rparr>,
     s_shown := [(Rpc_Initialize (J_Str ''i''), True)]\<rparr>"

abbreviation busy_session :: "active_call \<Rightarrow> json session" where
  "busy_session a \<equiv> new_session\<lparr>s_adapter := \<lparr>initialized = True, ready = True, seen_ids = {''i''}\<rparr>,
     s_shown := [(Rpc_Initialize (J_Str ''i''), True)], s_active := [''i'' \<mapsto> a], s_workers := [''i''],
     s_dispatched := [sample_json_call]\<rparr>"

abbreviation fresh_active :: active_call where
  "fresh_active \<equiv> \<lparr>act_observer = None, act_cancelled = False, act_checked = False\<rparr>"

lemma sample_session_lines:
  "session_line sample_session (\<lambda>_. False) (\<lambda>_. True) (Some ''init'') new_session =
     (new_session\<lparr>s_adapter := \<lparr>initialized = True, ready = False, seen_ids = {}\<rparr>,
        s_shown := [(Rpc_Initialize (J_Str ''i''), True)]\<rparr>, True)"
  "session_line sample_session (\<lambda>_. False) (\<lambda>_. True) (Some ''inited'')
     (new_session\<lparr>s_adapter := \<lparr>initialized = True, ready = False, seen_ids = {}\<rparr>,
        s_shown := [(Rpc_Initialize (J_Str ''i''), True)]\<rparr>) = (ready_session, True)"
  "session_line sample_session (\<lambda>_. False) (\<lambda>_. True) (Some ''call'') ready_session = (busy_session fresh_active, True)"
  "session_line sample_session (\<lambda>_. False) (\<lambda>_. True) (Some ''cancel'') (busy_session a) =
     (busy_session (a\<lparr>act_cancelled := True\<rparr>)\<lparr>s_shut := shut_observer a\<rparr>, True)"
  by (simp_all add: session_line_def sample_lines method_of_def synchronous_def admit_call_def sample_check_call Let_def
      new_session_def new_adapter_def is_id_def write_or_stop_def reap_session_def reap.simps spawn_call_def cancel_call_def
      sample_json_call_def MAX_ACTIVE_CALLS_def MAX_SEEN_CALLS_def)


lemma sample_reach: "session_reach sample_session (busy_session fresh_active)"
proof -
  have "session_reach sample_session new_session" by (rule session_reach.start)
  from session_reach.further [OF this session_step.line [OF sample_session_lines(1)]]
  have "session_reach sample_session (new_session\<lparr>s_adapter := \<lparr>initialized = True, ready = False, seen_ids = {}\<rparr>,
    s_shown := [(Rpc_Initialize (J_Str ''i''), True)]\<rparr>)" .
  from session_reach.further [OF this session_step.line [OF sample_session_lines(2)]]
  have "session_reach sample_session ready_session" .
  from session_reach.further [OF this session_step.line [OF sample_session_lines(3)]] show ?thesis .
qed

lemma sample_reach_checked:
  "session_reach sample_session (busy_session \<lparr>act_observer = Some 5, act_cancelled = True, act_checked = True\<rparr>\<lparr>s_shut := [5]\<rparr>)"
proof -
  note reach = session_reach.further [OF sample_reach session_step.registered [of _ "''i''" fresh_active _ 5]]
  then have "session_reach sample_session (busy_session \<lparr>act_observer = Some 5, act_cancelled = False, act_checked = False\<rparr>)"
    by (simp add: new_session_def)
  from session_reach.further [OF this session_step.checked [of _ "''i''" "\<lparr>act_observer = Some 5, act_cancelled = False, act_checked = False\<rparr>" 5]]
  have "session_reach sample_session (busy_session \<lparr>act_observer = Some 5, act_cancelled = False, act_checked = True\<rparr>)"
    by (simp add: new_session_def)
  from session_reach.further [OF this session_step.line [OF sample_session_lines(4)]]
  show ?thesis by (simp add: shut_observer_def)
qed

text \<open>C12. Whatever lines arrive and however the workers interleave with them, a session has at most
  16 active calls and 65536 used request ids, is ready only after it was initialized, has
  dispatched a call only when ready and every call under an id of its own, which stays used,
  and has for every dispatched call a worker that is still held or was joined.\<close>

theorem session_invariant:
  assumes "session_reach h s"
  shows "card (dom (s_active s)) \<le> 16 \<and> card (seen_ids (s_adapter s)) \<le> 65536 \<and>
    dom (s_active s) \<subseteq> call_key ` set (s_dispatched s) \<and>
    (ready (s_adapter s) \<longrightarrow> initialized (s_adapter s)) \<and> (s_dispatched s \<noteq> [] \<longrightarrow> ready (s_adapter s)) \<and>
    distinct (map call_key (s_dispatched s)) \<and> call_key ` set (s_dispatched s) \<subseteq> seen_ids (s_adapter s) \<and>
    mset (map call_key (s_dispatched s)) = mset (s_workers s) + mset (s_joined s)"
  using session_reach_ok [OF assms] by (simp_all add: session_ok_defs MAX_ACTIVE_CALLS_def MAX_SEEN_CALLS_def)

lemma session_invariant_witness: "distinct (map call_key (s_dispatched (busy_session fresh_active)))"
  using session_invariant [OF sample_reach] by blast

text \<open>C15. No cancellation is lost in the race with the worker: when a worker has found its flag clear,
  so that it goes on to send, and the call is cancelled at any time after that, the connection
  it will read from is shut down.\<close>

theorem cancellation_not_lost:
  assumes "session_reach h s" and "s_active s k = Some a" and "act_checked a" and "act_cancelled a"
  shows "\<exists>c. act_observer a = Some c \<and> c \<in> set (s_shut s)"
  using entry_observed(2) [OF session_reach_ok [OF assms(1)] assms(2-4)] .

lemma cancellation_not_lost_witness:
  "\<exists>c. c \<in> set (s_shut (busy_session \<lparr>act_observer = Some 5, act_cancelled = True, act_checked = True\<rparr>\<lparr>s_shut := [5]\<rparr>))"
  using cancellation_not_lost [OF sample_reach_checked, of "''i''"] by auto

text \<open>C16. The identity a tool call carries is never the caller's: every query that leaves for Message
  is a SendThread or an ObserveThread under exactly the thread id that the harness stamped,
  which is well formed, and a SendThread carries the Send that the datom of the caller is.\<close>

theorem thread_query_identity:
  assumes "thread_query h params = Inr q"
  shows "\<exists>t. Option.bind (js_pointer (sh_json h) params ''/_meta/threadId'') (js_str (sh_json h)) = Some t \<and>
    t \<noteq> [] \<and> length t \<le> 256 \<and> \<not> has_control t \<and>
    ((\<exists>r text. q = SendThread r t \<and> sh_actualize h query_budget text = Inr (Send r)) \<or> (\<exists>c. q = ObserveThread c t))"
  using assms by (auto simp: thread_query_def Let_def send_query_def observe_query_def sum_bind_Inr_iff ok_or_def keep_if_def
      thread_id_ok_def map_err_def split: option.splits if_splits sum.splits query.splits)

lemma thread_query_identity_witness:
  "\<exists>t r. call_query sample_json_call = SendThread r t \<and> length t \<le> 256"
  using thread_query_identity [OF sample_thread_query] by (auto simp: sample_json_call_def)

text \<open>C24. A tool call never goes unanswered and never gets two fates: its line is either one new call,
  under an id not used before, with its worker and its entry in the table and no line from the
  loop, or one error line and no call, for the id of the request or null.\<close>

theorem call_line_outcome:
  assumes "classify h raw = Parsed input" and "method_of (sh_json h) input = Some ''tools/call''"
    and "session_line h finished writable raw s = (s', on)"
  shows "(\<exists>call. s_dispatched s' = s_dispatched s @ [call] \<and> js_get (sh_json h) input ''id'' = Some (call_id call) \<and>
      call_key call \<notin> seen_ids (s_adapter s) \<and> call_key call \<in> seen_ids (s_adapter s') \<and>
      call_key call \<in> dom (s_active s') \<and> s_shown s' = s_shown s \<and> on) \<or>
    (\<exists>i code m. s_shown s' = s_shown s @ [(Rpc_Error i code m, on)] \<and> s_dispatched s' = s_dispatched s \<and>
      s_active s' = s_active s \<and> s_workers s' = s_workers s \<and>
      (js_get (sh_json h) input ''id'' = Some i \<or> i = js_null (sh_json h)))"
  using assms
proof (cases rule: session_line_call)
  case (refused r)
  from refused(1) have "\<exists>i code m. r = Rpc_Error i code m \<and> (js_get (sh_json h) input ''id'' = Some i \<or> i = js_null (sh_json h))"
    by (auto simp: check_call_def Let_def sum_bind_def ok_or_def keep_if_def map_err_def split: option.splits if_splits sum.splits)
  with write_or_stop_state [OF refused(2)] show ?thesis by auto
next
  case (busy call ad)
  with write_or_stop_state [OF busy(3)] check_call_Inr(5) [OF busy(1)] show ?thesis by auto
next
  case (started call ad)
  with check_call_Inr(1,5) [OF started(1)] admit_call_adapter [OF started(2)] show ?thesis
    by (intro disjI1 exI [of _ call]) (simp add: reap_session_state spawn_call_def)
qed

lemma call_line_outcome_witness:
  "\<exists>s'. session_line sample_session (\<lambda>_. False) (\<lambda>_. True) (Some ''call'') ready_session = (s', True) \<and>
     (s_dispatched s' \<noteq> [] \<or> s_shown s' \<noteq> s_shown ready_session)"
proof -
  have "method_of (sh_json sample_session) (json_request ''tools/call'' json_send) = Some ''tools/call''"
    by (simp add: method_of_def)
  from call_line_outcome [OF sample_lines(3) this sample_session_lines(3)] sample_session_lines(3) show ?thesis by auto
qed



text \<open>A call refused because the table is full has used up its request id.\<close>

lemma busy_call_burns_id:
  assumes "classify h raw = Parsed input" and "method_of (sh_json h) input = Some ''tools/call''"
    and "check_call h (s_adapter s) input = Inr call" and "card (dom (s_active s)) \<ge> MAX_ACTIVE_CALLS"
    and "session_line h finished writable raw s = (s', on)"
  shows "s_dispatched s' = s_dispatched s \<and>
    check_call h (s_adapter s') input = Inl (Rpc_Error (call_id call) (- 32600) ''Request id has already been used'')"
proof -
  have "s_adapter s' = (s_adapter s)\<lparr>seen_ids := insert (call_key call) (seen_ids (s_adapter s))\<rparr> \<and>
    s_dispatched s' = s_dispatched s"
    using assms(1,2,5)
  proof (cases rule: session_line_call)
    case (busy c ad)
    from write_or_stop_state [OF busy(3)] busy(1,2) assms(3) show ?thesis by (auto simp: admit_call_def)
  qed (use assms(3,4) in auto)
  then have s': "s_adapter s' = (s_adapter s)\<lparr>seen_ids := insert (call_key call) (seen_ids (s_adapter s))\<rparr>"
    "s_dispatched s' = s_dispatched s" by simp_all
  have "js_get (sh_json h) input ''id'' = Some (call_id call)" "is_id (sh_json h) (call_id call)"
    "call_key call = js_text (sh_json h) (call_id call)"
    using assms(3) by (auto simp: check_call_def Let_def sum_bind_Inr_iff ok_or_def keep_if_def split: option.splits if_splits)
  then show ?thesis unfolding s' by (simp add: check_call_def Let_def ok_or_def keep_if_def)
qed

end
