(* ===== verification/End_To_End.thy ===== *)
theory End_To_End imports Serve Mcp_Session begin

text \<open>
  Across processes: what the Nexus writes on a client's connection is what the client at the
  other end of the socket prints, and what the adapter reports to its harness. The bytes are
  followed from the handler of the connection (message-nexus/src/listener.rs) through frames to
  the loops of message/src/main.rs and of message-mcp-send/src/main.rs. And within the adapter: the
  session and the runs of its workers together.
\<close>

section \<open>What a handler writes on its connection\<close>

text \<open>
  From \<open>w\<close> to \<open>w'\<close> the handler of stream \<open>s\<close> told some replies; when each was told without an
  error, the bytes written on \<open>s\<close> are their frames, in order, and nothing else.
\<close>

definition spoke :: "'g host \<Rightarrow> stream \<Rightarrow> 'z relay_world_scheme \<Rightarrow> 'z relay_world_scheme \<Rightarrow> bool" where
  "spoke h s w w' \<longleftrightarrow> (\<exists>ext es. calls w' = calls w @ ext \<and> talk w' = talk w @ es \<and>
     (list_all (\<lambda>x. snd x = Inr ()) (told_of es) \<longrightarrow>
        (\<exists>archives. list_all2 (\<lambda>b x. ser_response (host_client h) (fst x) = Inr b) archives (told_of es) \<and>
           written s ext = concat (map frame_bytes archives))))"

lemma spoke_trans:
  assumes "spoke h s u v" and "spoke h s v w"
  shows "spoke h s u w"
proof -
  obtain ext1 es1 where 1: "calls v = calls u @ ext1" "talk v = talk u @ es1"
    "list_all (\<lambda>x. snd x = Inr ()) (told_of es1) \<longrightarrow>
        (\<exists>archives. list_all2 (\<lambda>b x. ser_response (host_client h) (fst x) = Inr b) archives (told_of es1) \<and>
           written s ext1 = concat (map frame_bytes archives))"
    using assms(1) unfolding spoke_def by blast
  obtain ext2 es2 where 2: "calls w = calls v @ ext2" "talk w = talk v @ es2"
    "list_all (\<lambda>x. snd x = Inr ()) (told_of es2) \<longrightarrow>
        (\<exists>archives. list_all2 (\<lambda>b x. ser_response (host_client h) (fst x) = Inr b) archives (told_of es2) \<and>
           written s ext2 = concat (map frame_bytes archives))"
    using assms(2) unfolding spoke_def by blast
  show ?thesis unfolding spoke_def
  proof (intro exI [of _ "ext1 @ ext2"] exI [of _ "es1 @ es2"] conjI impI)
    show "calls w = calls u @ ext1 @ ext2" and "talk w = talk u @ es1 @ es2" using 1 2 by simp_all
    assume "list_all (\<lambda>x. snd x = Inr ()) (told_of (es1 @ es2))"
    then obtain a1 a2 where
      "list_all2 (\<lambda>b x. ser_response (host_client h) (fst x) = Inr b) a1 (told_of es1)" "written s ext1 = concat (map frame_bytes a1)"
      "list_all2 (\<lambda>b x. ser_response (host_client h) (fst x) = Inr b) a2 (told_of es2)" "written s ext2 = concat (map frame_bytes a2)"
      using 1(3) 2(3) by auto
    then show "\<exists>archives. list_all2 (\<lambda>b x. ser_response (host_client h) (fst x) = Inr b) archives (told_of (es1 @ es2)) \<and>
        written s (ext1 @ ext2) = concat (map frame_bytes archives)"
      by (intro exI [of _ "a1 @ a2"]) (simp add: list_all2_appendI)
  qed
qed

lemma spoke_called: "(\<forall>bs. c \<noteq> Write_All s bs) \<Longrightarrow> spoke h s w (called c w)"
  unfolding spoke_def by (intro exI [of _ "[c]"] exI [of _ "[]"]) (cases c; auto simp: called_def)

interpretation sp: careful_effects "spoke h s" "\<lambda>c. \<forall>bs. c \<noteq> Write_All s bs" for h s
proof
  show "spoke h s w w" for w :: "'z relay_world_scheme"
    unfolding spoke_def by (intro exI [of _ "[]"]) simp
qed (blast intro: spoke_trans spoke_called)+

text \<open>The stream of a connection is never the one of a connection the handler makes.\<close>

definition apart :: "env \<Rightarrow> stream \<Rightarrow> bool" where
  "apart env s \<longleftrightarrow> (\<forall>tr p. env_connect env tr p \<noteq> Inr s)"

lemma spoke_noted [simp]: "spoke h s u (noted c w) \<longleftrightarrow> spoke h s u w"
  by (simp add: spoke_def noted_def)

lemma connected_apart:
  "apart env s \<Longrightarrow> io_map_err f (sys_connect env p) w = (Inr t, v) \<Longrightarrow> t \<noteq> s"
  by (auto simp: io_map_err_def sys_connect_def apart_def split: sum.splits)

lemma spoke_raw_exchange: "apart env s \<Longrightarrow> spoke h s w (snd (raw_exchange env cod path q w))"
  unfolding raw_exchange_def
  by (rule sp.stable_bind_result) (auto dest: connected_apart intro!: sp.stable_write_frame)

lemma spoke_exchange [simp]: "apart env s \<Longrightarrow> spoke h s w (snd (exchange env cod path q w))"
  using spoke_raw_exchange [of env s h w cod path q] by (cases "raw_exchange env cod path q w") (simp add: exchange_def)

lemma spoke_operations [simp]:
  assumes "apart env s"
  shows "spoke h s w (snd (identify env cod path p w))" "spoke h s w (snd (identify_thread env cod path p t w))"
    "spoke h s w (snd (flow_lock env cod path a r w))" "spoke h s w (snd (deliver env cod path l rq w))"
    "spoke h s w (snd (release env cod path l w))"
  using assms by (auto simp: identify_def identify_thread_def flow_lock_def deliver_def release_def)

lemma spoke_observe_sender [simp]:
  assumes "apart env s"
  shows "spoke h s w (snd (observe_sender env cod path p th cursor w))"
proof -
  have "spoke h s w (snd (raw_subscribe env cod path (Ask_ObserveSender p th cursor) w))"
    unfolding raw_subscribe_def using assms
    by (intro sp.stable_bind_result) (auto dest: connected_apart intro!: sp.stable_write_frame)
  then show ?thesis
    by (cases "raw_subscribe env cod path (Ask_ObserveSender p th cursor) w") (simp add: observe_sender_def)
qed

lemma spoke_accept_send [simp]:
  assumes "apart env s"
  shows "spoke h s w (snd (accept_send env cod dbg api g p rq th w))"
proof -
  have settle: "spoke h s v (snd (settle_delivery env cod dbg path p th l reply v))" for path l reply v
    using assms by (auto simp: settle_delivery_def split: flow_send_reply.split)
  have under: "spoke h s v (snd (deliver_under_lock env cod dbg path p rq th l v))" for path l v
    using assms by (auto simp: deliver_under_lock_def Let_def settle split: sum.split edge_failure.split)
  have "spoke h s v (snd (send_identified env cod dbg path p rq th a v))" for path a v
    using assms by (auto simp: send_identified_def Let_def under)
  then show ?thesis
    using assms by (auto simp: accept_send_def Let_def split: sum.split option.split)
qed

lemma spoke_observe_sends [simp]:
  "apart env s \<Longrightarrow> spoke h s w (snd (observe_sends env cod dbg api g p th cursor w))"
  by (auto simp: observe_sends_def split: sum.split)

lemma spoke_tell [simp]: "spoke h s w (snd (tell h s r w))"
proof -
  obtain res v where t: "write_frame (host_env h) (ser_response (host_client h)) s r w = (res, v)" by fastforce
  have talk: "talk v = talk w" using tell_talk [of h s r w] t by (simp add: tell_def)
  show ?thesis
  proof (cases res)
    case (Inl e)
    have "grows w v" using grow.stable_write_frame [of w "host_env h" "ser_response (host_client h)" s r] t by simp
    then obtain ext where "calls v = calls w @ ext" by (auto simp: grows_def prefix_def)
    with t Inl talk show ?thesis unfolding spoke_def
      by (intro exI [of _ ext] exI [of _ "[Told r (Inl e)]"]) (simp add: tell_def)
  next
    case (Inr u)
    with t obtain b where b: "ser_response (host_client h) r = Inr b"
      "calls v = calls w @ [Write_All s (to_be_bytes (of_nat (length b))), Write_All s b, Flush s]"
      by (auto elim: write_frame_ok_calls)
    with t Inr talk show ?thesis unfolding spoke_def
      by (intro exI [of _ "[Write_All s (to_be_bytes (of_nat (length b))), Write_All s b, Flush s]"] exI [of _ "[Told r (Inr ())]"])
         (auto simp: tell_def frame_bytes_def intro!: exI [of _ "[b]"])
  qed
qed


lemma spoke_hear [simp]: "spoke h s w (snd (hear h sub w))"
proof -
  obtain res v where n: "subscription_next (host_env h) (host_flow h) sub w = (res, v)" by fastforce
  have "spoke h s w (snd (subscription_next (host_env h) (host_flow h) sub w))" by (simp add: subscription_next_def)
  with n have "spoke h s w v" by simp
  moreover have "spoke h s v (v\<lparr>talk := talk v @ [Heard res]\<rparr>)"
    unfolding spoke_def by (intro exI [of _ "[]"] exI [of _ "[Heard res]"]) simp
  ultimately show ?thesis using n spoke_trans by (auto simp: hear_def)
qed

lemma spoke_relay_round:
  "case relay_round h s sub t (c, w) of Inl (_, v) \<Rightarrow> spoke h s w v | Inr (_, v) \<Rightarrow> spoke h s w v"
proof -
  obtain x w1 where hr: "hear h sub w = (x, w1)" by fastforce
  have 1: "spoke h s w w1" using spoke_hear [of h s w sub] hr by simp
  have told: "spoke h s w v" if "tell h s r w1 = (y, v)" for r y v
    using spoke_trans [OF 1] spoke_tell [of h s w1 r] that by simp
  show ?thesis using hr
    by (auto simp: relay_round_def Let_def told split: sum.splits flow_response.splits prod.splits intro: told)
qed

lemma spoke_forward:
  assumes "forward_subscription h s sub t w = Some (r, w')"
  shows "spoke h s w w'"
proof -
  have loop: "spoke h s v (snd z)" if it: "iterate (relay_round h s sub t) (None, v) = Some z" for v z
  proof (rule iterate_invariant [OF it, where I = "\<lambda>x. spoke h s v (snd x)"])
    fix x y assume "spoke h s v (snd x)" "relay_round h s sub t x = Inr y"
    with spoke_relay_round [of h s "snd x" sub t "fst x"] spoke_trans show "spoke h s v (snd y)" by (auto split: prod.splits)
  next
    fix x y assume "spoke h s v (snd x)" "relay_round h s sub t x = Inl y"
    with spoke_relay_round [of h s "snd x" sub t "fst x"] spoke_trans show "spoke h s v (snd y)" by (auto split: prod.splits)
  qed simp
  let ?w1 = "called (Try_Clone sub) w" and ?w2 = "called (Try_Clone s) (called (Try_Clone sub) w)"
  have 1: "spoke h s w ?w1" and 12: "spoke h s ?w1 ?w2" by (simp_all add: spoke_called)
  have 2: "spoke h s w ?w2" using spoke_trans [OF 1 12] .
  have 3: "spoke h s w (called (Shutdown s Shut_Read) v)" if "iterate (relay_round h s sub t) (None, ?w2) = Some (y, v)" for y v
    using spoke_trans [OF spoke_trans [OF 2 loop [OF that]] spoke_called [of "Shutdown s Shut_Read" s h]] by simp
  show ?thesis using assms 1 2 3
    by (auto simp: forward_subscription_def interrupt_handle_def sys_clone_def sys_unit_def io_map_err_def
        split: sum.splits prod.splits option.splits)
qed

lemma spoke_answer_send:
  assumes "apart (host_env h) s" and "answer_send h s p rq th w = Some (r, w')"
  shows "spoke h s w w'"
proof -
  obtain x w1 where a: "accept_send (host_env h) (host_flow h) (host_debugs h) (host_engine h) (memory w) p rq th w = (x, w1)"
    by fastforce
  have 1: "spoke h s w w1"
    using spoke_accept_send [OF assms(1), of h w "host_flow h" "host_debugs h" "host_engine h" "memory w" p rq th] a by simp
  have told: "spoke h s w v" if "tell h s q w1 = (y, v)" for q y v
    using spoke_trans [OF 1] spoke_tell [of h s w1 q] that by simp
  have then_told: "spoke h s w v2" if "tell h s q w1 = (y, v)" "tell h s q2 v = (y2, v2)" for q y v q2 y2 v2
    using spoke_trans [OF told [OF that(1)]] spoke_tell [of h s v q2] that(2) by simp
  have then_forward: "spoke h s w w'" if "tell h s q w1 = (y, v)" "forward_subscription h s sub t v = Some (r, w')" for q y v sub t
    using spoke_trans [OF told [OF that(1)]] spoke_forward [OF that(2)] by simp
  show ?thesis using a assms(2)
    by (auto simp: answer_send_def dest: told then_told then_forward split: sum.splits send_reply.splits prod.splits)
qed

lemma spoke_answer_observation:
  assumes "apart (host_env h) s" and "answer_observation h s p th c w = Some (r, w')"
  shows "spoke h s w w'"
proof -
  obtain x w1 where a: "observe_sends (host_env h) (host_flow h) (host_debugs h) (host_engine h) (memory w) p th c w = (x, w1)"
    by fastforce
  have 1: "spoke h s w w1"
    using spoke_observe_sends [OF assms(1), of h w "host_flow h" "host_debugs h" "host_engine h" "memory w" p th c] a by simp
  have told: "spoke h s w v" if "tell h s q w1 = (y, v)" for q y v
    using spoke_trans [OF 1] spoke_tell [of h s w1 q] that by simp
  have forward: "spoke h s w w'" if "forward_subscription h s sub t w1 = Some (r, w')" for sub t
    using spoke_trans [OF 1 spoke_forward [OF that]] .
  show ?thesis using a assms(2)
    by (auto simp: answer_observation_def dest: told forward split: sum.splits)
qed

lemma spoke_memory [simp]: "spoke h s w (v\<lparr>memory := g\<rparr>) \<longleftrightarrow> spoke h s w v"
  by (simp add: spoke_def)

lemma spoke_answer_ordinary:
  assumes "apart (host_env h) s" and "answer_ordinary h s w = Some (r, w')"
  shows "spoke h s w w'"
proof -
  obtain x w1 where rd: "read_frame (host_env h) (de_query (host_client h)) s w = (x, w1)" by fastforce
  have 1: "spoke h s w w1" using sp.stable_read_frame [of h s w "host_env h" "de_query (host_client h)" s] rd by simp
  have told: "spoke h s w v" if "tell h s q (w1\<lparr>memory := g\<rparr>) = (y, v)" for q g y v
    using spoke_trans [of h s w "w1\<lparr>memory := g\<rparr>" v] 1 spoke_tell [of h s "w1\<lparr>memory := g\<rparr>" q] that by simp
  have send: "spoke h s w w'" if "answer_send h s p rq th w1 = Some (r, w')" for p rq th
    using spoke_trans [OF 1 spoke_answer_send [OF assms(1) that]] .
  have observe: "spoke h s w w'" if "answer_observation h s p th c w1 = Some (r, w')" for p th c
    using spoke_trans [OF 1 spoke_answer_observation [OF assms(1) that]] .
  show ?thesis using rd assms(2) 1
    by (auto simp: answer_ordinary_def dest: told send observe split: sum.splits option.splits query.splits prod.splits)
qed

text \<open>A whole conversation: its replies, their archives and the bytes on the stream.\<close>

lemma conversation_written:
  assumes "answer_ordinary h s w = Some (Inr (), w')" and "apart (host_env h) s"
  obtains rs archives where "told_of (drop (length (talk w)) (talk w')) = map (\<lambda>r. (r, Inr ())) rs"
    and "consumed None rs = Some (length rs)"
    and "list_all2 (\<lambda>b r. ser_response (host_client h) r = Inr b) archives rs"
    and "written s (drop (length (calls w)) (calls w')) = concat (map frame_bytes archives)"
proof -
  obtain es rs where es: "talk w' = talk w @ es" "told_of es = map (\<lambda>r. (r, Inr ())) rs" "consumed None rs = Some (length rs)"
    using answer_ordinary_conversation [OF assms(1)] by (auto simp: conversation_def)
  have "list_all (\<lambda>x. snd x = Inr ()) (told_of es)" by (simp add: es(2) list_all_iff)
  with spoke_answer_ordinary [OF assms(2,1)] es(1) obtain ext archives where
    "calls w' = calls w @ ext" "list_all2 (\<lambda>b x. ser_response (host_client h) (fst x) = Inr b) archives (told_of es)"
    "written s ext = concat (map frame_bytes archives)" by (auto simp: spoke_def)
  then show thesis using es by (intro that [of rs archives]) (simp_all add: list.rel_map)
qed


text \<open>The same conversation, as the bytes a client at the other end has to read.\<close>

lemma conversation_sent:
  assumes "answer_ordinary h s w = Some (Inr (), w')" and "\<And>tr p. env_connect (host_env h) tr p \<noteq> Inr s"
    and "told = map fst (told_of (drop (length (talk w)) (talk w')))"
    and "\<And>r b. r \<in> set told \<Longrightarrow> ser_response (host_client h) r = Inr b \<Longrightarrow>
      unarchive_reply wire b = Inr r \<and> length b \<le> FRAME_LIMIT"
  obtains archives where "consumed None told = Some (length told)"
    and "list_all2 (\<lambda>bytes r. length bytes \<le> FRAME_LIMIT \<and> unarchive_reply wire bytes = Inr r) archives told"
    and "written s (drop (length (calls w)) (calls w')) = concat (map frame_bytes archives)"
proof -
  have "apart (host_env h) s" using assms(2) by (simp add: apart_def)
  from conversation_written [OF assms(1) this] obtain rs archives where
    rs: "told_of (drop (length (talk w)) (talk w')) = map (\<lambda>r. (r, Inr ())) rs" "consumed None rs = Some (length rs)"
      "list_all2 (\<lambda>b r. ser_response (host_client h) r = Inr b) archives rs"
      "written s (drop (length (calls w)) (calls w')) = concat (map frame_bytes archives)" by blast
  then have told: "told = rs" using assms(3) by (simp add: comp_def)
  have "list_all2 (\<lambda>bytes r. length bytes \<le> FRAME_LIMIT \<and> unarchive_reply wire bytes = Inr r) archives told"
    unfolding told by (rule list.rel_mono_strong [OF rs(3)]) (use assms(4) told in blast)
  with rs told show thesis by (intro that [of archives]) simp_all
qed

section \<open>The query\<close>

lemma mcp_send_written:
  assumes "mcp_send m peer q v = (Inr (), v')" and "archive_query (mcp_wire m) q = Inr bytes"
  shows "written peer (drop (length (calls v)) (calls v')) = frame_bytes bytes"
  using assms
  by (auto simp: mcp_send_def io_simps write_all_def sys_unit_def u32_try_from_def frame_bytes_def
      split: option.splits sum.splits prod.splits if_splits)

lemma send_archive_written:
  assumes "send_archive env wire peer q v = (Inr (), v')" and "archive_query wire q = Inr bytes"
  shows "written peer (drop (length (calls v)) (calls v')) = frame_bytes bytes"
  using assms
  by (auto simp: send_archive_def io_simps write_all_def sys_unit_def frame_bytes_def
      split: option.splits sum.splits prod.splits if_splits)

lemma frame_arrives:
  assumes "feeds env s (frame_bytes bytes @ rest) (calls w)" and "length bytes \<le> FRAME_LIMIT" and "des bytes = Inr q"
  shows "\<exists>w1. read_frame env des s w = (Inr q, w1) \<and> feeds env s rest (calls w1)"
proof -
  have fed: "feeds env s (to_be_bytes (of_nat (length bytes)) @ bytes @ rest) (calls w)"
    using assms(1) by (simp add: frame_bytes_def)
  from read_frame_fed [OF fed assms(2), of des] assms(3) show ?thesis
    by (cases "read_frame env des s w") auto
qed

section \<open>Examples\<close>

text \<open>An ordinary Configure, answered on stream 1 with an archive of no bytes.\<close>

definition sample_wire :: "response \<Rightarrow> (query, response) client_wire" where
  "sample_wire r = \<lparr>archive_query = (\<lambda>_. Inr [9]), unarchive_reply = (\<lambda>_. Inr r)\<rparr>"

lemma sample_apart: "env_connect (host_env sample_configure_host) tr p \<noteq> Inr 1"
  by (simp add: sample_configure_host_def quiet_env_def)

lemma sample_told:
  obtains w' r where "answer_ordinary sample_configure_host 1 idle = Some (Inr (), w')"
    and "map fst (told_of (drop (length (talk idle)) (talk w'))) = [r]"
    and "written 1 (drop (length (calls idle)) (calls w')) = replicate 4 0"
    and "consumed None [r] = Some 1"
proof -
  let ?h = sample_configure_host and ?q = "Configure (std_configuration sample_standard)"
  let ?w1 = "called (Read_Exact 1 0) (called (Read_Exact 1 4) idle)"
  have e: "host_env ?h = quiet_env (replicate 4 0)" "de_query (host_client ?h) = (\<lambda>_. Inr ?q)"
    "ser_response (host_client ?h) = (\<lambda>_. Inr [])"
    by (simp_all add: sample_configure_host_def)
  have p: "peer_process (host_peercred ?h 1) (host_proc ?h) = Some \<lparr>proc_pid = 42, proc_started = 777\<rparr>"
    by (simp add: sample_configure_host_def sample_peer)
  have z: "from_be_bytes (replicate 4 0) = 0" by (simp add: from_be_bytes_def numeral_eq_Suc)
  have rd: "read_frame (host_env ?h) (de_query (host_client ?h)) 1 idle = (Inr ?q, ?w1)"
    by (simp add: e read_frame_def io_simps read_exact_def quiet_env_def z Let_def FRAME_LIMIT_def)
  obtain r g where s: "serve_query (host_engine ?h) ?q (memory ?w1) = (r, g)" by fastforce
  let ?w2 = "?w1\<lparr>memory := g\<rparr>"
  let ?w3 = "called (Flush 1) (called (Write_All 1 []) (called (Write_All 1 (to_be_bytes 0)) ?w2))"
  have "write_frame (host_env ?h) (ser_response (host_client ?h)) 1 r ?w2 = (Inr (), ?w3)"
    using write_frame_accepts [of "ser_response (host_client ?h)" r "[]" "host_env ?h" 1 ?w2] by (simp add: e quiet_env_def)
  then have tl: "tell ?h 1 r ?w2 = (Inr (), ?w3\<lparr>talk := talk ?w3 @ [Told r (Inr ())]\<rparr>)" by (simp add: tell_def)
  have run: "answer_ordinary ?h 1 idle = Some (tell ?h 1 r ?w2)" using rd p s by (simp add: answer_ordinary_def)
  have "reply_terminal None r" using serve_query_terminal [of None "host_engine ?h" ?q "memory ?w1"] s by simp
  moreover have "replicate 4 0 = [0, 0, 0, 0 :: byte]" by (simp add: numeral_eq_Suc)
  ultimately show thesis using run tl
    by (intro that [of "?w3\<lparr>talk := talk ?w3 @ [Told r (Inr ())]\<rparr>" r]) (simp_all add: called_def to_be_bytes_def)
qed

section \<open>A session and its workers\<close>

text \<open>Every dispatched call was admitted under the text of its own id.\<close>

lemma admitted_key:
  assumes "admit_call h ad input = (Inr call, ad')"
  shows "call_key call = js_text (sh_json h) (call_id call)"
  using assms check_call_Inr(6) by (auto simp: admit_call_def split: sum.splits)

lemma session_line_dispatched:
  assumes "session_line h finished writable raw s = (s', on)" and "call \<in> set (s_dispatched s')"
  shows "call \<in> set (s_dispatched s) \<or> call_key call = js_text (sh_json h) (call_id call)"
  using assms
  by (auto simp: session_line_def Let_def cancel_call_def write_or_stop_def reap_session_state spawn_call_def
      dest: admitted_key split: line.splits if_splits option.splits prod.splits sum.splits)

lemma dispatched_key:
  "session_reach h s \<Longrightarrow> call \<in> set (s_dispatched s) \<Longrightarrow> call_key call = js_text (sh_json h) (call_id call)"
proof (induction rule: session_reach.induct)
  case start
  then show ?case by (simp add: new_session_def)
next
  case (further s s')
  from further.hyps(2) further.prems have "call \<in> set (s_dispatched s) \<or> call_key call = js_text (sh_json h) (call_id call)"
    by cases (auto dest: session_line_dispatched)
  with further.IH show ?case by blast
qed


text \<open>A line that ends the call with id \<open>v\<close>.\<close>

definition final_for :: "'v \<Rightarrow> 'v rpc \<times> bool \<Rightarrow> bool" where
  "final_for v x = (case fst x of Rpc_Error i _ _ \<Rightarrow> i = v | Rpc_Result i _ _ \<Rightarrow> i = v | _ \<Rightarrow> False)"

lemma answers_final: "answers call x \<Longrightarrow> final_for v x \<longleftrightarrow> call_id call = v"
  by (auto simp: answers_def is_error_def final_for_def)

lemma call_finals:
  assumes "run_call h call w = Some w'" and "shown w = []"
  shows "length (filter (final_for v) (shown w')) \<le> 1 \<and>
    (filter (final_for v) (shown w') \<noteq> [] \<longrightarrow> call_id call = v) \<and>
    (call_id call = v \<and> filter (final_for v) (shown w') = [] \<longrightarrow> flag_dead w')"
proof -
  obtain ps fin where w': "shown w' = ps @ fin" "list_all (\<lambda>x. \<exists>n t. fst x = Rpc_Progress (call_token call) n t) ps"
    "length fin \<le> 1" "list_all (answers call) fin" "fin = [] \<longrightarrow> flag_dead w'"
    using call_answered_once [OF assms(1)] assms(2) by auto
  have "filter (final_for v) ps = []"
    using w'(2) by (auto simp: filter_empty_conv list_all_iff final_for_def)
  moreover have "filter (final_for v) fin = (if call_id call = v then fin else [])"
    using w'(4) by (auto simp: filter_empty_conv filter_id_conv list_all_iff answers_final)
  ultimately show ?thesis using w'(1,3,5) by auto
qed

lemma one_of_distinct:
  assumes "distinct (map key cs)" and "\<And>c. c \<in> set cs \<Longrightarrow> f c \<le> (1 :: nat) \<and> (f c \<noteq> 0 \<longrightarrow> key c = k)"
  shows "sum_list (map f cs) \<le> 1"
  using assms
proof (induction cs)
  case (Cons c cs)
  show ?case
  proof (cases "f c = 0")
    case False
    then have "key c = k" using Cons.prems(2) by auto
    then have "f d = 0" if "d \<in> set cs" for d
      using Cons.prems that by (metis distinct.simps(2) image_eqI list.set_intros(2) list.set_map list.simps(9))
    then have "sum_list (map f cs) = 0" by simp
    moreover have "f c \<le> 1" using Cons.prems(2) [of c] by simp
    moreover have "sum_list (map f (c # cs)) = f c + sum_list (map f cs)" by simp
    ultimately show ?thesis by linarith
  qed (use Cons in simp)
qed simp

lemma session_finals:
  assumes reach: "session_reach h s"
    and runs: "\<And>call. call \<in> set (s_dispatched s) \<Longrightarrow> run_call (m call) call (begun call) = Some (stop call) \<and> shown (begun call) = []"
    and out: "mset out = mset (concat (map (\<lambda>call. shown (stop call)) (s_dispatched s)))"
  shows "length (filter (final_for v) out) \<le> 1"
    and "filter (final_for v) out \<noteq> [] \<Longrightarrow> v \<in> call_id ` set (s_dispatched s)"
    and "call \<in> set (s_dispatched s) \<Longrightarrow> call_id call = v \<Longrightarrow> filter (final_for v) out = [] \<Longrightarrow> flag_dead (stop call)"
proof -
  let ?f = "\<lambda>call. filter (final_for v) (shown (stop call))"
  have fins: "length (?f c) \<le> 1" "?f c \<noteq> [] \<longrightarrow> call_id c = v" "call_id c = v \<and> ?f c = [] \<longrightarrow> flag_dead (stop c)"
    if "c \<in> set (s_dispatched s)" for c
    using call_finals runs [OF that] by metis+
  have m: "mset (filter (final_for v) out) = mset (concat (map ?f (s_dispatched s)))"
  proof -
    have "mset (filter (final_for v) out) = filter_mset (final_for v) (mset out)" by simp
    also have "\<dots> = mset (filter (final_for v) (concat (map (\<lambda>call. shown (stop call)) (s_dispatched s))))"
      unfolding out by (rule mset_filter [symmetric])
    finally show ?thesis by (simp only: filter_concat map_map comp_def)
  qed
  have "length (filter (final_for v) out) = sum_list (map (\<lambda>c. length (?f c)) (s_dispatched s))"
    using arg_cong [OF m, of size] by (simp only: size_mset length_concat map_map comp_def)
  also have "\<dots> \<le> 1"
  proof (rule one_of_distinct [where key = call_key and k = "js_text (sh_json h) v"])
    show "distinct (map call_key (s_dispatched s))"
      using session_reach_ok [OF reach] by (simp add: session_ok_defs)
    show "length (?f c) \<le> 1 \<and> (length (?f c) \<noteq> 0 \<longrightarrow> call_key c = js_text (sh_json h) v)" if "c \<in> set (s_dispatched s)" for c
      using fins [OF that] dispatched_key [OF reach that] by auto
  qed
  finally show "length (filter (final_for v) out) \<le> 1" .
  show "v \<in> call_id ` set (s_dispatched s)" if "filter (final_for v) out \<noteq> []"
  proof -
    from that m have "concat (map ?f (s_dispatched s)) \<noteq> []" by (metis mset_zero_iff)
    then obtain c where "c \<in> set (s_dispatched s)" "?f c \<noteq> []" by auto
    with fins(2) show ?thesis by blast
  qed
  show "flag_dead (stop call)" if "call \<in> set (s_dispatched s)" "call_id call = v" "filter (final_for v) out = []"
  proof -
    from that m have "concat (map ?f (s_dispatched s)) = []" by (metis mset_zero_iff)
    with that(1) have "?f call = []" by auto
    with fins(3) [OF that(1)] that(2) show ?thesis by blast
  qed
qed

section \<open>Properties\<close>

text \<open>C7. End to end, the command-line client: when a handler of the Nexus has answered a query and the
  program message, started with that query's datom, reads what was written on its connection, the
  program ends with exit code 0, nothing on standard error, and on standard output exactly the
  replies the handler told, rendered, in order. What the handler does at the same time with Flow
  never reaches the client's connection.\<close>

theorem client_prints_what_nexus_told:
  assumes "answer_ordinary h s w = Some (Inr (), w')" and "\<And>tr p. env_connect (host_env h) tr p \<noteq> Inr s"
    and "told = map fst (told_of (drop (length (talk w)) (talk w')))"
    and "\<And>r b. r \<in> set told \<Longrightarrow> ser_response (host_client h) r = Inr b \<Longrightarrow>
      unarchive_reply wire b = Inr r \<and> length b \<le> FRAME_LIMIT"
    and "env_connect env (calls v) (message_client_socket MESSAGE_SOCKET e) = Inr peer" and "\<And>tr c. env_unit env tr c = None"
    and "archive_query wire q = Inr bytes"
    and "feeds env peer (written s (drop (length (calls w)) (calls w')) @ rest) (calls v)"
    and "actualize query_budget datom = Inr q" and "datom \<noteq> ''--version''"
  shows "\<exists>v'. message_main env wire render version actualize MESSAGE_SOCKET e [datom] v =
    Some (\<lparr>exit_code = 0, stdout = map render told, stderr = []\<rparr>, v')"
proof -
  from conversation_sent [OF assms(1-4)] obtain archives where a: "consumed None told = Some (length told)"
    "list_all2 (\<lambda>bytes r. length bytes \<le> FRAME_LIMIT \<and> unarchive_reply wire bytes = Inr r) archives told"
    "written s (drop (length (calls w)) (calls w')) = concat (map frame_bytes archives)" by blast
  from message_prints_conversation [OF assms(5-7) assms(8) [unfolded a(3)] a(2,1)]
  obtain v' where "message_call env wire (message_client_socket MESSAGE_SOCKET e) q v = Some (Inr (), v')"
    "printed v' = printed v @ told" by blast
  with assms(9,10) show ?thesis
    by (simp add: message_main_def message_parse_def map_err_def client_end_def)
qed

text \<open>C8. End to end, the adapter: when a handler of the Nexus has answered the query of a tool call and
  the call, neither cancelled nor cut off from its harness, reads what was written on that
  connection, the call returns and has reported every reply the handler told in a progress
  line, in order, and then the one final line that the last of them calls for.\<close>

theorem call_reports_what_nexus_told:
  assumes "answer_ordinary h s w = Some (Inr (), w')" and "\<And>tr p. env_connect (host_env h) tr p \<noteq> Inr s"
    and "told = map fst (told_of (drop (length (talk w)) (talk w')))"
    and "\<And>r b. r \<in> set told \<Longrightarrow> ser_response (host_client h) r = Inr b \<Longrightarrow>
      unarchive_reply (mcp_wire m) b = Inr r \<and> length b \<le> FRAME_LIMIT"
    and "undisturbed m" and "\<not> flag_cancelled v"
    and "env_connect (mcp_env m) (calls v) (mcp_socket m) = Inr peer" and "\<And>tr c. env_unit (mcp_env m) tr c = None"
    and "\<And>tr. env_clone (mcp_env m) tr peer = Inr obs"
    and "archive_query (mcp_wire m) (call_query call) = Inr bytes" and "length bytes < 2 ^ 32"
    and "feeds (mcp_env m) peer (written s (drop (length (calls w)) (calls w')) @ rest) (calls v)"
  shows "\<exists>v'. run_call m call v = Some v' \<and> shown v' = shown v @ map (\<lambda>l. (l, True))
    (progress_lines m call 0 told @ [final_reply m call (last told) (accepted_after told) (cursor_after told)])"
proof -
  from conversation_sent [OF assms(1-4)] obtain archives where a: "consumed None told = Some (length told)"
    "list_all2 (\<lambda>bytes r. length bytes \<le> FRAME_LIMIT \<and> unarchive_reply (mcp_wire m) bytes = Inr r) archives told"
    "written s (drop (length (calls w)) (calls w')) = concat (map frame_bytes archives)" by blast
  with undisturbed_call_reports [OF assms(5-11) assms(12) [unfolded a(3)] a(2,1)] show ?thesis by blast
qed


lemma client_prints_what_nexus_told_witness:
  "\<exists>r v'. message_main (quiet_env (replicate 4 0)) (sample_wire r) (\<lambda>_. ''reply'') ''0.1'' (\<lambda>_ _. Inr (ObserveSends None))
     (Some ''/r/m'') \<lparr>env_home = None, env_runtime = None, passwd_file = None, self_owner = None\<rparr> [''ObserveSends''] \<lparr>calls = [], printed = []\<rparr>
     = Some (\<lparr>exit_code = 0, stdout = [''reply''], stderr = []\<rparr>, v')"
proof -
  obtain w' r where run: "answer_ordinary sample_configure_host 1 idle = Some (Inr (), w')"
    and told: "[r] = map fst (told_of (drop (length (talk idle)) (talk w')))"
    and bytes: "written 1 (drop (length (calls idle)) (calls w')) = replicate 4 0"
    by (metis sample_told)
  let ?v = "\<lparr>calls = [], printed = []\<rparr> :: response client_world"
  have "\<exists>v'. message_main (quiet_env (replicate 4 0)) (sample_wire r) (\<lambda>_. ''reply'') ''0.1'' (\<lambda>_ _. Inr (ObserveSends None))
      (Some ''/r/m'') \<lparr>env_home = None, env_runtime = None, passwd_file = None, self_owner = None\<rparr> [''ObserveSends''] ?v
     = Some (\<lparr>exit_code = 0, stdout = map (\<lambda>_. ''reply'') [r], stderr = []\<rparr>, v')"
  proof (rule client_prints_what_nexus_told [OF run sample_apart told])
    show "feeds (quiet_env (replicate 4 0)) 0 (written 1 (drop (length (calls idle)) (calls w')) @ []) (calls ?v)"
      using quiet_env_feeds [of "replicate 4 0" 0 "[]"] bytes by simp
  qed (auto simp: sample_configure_host_def sample_wire_def quiet_env_def FRAME_LIMIT_def)
  then show ?thesis by auto
qed

lemma call_reports_what_nexus_told_witness:
  "\<exists>r v'. run_call (sample_mcp\<lparr>mcp_env := quiet_env (replicate 4 0), mcp_wire := sample_wire r\<rparr>) sample_call fresh_call
     = Some v' \<and> length (shown v') = 2"
proof -
  obtain w' r where run: "answer_ordinary sample_configure_host 1 idle = Some (Inr (), w')"
    and told: "[r] = map fst (told_of (drop (length (talk idle)) (talk w')))"
    and bytes: "written 1 (drop (length (calls idle)) (calls w')) = replicate 4 0"
    by (metis sample_told)
  let ?m = "sample_mcp\<lparr>mcp_env := quiet_env (replicate 4 0), mcp_wire := sample_wire r\<rparr>"
  have "\<exists>v'. run_call ?m sample_call fresh_call = Some v' \<and> shown v' = shown fresh_call @ map (\<lambda>l. (l, True))
    (progress_lines ?m sample_call 0 [r] @ [final_reply ?m sample_call (last [r]) (accepted_after [r]) (cursor_after [r])])"
  proof (rule call_reports_what_nexus_told [OF run sample_apart told])
    show "feeds (mcp_env ?m) 0 (written 1 (drop (length (calls idle)) (calls w')) @ []) (calls fresh_call)"
      using quiet_env_feeds [of "replicate 4 0" 0 "[]"] bytes by simp
    show "undisturbed ?m" using sample_mcp_simps(4) by (simp add: undisturbed_def)
  qed (auto simp: sample_configure_host_def sample_wire_def quiet_env_def FRAME_LIMIT_def)
  then obtain v' where "run_call ?m sample_call fresh_call = Some v'" and "length (shown v') = 2" by auto
  then show ?thesis by (intro exI [of _ r] exI [of _ v']) simp
qed


text \<open>C9. The query of a tool call reaches the Nexus whole: when the call could send it, a handler that
  reads what was written on that connection reads exactly this query, and nothing of it is
  left. The command-line clients' \<open>send_archive\<close> writes the same bytes.\<close>

theorem query_arrives:
  assumes "mcp_send m peer q v = (Inr (), v')" and "archive_query (mcp_wire m) q = Inr bytes"
    and "length bytes \<le> FRAME_LIMIT" and "de_query (host_client h) bytes = Inr q"
    and "feeds (host_env h) s (written peer (drop (length (calls v)) (calls v')) @ rest) (calls w)"
  shows "(\<exists>w1. read_frame (host_env h) (de_query (host_client h)) s w = (Inr q, w1) \<and> feeds (host_env h) s rest (calls w1)) \<and>
    (\<forall>env u (u' :: 'y net_scheme). send_archive env (mcp_wire m) peer q u = (Inr (), u') \<longrightarrow>
       written peer (drop (length (calls u)) (calls u')) = written peer (drop (length (calls v)) (calls v')))"
proof (intro conjI allI impI)
  show "\<exists>w1. read_frame (host_env h) (de_query (host_client h)) s w = (Inr q, w1) \<and> feeds (host_env h) s rest (calls w1)"
    using assms(3-5) unfolding mcp_send_written [OF assms(1,2)] by (intro frame_arrives)
next
  fix env and u u' :: "'y net_scheme"
  assume "send_archive env (mcp_wire m) peer q u = (Inr (), u')"
  from send_archive_written [OF this assms(2)] mcp_send_written [OF assms(1,2)]
  show "written peer (drop (length (calls u)) (calls u')) = written peer (drop (length (calls v)) (calls v'))" by simp
qed

lemma query_arrives_witness:
  "\<exists>w1. read_frame (quiet_env [0, 0, 0, 1, 9]) (de_query (host_client sample_configure_host)) 1 idle =
     (Inr (Configure (std_configuration sample_standard)), w1)"
proof -
  let ?q = "Configure (std_configuration sample_standard)" and ?m = "sample_mcp" and ?bytes = "[9]"
  let ?h = "sample_configure_host\<lparr>host_env := quiet_env [0, 0, 0, 1, 9]\<rparr>"
  let ?v' = "called (Write_All 0 [9]) (called (Write_All 0 [0, 0, 0, 1]) fresh_call)"
  have s: "mcp_send ?m 0 ?q fresh_call = (Inr (), ?v')"
    by (simp add: mcp_send_def io_simps write_all_def sys_unit_def u32_try_from_def sample_message_wire_def quiet_env_def
        to_be_bytes_def)
  have f: "feeds (host_env ?h) 1 (written 0 (drop (length (calls fresh_call)) (calls ?v')) @ []) (calls idle)"
    using quiet_env_feeds [of "[0, 0, 0, 1, 9]" 1 "[]"] by (simp add: called_def)
  have "\<exists>w1. read_frame (host_env ?h) (de_query (host_client ?h)) 1 idle = (Inr ?q, w1)"
    using query_arrives [OF s _ _ _ f, of ?bytes] by (force simp: sample_message_wire_def sample_configure_host_def FRAME_LIMIT_def)
  then show ?thesis by simp
qed

text \<open>C11. Over a whole session each id is answered once. However the session went and however the
  workers' lines are interleaved on the output, when every dispatched call has run to its end the
  workers have written at most one line that ends a call with a given id, only for an id that was
  dispatched, and none for a dispatched one only if its worker saw the connection dead. Lines of
  one worker are never taken for another's, since no two calls are dispatched under the same id.\<close>

theorem session_answers_once:
  assumes "session_reach h s"
    and "\<And>call. call \<in> set (s_dispatched s) \<Longrightarrow>
      run_call (m call) call (begun call) = Some (stop call) \<and> shown (begun call) = []"
    and "mset out = mset (concat (map (\<lambda>call. shown (stop call)) (s_dispatched s)))"
  shows "length (filter (final_for v) out) \<le> 1 \<and>
    (filter (final_for v) out \<noteq> [] \<longrightarrow> v \<in> call_id ` set (s_dispatched s)) \<and>
    (\<forall>call \<in> set (s_dispatched s). call_id call = v \<and> filter (final_for v) out = [] \<longrightarrow> flag_dead (stop call))"
  using session_finals [OF assms] by blast


lemma session_answers_once_witness:
  "\<exists>stop. run_call \<lparr>mcp_env = quiet_env [], mcp_wire = sample_message_wire, mcp_socket = ''/r/m'', mcp_text = (\<lambda>_. ''reply''),
       mcp_cancel = (\<lambda>_ _. True), mcp_alive = (\<lambda>_ _. True), mcp_writable = (\<lambda>_ _. True)\<rparr> sample_json_call
       \<lparr>calls = [], flag_cancelled = False, flag_dead = False, loads = 0, shown = [], replies = [], observer = None, removals = 0\<rparr>
     = Some stop \<and> length (shown stop) = 1 \<and> \<not> flag_dead stop \<and>
     length (filter (final_for (J_Str ''i'')) (shown stop)) \<le> 1 \<and> filter (final_for (J_Str ''i'')) (shown stop) \<noteq> []"
proof -
  let ?m = "\<lparr>mcp_env = quiet_env [], mcp_wire = sample_message_wire, mcp_socket = ''/r/m'', mcp_text = (\<lambda>_. ''reply''),
       mcp_cancel = (\<lambda>_ _. True), mcp_alive = (\<lambda>_ _. True), mcp_writable = (\<lambda>_ _. True)\<rparr>"
  let ?w = "\<lparr>calls = [], flag_cancelled = False, flag_dead = False, loads = 0, shown = [], replies = [], observer = None, removals = 0\<rparr>"
  obtain stop where run: "run_call ?m sample_json_call ?w = Some stop" "length (shown stop) = 1" "\<not> flag_dead stop"
    by (simp add: run_call_def load_cancelled_def report_if_alive_def load_alive_def write_json_def forget_call_def Let_def)
  have "length (filter (final_for (J_Str ''i'')) (shown stop)) \<le> 1 \<and>
      (call_id sample_json_call = J_Str ''i'' \<and> filter (final_for (J_Str ''i'')) (shown stop) = [] \<longrightarrow> flag_dead stop)"
    using session_answers_once [OF sample_reach, of "\<lambda>_. ?m" "\<lambda>_. ?w" "\<lambda>_. stop" "shown stop" "J_Str ''i''"] run by simp
  with run show ?thesis by (intro exI [of _ stop]) (auto simp: sample_json_call_def)
qed

end
