(* ===== verification/Handlers.thy ===== *)
theory Handlers imports Nexus begin

text \<open>
  The handlers of message-nexus at the same time. Every connection has its own thread; what they
  share is the store behind a mutex (\<open>HoldsNexusState::store\<close> in nexus.rs), which \<open>configure\<close> of
  service.rs holds from its read of the record to its return and \<open>flow_edge\<close> while it reads. Here
  the handlers are cut where another thread may run, and the interleaved runs are led back to the
  sequential ones of \<open>nexus_run\<close>.
\<close>

section \<open>The mutex\<close>

record mutex =
  mx_holder :: "nat option"
  mx_poisoned :: bool

text \<open>
  \<open>lock\<close> blocks, here \<open>None\<close>, while a thread holds the guard. A lock that a panic poisoned is taken
  all the same (\<open>into_inner\<close>).
\<close>

definition lock_store :: "nat \<Rightarrow> mutex \<Rightarrow> mutex option" where
  "lock_store i m = (case mx_holder m of None \<Rightarrow> Some (m\<lparr>mx_holder := Some i\<rparr>) | Some _ \<Rightarrow> None)"

definition drop_guard :: "bool \<Rightarrow> mutex \<Rightarrow> mutex" where
  "drop_guard panicking m = m\<lparr>mx_holder := None, mx_poisoned := mx_poisoned m \<or> panicking\<rparr>"

section \<open>One handler\<close>

text \<open>\<open>configure\<close> in its two halves: up to the guard against ordinary clients, and the replacement.\<close>

definition configure_read :: "('st \<Rightarrow> store_error + standard) \<Rightarrow> bool \<Rightarrow> 'st \<Rightarrow> configure_failure + standard" where
  "configure_read read meta st =
     (case read st of
        Inl e \<Rightarrow> Inl (Store_Failure e)
      | Inr current \<Rightarrow> if \<not> meta \<and> std_meta_configured current then Inl AlreadyConfigured else Inr current)"

definition configure_write :: "(standard \<Rightarrow> ('st, store_error, unit) io) \<Rightarrow> configuration \<Rightarrow> bool \<Rightarrow> standard \<Rightarrow>
    ('st, configure_failure, bool) io" where
  "configure_write replace configuration meta current =
     io_bind (io_map_err Store_Failure (replace (changed_configuration current configuration meta)))
       (\<lambda>_. io_ret (std_configuration current \<noteq> configuration))"

lemma configure_halves:
  "configure_with read replace c meta st =
     (case configure_read read meta st of
        Inl e \<Rightarrow> (Inl e, st)
      | Inr current \<Rightarrow> configure_write replace c meta current st)"
  by (simp add: configure_with_def configure_read_def configure_write_def Let_def split: sum.split)

text \<open>The answer of the ordinary socket to a Configure.\<close>

definition ordinary_answer :: "configure_failure + bool \<Rightarrow> response" where
  "ordinary_answer k =
     (case k of
        Inr _ \<Rightarrow> Configured
      | Inl AlreadyConfigured \<Rightarrow> Refused Send_AlreadyConfigured
      | Inl (Store_Failure e) \<Rightarrow> Refused (Send_Store (show_store_error e)))"

lemma serve_query_answer:
  "configure api c False g = (k, g') \<Longrightarrow> serve_query api (Configure c) g = (ordinary_answer k, g')"
  by (auto simp: serve_query_def ordinary_answer_def split: sum.split configure_failure.split)

datatype job = Configuring configuration bool | Reading_Flow

datatype outcome = Configure_Outcome configuration bool "configure_failure + bool" | Flow_Outcome "store_error + string"

text \<open>
  Where a handler is: before the lock, with the guard, with the record it read, with its outcome
  and still the guard, done; or gone in a panic.
\<close>

datatype stage =
    Waiting job
  | Holding job
  | Has_Read configuration bool standard
  | Has_Outcome outcome
  | Answered outcome
  | Panicked

definition holds_guard :: "stage option \<Rightarrow> bool" where
  "holds_guard st \<longleftrightarrow> (\<exists>j. st = Some (Holding j)) \<or> (\<exists>c m cur. st = Some (Has_Read c m cur)) \<or> (\<exists>r. st = Some (Has_Outcome r))"

definition event_of :: "outcome \<Rightarrow> nexus_event" where
  "event_of r =
     (case r of
        Configure_Outcome c meta k \<Rightarrow> if meta then Owner c (meta_answer k) else Ordinary c (ordinary_answer k)
      | Flow_Outcome path \<Rightarrow> Read_Flow path)"

section \<open>All of them\<close>

record 'g handlers =
  hs_store :: 'g
  hs_mutex :: mutex
  hs_stage :: "nat \<Rightarrow> stage option"

definition stage_to :: "nat \<Rightarrow> stage \<Rightarrow> 'g handlers \<Rightarrow> 'g handlers" where
  "stage_to i st s = s\<lparr>hs_stage := (hs_stage s)(i \<mapsto> st)\<rparr>"

lemma stage_to_simps [simp]:
  "hs_store (stage_to i st s) = hs_store s" "hs_mutex (stage_to i st s) = hs_mutex s"
  "hs_stage (stage_to i st s) = (hs_stage s)(i \<mapsto> st)"
  by (simp_all add: stage_to_def)

text \<open>
  A step of one thread. The label is the event that takes effect with it: at the read that ends a
  Configure, at the replacement, at the reading of Flow's socket.
\<close>

inductive handler_step :: "'g engine_api \<Rightarrow> 'g handlers \<Rightarrow> (nat \<times> nexus_event) option \<Rightarrow> 'g handlers \<Rightarrow> bool"
  for api where
  arrives: "hs_stage s i = None \<Longrightarrow> handler_step api s None (stage_to i (Waiting job) s)"
| locks: "hs_stage s i = Some (Waiting job) \<Longrightarrow> lock_store i (hs_mutex s) = Some m \<Longrightarrow>
    handler_step api s None (stage_to i (Holding job) (s\<lparr>hs_mutex := m\<rparr>))"
| refuses: "hs_stage s i = Some (Holding (Configuring c meta)) \<Longrightarrow>
    configure_read (read_standard api) meta (hs_store s) = Inl e \<Longrightarrow>
    handler_step api s (Some (i, event_of (Configure_Outcome c meta (Inl e))))
      (stage_to i (Has_Outcome (Configure_Outcome c meta (Inl e))) s)"
| reads: "hs_stage s i = Some (Holding (Configuring c meta)) \<Longrightarrow>
    configure_read (read_standard api) meta (hs_store s) = Inr current \<Longrightarrow>
    handler_step api s None (stage_to i (Has_Read c meta current) s)"
| writes: "hs_stage s i = Some (Has_Read c meta current) \<Longrightarrow>
    configure_write (replace_standard api) c meta current (hs_store s) = (k, g) \<Longrightarrow>
    handler_step api s (Some (i, event_of (Configure_Outcome c meta k)))
      (stage_to i (Has_Outcome (Configure_Outcome c meta k)) (s\<lparr>hs_store := g\<rparr>))"
| reads_flow: "hs_stage s i = Some (Holding Reading_Flow) \<Longrightarrow> flow_edge api (hs_store s) = r \<Longrightarrow>
    handler_step api s (Some (i, event_of (Flow_Outcome r))) (stage_to i (Has_Outcome (Flow_Outcome r)) s)"
| unlocks: "hs_stage s i = Some (Has_Outcome r) \<Longrightarrow>
    handler_step api s None (stage_to i (Answered r) (s\<lparr>hs_mutex := drop_guard False (hs_mutex s)\<rparr>))"
| panics: "holds_guard (hs_stage s i) \<Longrightarrow>
    handler_step api s None (stage_to i Panicked (s\<lparr>hs_mutex := drop_guard True (hs_mutex s)\<rparr>))"

inductive handler_run :: "'g engine_api \<Rightarrow> 'g handlers \<Rightarrow> (nat \<times> nexus_event) list \<Rightarrow> 'g handlers \<Rightarrow> bool"
  for api where
  none: "handler_run api s [] s"
| more: "handler_run api s es t \<Longrightarrow> handler_step api t e u \<Longrightarrow>
    handler_run api s (es @ (case e of None \<Rightarrow> [] | Some x \<Rightarrow> [x])) u"

section \<open>The guard excludes\<close>

definition guard_ok :: "'g engine_api \<Rightarrow> 'g handlers \<Rightarrow> bool" where
  "guard_ok api s \<longleftrightarrow>
     (\<forall>i. holds_guard (hs_stage s i) \<longleftrightarrow> mx_holder (hs_mutex s) = Some i) \<and>
     (\<forall>i c meta current. hs_stage s i = Some (Has_Read c meta current) \<longrightarrow>
        configure_read (read_standard api) meta (hs_store s) = Inr current)"

lemma holds_guard_simps [simp]:
  "holds_guard (Some (Holding j))" "holds_guard (Some (Has_Read c m cur))" "holds_guard (Some (Has_Outcome r))"
  "\<not> holds_guard None" "\<not> holds_guard (Some (Waiting j))" "\<not> holds_guard (Some (Answered r))" "\<not> holds_guard (Some Panicked)"
  by (simp_all add: holds_guard_def)

lemma guard_ok_holder: "guard_ok api s \<Longrightarrow> holds_guard (hs_stage s i) \<longleftrightarrow> mx_holder (hs_mutex s) = Some i"
  by (simp add: guard_ok_def)

text \<open>Thread \<open>i\<close> goes to another stage: with the guard it may change the store, without it only get the guard.\<close>

lemma guard_ok_change:
  assumes ok: "guard_ok api s" and stages: "hs_stage t = (hs_stage s)(i \<mapsto> st)"
    and holder: "mx_holder (hs_mutex t) = (if holds_guard (Some st) then Some i
      else if holds_guard (hs_stage s i) then None else mx_holder (hs_mutex s))"
    and gets: "holds_guard (Some st) \<Longrightarrow> holds_guard (hs_stage s i) \<or> mx_holder (hs_mutex s) = None"
    and store: "hs_store t = hs_store s \<or> holds_guard (hs_stage s i)"
    and read: "\<And>c m cur. st = Has_Read c m cur \<Longrightarrow> configure_read (read_standard api) m (hs_store t) = Inr cur"
  shows "guard_ok api t"
proof -
  have "holds_guard (hs_stage t k) \<longleftrightarrow> mx_holder (hs_mutex t) = Some k" for k
    using gets guard_ok_holder [OF ok, of i] guard_ok_holder [OF ok, of k]
    by (cases "k = i"; cases "holds_guard (Some st)"; cases "holds_guard (hs_stage s i)") (simp_all add: stages holder)
  moreover have "configure_read (read_standard api) m (hs_store t) = Inr cur" if k: "hs_stage t k = Some (Has_Read c m cur)" for k c m cur
  proof (cases "k = i")
    case True
    with k stages show ?thesis by (intro read) simp
  next
    case False
    with k stages have sk: "hs_stage s k = Some (Has_Read c m cur)" by simp
    then have "mx_holder (hs_mutex s) = Some k" using guard_ok_holder [OF ok, of k] by simp
    with False guard_ok_holder [OF ok, of i] store have "hs_store t = hs_store s" by auto
    with sk ok show ?thesis by (simp add: guard_ok_def)
  qed
  ultimately show ?thesis by (simp add: guard_ok_def)
qed

lemma guard_ok_step:
  assumes "handler_step api s e t" and ok: "guard_ok api s"
  shows "guard_ok api t"
  using assms(1)
proof cases
  case (arrives i job)
  show ?thesis by (rule guard_ok_change [OF ok, of _ i "Waiting job"]) (simp_all add: arrives)
next
  case (locks i job m)
  then have "mx_holder (hs_mutex s) = None" "mx_holder m = Some i"
    by (auto simp: lock_store_def split: option.splits)
  then show ?thesis by (intro guard_ok_change [OF ok, of _ i "Holding job"]) (simp_all add: locks)
next
  case (refuses i c meta e)
  show ?thesis
    using guard_ok_holder [OF ok, of i] by (intro guard_ok_change [OF ok, of _ i "Has_Outcome (Configure_Outcome c meta (Inl e))"]) (simp_all add: refuses)
next
  case (reads i c meta current)
  then show ?thesis
    using guard_ok_holder [OF ok, of i] by (intro guard_ok_change [OF ok, of _ i "Has_Read c meta current"]) (auto simp: reads)
next
  case (writes i c meta current k g)
  then show ?thesis
    using guard_ok_holder [OF ok, of i] by (intro guard_ok_change [OF ok, of _ i "Has_Outcome (Configure_Outcome c meta k)"]) (simp_all add: writes)
next
  case (reads_flow i r)
  then show ?thesis
    using guard_ok_holder [OF ok, of i] by (intro guard_ok_change [OF ok, of _ i "Has_Outcome (Flow_Outcome r)"]) (simp_all add: reads_flow)
next
  case (unlocks i r)
  then show ?thesis by (intro guard_ok_change [OF ok, of _ i "Answered r"]) (simp_all add: unlocks drop_guard_def)
next
  case (panics i)
  then show ?thesis by (intro guard_ok_change [OF ok, of _ i Panicked]) (simp_all add: panics drop_guard_def)
qed

lemma guard_ok_run: "handler_run api s es t \<Longrightarrow> guard_ok api s \<Longrightarrow> guard_ok api t"
  by (induction rule: handler_run.induct) (auto intro: guard_ok_step)

section \<open>Interleaved runs are sequential ones\<close>

definition as_nexus :: "configuration \<Rightarrow> 'g handlers \<Rightarrow> 'g nexus" where
  "as_nexus bound s = \<lparr>nx_store = hs_store s, nx_bound = bound\<rparr>"

lemma as_nexus_simps [simp]:
  "as_nexus b (stage_to i st s) = as_nexus b s" "as_nexus b (s\<lparr>hs_mutex := m\<rparr>) = as_nexus b s"
  "nx_store (as_nexus b s) = hs_store s" "as_nexus b s\<lparr>nx_store := g\<rparr> = as_nexus b (s\<lparr>hs_store := g\<rparr>)"
  by (simp_all add: as_nexus_def)

lemma configure_event:
  assumes "configure api c meta (nx_store n) = (k, g)"
  shows "nexus_step api n (event_of (Configure_Outcome c meta k)) (n\<lparr>nx_store := g\<rparr>)"
proof (cases meta)
  case True
  with assms show ?thesis by (auto simp: event_of_def intro: nexus_step.owner)
next
  case False
  with assms serve_query_answer [of api c "nx_store n" k g] show ?thesis
    by (auto simp: event_of_def intro: nexus_step.ordinary)
qed

text \<open>A labelled step is a step of the sequential Nexus, an unlabelled one changes nothing of it.\<close>

lemma handler_step_nexus:
  assumes "handler_step api s e t" and ok: "guard_ok api s"
  shows "case e of None \<Rightarrow> as_nexus b t = as_nexus b s | Some (i, x) \<Rightarrow> nexus_step api (as_nexus b s) x (as_nexus b t)"
  using assms(1)
proof cases
  case (refuses i c meta e)
  then have "configure api c meta (hs_store s) = (Inl e, hs_store s)"
    by (simp add: configure_def configure_halves)
  from configure_event [of api c meta "as_nexus b s" "Inl e" "hs_store s"] this refuses show ?thesis
    by (simp add: as_nexus_def)
next
  case (writes i c meta current k g)
  with ok have "configure api c meta (hs_store s) = (k, g)"
    by (simp add: configure_def configure_halves guard_ok_def)
  from configure_event [of api c meta "as_nexus b s" k g] this writes show ?thesis by simp
next
  case (reads_flow i r)
  with nexus_step.reading [of api "as_nexus b s" r] show ?thesis by (simp add: event_of_def)
qed simp_all

lemma handler_run_nexus:
  assumes "handler_run api s es t" and "guard_ok api s"
  shows "nexus_run api (as_nexus b s) (map snd es) (as_nexus b t)"
  using assms
proof (induction rule: handler_run.induct)
  case (none s)
  show ?case by (simp add: nexus_run.here)
next
  case (more s es t e u)
  from handler_step_nexus [OF more.hyps(2) guard_ok_run [OF more.hyps(1) more.prems], of b] more.IH more.prems
  show ?case by (cases e) (auto intro: nexus_run.step)
qed

text \<open>The events of one thread: its own, once it took effect.\<close>

definition own_events :: "nat \<Rightarrow> (nat \<times> nexus_event) list \<Rightarrow> (nat \<times> nexus_event) list" where
  "own_events i es = filter (\<lambda>x. fst x = i) es"

definition effect_of :: "nat \<Rightarrow> stage option \<Rightarrow> (nat \<times> nexus_event) list \<Rightarrow> bool" where
  "effect_of i st own \<longleftrightarrow>
     (case st of
        Some (Has_Outcome r) \<Rightarrow> own = [(i, event_of r)]
      | Some (Answered r) \<Rightarrow> own = [(i, event_of r)]
      | Some Panicked \<Rightarrow> length own \<le> 1
      | _ \<Rightarrow> own = [])"

lemma own_events_simps [simp]:
  "own_events i [] = []" "own_events i (es @ fs) = own_events i es @ own_events i fs"
  "own_events i [x] = (if fst x = i then [x] else [])"
  by (simp_all add: own_events_def)

lemma own_events_in: "own_events i es = [x] \<Longrightarrow> x \<in> set es"
proof -
  assume "own_events i es = [x]"
  then have "x \<in> set (own_events i es)" by simp
  then show "x \<in> set es" by (simp add: own_events_def)
qed

lemma effect_of_step:
  assumes "handler_step api s e t" and "effect_of i (hs_stage s i) (own_events i es)"
  shows "effect_of i (hs_stage t i) (own_events i (es @ (case e of None \<Rightarrow> [] | Some x \<Rightarrow> [x])))"
  using assms(1)
proof cases
  case (panics j)
  with assms(2) show ?thesis by (cases "i = j") (auto simp: effect_of_def holds_guard_def)
next
  case (refuses j c meta e)
  with assms(2) show ?thesis by (cases "i = j") (simp_all add: effect_of_def)
next
  case (writes j c meta current k g)
  with assms(2) show ?thesis by (cases "i = j") (simp_all add: effect_of_def)
next
  case (reads_flow j r)
  with assms(2) show ?thesis by (cases "i = j") (simp_all add: effect_of_def)
next
  case (unlocks j r)
  with assms(2) show ?thesis by (cases "i = j") (simp_all add: effect_of_def)
next
  case (arrives j job)
  with assms(2) show ?thesis by (cases "i = j") (simp_all add: effect_of_def)
next
  case (locks j job m)
  with assms(2) show ?thesis by (cases "i = j") (simp_all add: effect_of_def)
next
  case (reads j c meta current)
  with assms(2) show ?thesis by (cases "i = j") (simp_all add: effect_of_def)
qed

text \<open>No handler yet, and nobody holds the guard; a panic before may have poisoned the lock.\<close>

definition no_handlers :: "'g handlers \<Rightarrow> bool" where
  "no_handlers s \<longleftrightarrow> (\<forall>i. hs_stage s i = None) \<and> mx_holder (hs_mutex s) = None"

lemma no_handlers_ok: "no_handlers s \<Longrightarrow> guard_ok api s"
  by (simp add: no_handlers_def guard_ok_def)

lemma handler_run_effects:
  "handler_run api s es t \<Longrightarrow> no_handlers s \<Longrightarrow> effect_of i (hs_stage t i) (own_events i es)"
proof (induction arbitrary: i rule: handler_run.induct)
  case (none s)
  then show ?case by (simp add: no_handlers_def effect_of_def own_events_def)
next
  case (more s es t e u)
  then show ?case by (intro effect_of_step) auto
qed

text \<open>An owner's success leaves its mark for the rest of a run.\<close>

lemma owner_marked:
  assumes "nexus_run api n es m" and "store_ok api rows (nx_store n)" and "e \<in> set es" and "owner_done e"
  shows "std_meta_configured (stored rows (nx_store m))"
proof -
  obtain before after where "es = before @ e # after" using assms(3) by (meson split_list)
  with nexus_run_append [OF assms(1), of "before" "e # after"] obtain k where
    k: "nexus_run api n before k" "nexus_run api k (e # after) m" by blast
  from nexus_run_append [OF k(2), of "[e]" after] obtain j where
    j: "nexus_run api k [e] j" "nexus_run api j after m" by auto
  from nexus_run_refines [OF k(1) assms(2)] have ok: "store_ok api rows (nx_store k)" by blast
  from nexus_step_refines [OF this nexus_run_one [OF j(1)]] have "store_ok api rows (nx_store j)" by blast
  from owner_mark_run [OF j(2) this owner_done_marks [OF ok nexus_run_one [OF j(1)] assms(4)]] show ?thesis by simp
qed

section \<open>Nobody waits for ever\<close>

lemma handler_run_step: "handler_step api s e t \<Longrightarrow> \<exists>es. handler_run api s es t"
  using handler_run.more [OF handler_run.none] by blast

lemma handler_run_trans:
  assumes "handler_run api t fs u" and "handler_run api s es t"
  shows "handler_run api s (es @ fs) u"
  using assms
proof (induction rule: handler_run.induct)
  case (more t fs u e v)
  from handler_run.more [OF more.IH [OF more.prems] more.hyps(2)] show ?case by simp
qed simp

definition can_reach :: "'g engine_api \<Rightarrow> 'g handlers \<Rightarrow> ('g handlers \<Rightarrow> bool) \<Rightarrow> bool" where
  "can_reach api s P \<longleftrightarrow> (\<exists>es t. handler_run api s es t \<and> P t)"

lemma can_reach_now: "P s \<Longrightarrow> can_reach api s P"
  unfolding can_reach_def using handler_run.none by blast

lemma can_reach_step: "handler_step api s e t \<Longrightarrow> can_reach api t P \<Longrightarrow> can_reach api s P"
  unfolding can_reach_def using handler_run_step handler_run_trans by blast

text \<open>A thread with the guard can always finish by itself, leaving the others where they are.\<close>

definition finished_only :: "nat \<Rightarrow> 'g handlers \<Rightarrow> 'g handlers \<Rightarrow> bool" where
  "finished_only i s t \<longleftrightarrow> (\<exists>r. hs_stage t i = Some (Answered r)) \<and> (\<forall>j. j \<noteq> i \<longrightarrow> hs_stage t j = hs_stage s j) \<and>
     mx_holder (hs_mutex t) = None"

lemma outcome_finishes:
  assumes "hs_stage s i = Some (Has_Outcome r)"
  shows "can_reach api s (finished_only i s)"
  by (rule can_reach_step [OF handler_step.unlocks [OF assms]], rule can_reach_now)
     (simp add: finished_only_def drop_guard_def)

lemma guard_finishes:
  assumes "holds_guard (hs_stage s i)"
  shows "can_reach api s (finished_only i s)"
proof -
  have next_stage: "can_reach api s (finished_only i s)"
    if "handler_step api s e t" "hs_stage t i = Some (Has_Outcome r)" "\<forall>j. j \<noteq> i \<longrightarrow> hs_stage t j = hs_stage s j" for e t r s
  proof -
    have "finished_only i t = finished_only i s" using that(3) by (simp add: finished_only_def fun_eq_iff)
    with outcome_finishes [OF that(2), of api] show ?thesis by (simp add: can_reach_step [OF that(1)])
  qed
  have read: "can_reach api s (finished_only i s)" if "hs_stage s i = Some (Has_Read c m cur)" for c m cur s
  proof -
    obtain k g where w: "configure_write (replace_standard api) c m cur (hs_store s) = (k, g)" by fastforce
    show ?thesis by (rule next_stage [OF handler_step.writes [OF that w]]) simp_all
  qed
  from assms consider (out) r where "hs_stage s i = Some (Has_Outcome r)" | (rd) c m cur where "hs_stage s i = Some (Has_Read c m cur)"
    | (conf) c m where "hs_stage s i = Some (Holding (Configuring c m))" | (flow) "hs_stage s i = Some (Holding Reading_Flow)"
    unfolding holds_guard_def by (metis job.exhaust)
  then show ?thesis
  proof cases
    case out
    then show ?thesis by (rule outcome_finishes)
  next
    case rd
    then show ?thesis by (rule read)
  next
    case flow
    show ?thesis by (rule next_stage [OF handler_step.reads_flow [OF flow refl]]) simp_all
  next
    case conf
    show ?thesis
    proof (cases "configure_read (read_standard api) m (hs_store s)")
      case (Inl e)
      show ?thesis by (rule next_stage [OF handler_step.refuses [OF conf Inl]]) simp_all
    next
      case (Inr cur)
      let ?t = "stage_to i (Has_Read c m cur) s"
      have "finished_only i ?t = finished_only i s" by (simp add: finished_only_def fun_eq_iff)
      with read [of ?t c m cur] show ?thesis by (simp add: can_reach_step [OF handler_step.reads [OF conf Inr]])
    qed
  qed
qed

lemma lock_finishes:
  assumes "hs_stage s i = Some (Waiting job)" and "mx_holder (hs_mutex s) = None"
  shows "can_reach api s (\<lambda>t. \<exists>r. hs_stage t i = Some (Answered r))"
proof -
  let ?t = "stage_to i (Holding job) (s\<lparr>hs_mutex := (hs_mutex s)\<lparr>mx_holder := Some i\<rparr>\<rparr>)"
  have "handler_step api s None ?t"
    using assms by (intro handler_step.locks) (simp_all add: lock_store_def)
  moreover have "can_reach api ?t (\<lambda>t. \<exists>r. hs_stage t i = Some (Answered r))"
    using guard_finishes [of ?t i api] by (force simp: can_reach_def finished_only_def)
  ultimately show ?thesis by (rule can_reach_step)
qed

lemma waiting_finishes:
  assumes "guard_ok api s" and "hs_stage s i = Some (Waiting job)"
  shows "can_reach api s (\<lambda>t. \<exists>r. hs_stage t i = Some (Answered r))"
proof (cases "mx_holder (hs_mutex s)")
  case None
  with assms(2) show ?thesis by (rule lock_finishes)
next
  case (Some j)
  with guard_ok_holder [OF assms(1), of j] have "holds_guard (hs_stage s j)" by simp
  then have "j \<noteq> i" using assms(2) by auto
  from guard_finishes [OF \<open>holds_guard (hs_stage s j)\<close>, of api] obtain es t where t: "handler_run api s es t" "finished_only j s t"
    by (auto simp: can_reach_def)
  with assms(2) \<open>j \<noteq> i\<close> have "can_reach api t (\<lambda>t. \<exists>r. hs_stage t i = Some (Answered r))"
    by (intro lock_finishes) (auto simp: finished_only_def)
  with t(1) show ?thesis unfolding can_reach_def using handler_run_trans by blast
qed


section \<open>Examples\<close>

text \<open>A handler that nobody disturbs does what \<open>configure\<close> does.\<close>

lemma undisturbed_handler:
  assumes "hs_stage s i = None" and "mx_holder (hs_mutex s) = None" and "configure api c meta (hs_store s) = (k, g)"
  obtains es t where "handler_run api s es t" and "hs_stage t = (hs_stage s)(i \<mapsto> Answered (Configure_Outcome c meta k))"
    and "hs_store t = g" and "mx_holder (hs_mutex t) = None"
proof -
  let ?job = "Configuring c meta"
  let ?s1 = "stage_to i (Waiting ?job) s"
  let ?s2 = "stage_to i (Holding ?job) (?s1\<lparr>hs_mutex := (hs_mutex s)\<lparr>mx_holder := Some i\<rparr>\<rparr>)"
  let ?goal = "\<lambda>t. hs_stage t = (hs_stage s)(i \<mapsto> Answered (Configure_Outcome c meta k)) \<and> hs_store t = g \<and> mx_holder (hs_mutex t) = None"
  have out: "can_reach api u ?goal"
    if "hs_stage u = (hs_stage s)(i \<mapsto> Has_Outcome (Configure_Outcome c meta k))" "hs_store u = g" for u
  proof (rule can_reach_step [OF handler_step.unlocks])
    show "hs_stage u i = Some (Has_Outcome (Configure_Outcome c meta k))" using that by simp
  qed (rule can_reach_now, simp add: that drop_guard_def)
  have "can_reach api ?s2 ?goal"
  proof (cases "configure_read (read_standard api) meta (hs_store s)")
    case (Inl e)
    with assms(3) have k: "k = Inl e" "g = hs_store s" by (auto simp: configure_def configure_halves)
    show ?thesis
      by (rule can_reach_step [OF handler_step.refuses [of ?s2 i c meta api e]], simp, simp add: Inl, rule out) (simp_all add: k)
  next
    case (Inr cur)
    with assms(3) have w: "configure_write (replace_standard api) c meta cur (hs_store s) = (k, g)"
      by (simp add: configure_def configure_halves)
    let ?s3 = "stage_to i (Has_Read c meta cur) ?s2"
    have "can_reach api ?s3 ?goal"
      by (rule can_reach_step [OF handler_step.writes [of ?s3 i c meta cur api k g]], simp, simp add: w, rule out) simp_all
    then show ?thesis
      by (rule can_reach_step [OF handler_step.reads [of ?s2 i c meta api cur], rotated -1]) (simp_all add: Inr)
  qed
  then have "can_reach api ?s1 ?goal"
    by (rule can_reach_step [OF handler_step.locks [of ?s1 i ?job], rotated -1]) (simp_all add: lock_store_def assms(2))
  then have "can_reach api s ?goal"
    by (rule can_reach_step [OF handler_step.arrives [OF assms(1)]])
  then show thesis unfolding can_reach_def using that by blast
qed

definition idle_handlers :: "(string \<Rightarrow> standard option) handlers" where
  "idle_handlers = \<lparr>hs_store = sample_engine, hs_mutex = \<lparr>mx_holder = None, mx_poisoned = True\<rparr>, hs_stage = (\<lambda>_. None)\<rparr>"

lemma idle_handlers_simps [simp]:
  "no_handlers idle_handlers" "hs_stage idle_handlers = (\<lambda>_. None)" "mx_holder (hs_mutex idle_handlers) = None"
  "hs_store idle_handlers = sample_engine"
  by (simp_all add: idle_handlers_def no_handlers_def)

lemma owner_then_ordinary:
  obtains es t fs u where "handler_run mem_engine idle_handlers es t"
    and "hs_stage t = [0 \<mapsto> Answered (Configure_Outcome other_configuration True (Inr True))]"
    and "handler_run mem_engine t fs u"
    and "hs_stage u 1 = Some (Answered (Configure_Outcome other_configuration False (Inl AlreadyConfigured)))"
proof -
  have "configure mem_engine other_configuration True (hs_store idle_handlers) =
    (Inr True, sample_engine(STANDARD_KEY \<mapsto> \<lparr>std_configuration = other_configuration, std_meta_configured = True\<rparr>))"
    using mem_configure [of sample_engine sample_standard True other_configuration]
    by (simp add: sample_engine_def changed_configuration_def sample_standard_def)
  then obtain es t where t: "handler_run mem_engine idle_handlers es t"
    "hs_stage t = [0 \<mapsto> Answered (Configure_Outcome other_configuration True (Inr True))]"
    "hs_store t = sample_engine(STANDARD_KEY \<mapsto> \<lparr>std_configuration = other_configuration, std_meta_configured = True\<rparr>)"
    "mx_holder (hs_mutex t) = None"
    by (rule undisturbed_handler [of idle_handlers 0, rotated 2]) simp_all
  have "configure mem_engine other_configuration False (hs_store t) = (Inl AlreadyConfigured, hs_store t)"
    using mem_read [of "hs_store t" "\<lparr>std_configuration = other_configuration, std_meta_configured = True\<rparr>"]
    by (simp add: configure_def configure_with_def t(3))
  then obtain fs u where u: "handler_run mem_engine t fs u"
    "hs_stage u = (hs_stage t)(1 \<mapsto> Answered (Configure_Outcome other_configuration False (Inl AlreadyConfigured)))"
    by (rule undisturbed_handler [of t 1, rotated 2]) (simp_all add: t)
  show thesis by (rule that [OF t(1,2) u(1)]) (simp add: u(2))
qed

section \<open>Properties\<close>

text \<open>C5. The handlers of all connections together behave like one handler after another. Whatever
  the interleaving, and although a handler may panic with the lock, from a start without
  handlers: what the store holds is reached by a sequential run of the Nexus, in the order in
  which the handlers took effect; a handler that has answered took effect exactly once, with the
  answer it gives, and one that still waits for the lock, or has not come, has not; and a handler
  that waits can always still be answered, whoever holds the lock and however it was poisoned.\<close>

theorem handlers_linearize:
  assumes "handler_run api s es t" and "no_handlers s"
  shows "nexus_run api (as_nexus b s) (map snd es) (as_nexus b t) \<and>
    (\<forall>i r. hs_stage t i = Some (Answered r) \<longrightarrow> own_events i es = [(i, event_of r)]) \<and>
    (\<forall>i. hs_stage t i = None \<or> (\<exists>job. hs_stage t i = Some (Waiting job)) \<longrightarrow> own_events i es = []) \<and>
    (\<forall>i job. hs_stage t i = Some (Waiting job) \<longrightarrow>
       (\<exists>fs u r. handler_run api t fs u \<and> hs_stage u i = Some (Answered r)))"
proof (intro conjI allI impI)
  have ok: "guard_ok api s" using assms(2) by (rule no_handlers_ok)
  show "nexus_run api (as_nexus b s) (map snd es) (as_nexus b t)"
    using handler_run_nexus [OF assms(1) ok] .
  show "own_events i es = [(i, event_of r)]" if "hs_stage t i = Some (Answered r)" for i r
    using handler_run_effects [OF assms, of i] that by (simp add: effect_of_def)
  show "own_events i es = []" if "hs_stage t i = None \<or> (\<exists>job. hs_stage t i = Some (Waiting job))" for i
    using handler_run_effects [OF assms, of i] that by (auto simp: effect_of_def)
  show "\<exists>fs u r. handler_run api t fs u \<and> hs_stage u i = Some (Answered r)" if "hs_stage t i = Some (Waiting job)" for i job
    using waiting_finishes [OF guard_ok_run [OF assms(1) ok] that] by (simp add: can_reach_def)
qed

lemma handlers_linearize_witness:
  "\<exists>es t. handler_run mem_engine idle_handlers es t \<and>
     nexus_run mem_engine (as_nexus other_configuration idle_handlers) (map snd es) (as_nexus other_configuration t) \<and>
     own_events 0 es = [(0, Owner other_configuration Meta_RestartRequired)] \<and> own_events 1 es = []"
proof -
  obtain es t where run: "handler_run mem_engine idle_handlers es t"
    and t: "hs_stage t = [0 \<mapsto> Answered (Configure_Outcome other_configuration True (Inr True))]"
    by (rule owner_then_ordinary)
  from handlers_linearize [OF run idle_handlers_simps(1), of other_configuration] t
  have "nexus_run mem_engine (as_nexus other_configuration idle_handlers) (map snd es) (as_nexus other_configuration t) \<and>
     own_events 0 es = [(0, event_of (Configure_Outcome other_configuration True (Inr True)))] \<and> own_events 1 es = []" by simp
  with run show ?thesis by (auto simp: event_of_def meta_answer_def)
qed

text \<open>C6. The owner's Configure closes the ordinary one for every handler that comes after it was
  answered: whatever the interleaving, no later connection is told that its Configure was done.
  A handler that came before may still be, if it took effect first.\<close>

theorem owner_closes_handlers:
  assumes "handler_run api s es t" and "no_handlers s" and "store_ok api rows (hs_store s)"
    and "hs_stage t i = Some (Answered (Configure_Outcome c True (Inr b)))"
    and "handler_run api t fs u" and "hs_stage t j = None"
  shows "hs_stage u j \<noteq> Some (Answered (Configure_Outcome c' False (Inr b')))"
proof
  assume answered: "hs_stage u j = Some (Answered (Configure_Outcome c' False (Inr b')))"
  let ?bound = "\<lparr>conf_ordinary = [], conf_meta = [], conf_flow = []\<rparr>"
  have ok: "guard_ok api s" using assms(2) by (rule no_handlers_ok)
  note first = handler_run_nexus [OF assms(1) ok, of ?bound]
  note second = handler_run_nexus [OF assms(5) guard_ok_run [OF assms(1) ok], of ?bound]
  let ?e = "event_of (Configure_Outcome c True (Inr b))"
  have "own_events i es = [(i, ?e)]"
    using handler_run_effects [OF assms(1,2), of i] assms(4) by (simp add: effect_of_def)
  then have "(i, ?e) \<in> set es" by (rule own_events_in)
  then have "?e \<in> set (map snd es)" by force
  moreover have "owner_done ?e" by (cases b) (auto simp: event_of_def owner_done_def meta_answer_def)
  ultimately have mark: "std_meta_configured (stored rows (hs_store t))"
    using owner_marked [OF first] assms(3) by simp
  have "own_events j es = []"
    using handler_run_effects [OF assms(1,2), of j] assms(6) by (simp add: effect_of_def)
  moreover have "own_events j (es @ fs) = [(j, event_of (Configure_Outcome c' False (Inr b')))]"
    using handler_run_effects [OF handler_run_trans [OF assms(5,1)] assms(2), of j] answered by (simp add: effect_of_def)
  ultimately have "own_events j fs = [(j, Ordinary c' Configured)]"
    by (simp add: event_of_def ordinary_answer_def)
  then have "(j, Ordinary c' Configured) \<in> set fs" by (rule own_events_in)
  then have "Ordinary c' Configured \<in> set (map snd fs)" by force
  moreover have "store_ok api rows (nx_store (as_nexus ?bound t))"
    using nexus_run_refines [OF first] assms(3) by simp
  ultimately show False using owner_mark_run [OF second, of rows c'] mark by simp
qed

lemma owner_closes_handlers_witness:
  "\<exists>es t fs u. handler_run mem_engine idle_handlers es t \<and> handler_run mem_engine t fs u \<and>
     hs_stage t 0 = Some (Answered (Configure_Outcome other_configuration True (Inr True))) \<and>
     (\<exists>k. hs_stage u 1 = Some (Answered (Configure_Outcome other_configuration False k))) \<and>
     hs_stage u 1 \<noteq> Some (Answered (Configure_Outcome other_configuration False (Inr True)))"
proof -
  obtain es t fs u where runs: "handler_run mem_engine idle_handlers es t" "handler_run mem_engine t fs u"
    and t: "hs_stage t = [0 \<mapsto> Answered (Configure_Outcome other_configuration True (Inr True))]"
    and u: "hs_stage u 1 = Some (Answered (Configure_Outcome other_configuration False (Inl AlreadyConfigured)))"
    by (rule owner_then_ordinary)
  have ok: "store_ok mem_engine (\<lambda>g. g) (hs_store idle_handlers)"
    using sample_nexus_ok by (simp add: sample_nexus_def)
  have "hs_stage t 0 = Some (Answered (Configure_Outcome other_configuration True (Inr True)))" "hs_stage t 1 = None"
    using t by simp_all
  from owner_closes_handlers [OF runs(1) idle_handlers_simps(1) ok this(1) runs(2) this(2), of other_configuration True]
  show ?thesis using runs u \<open>hs_stage t 0 = _\<close> by blast
qed

end
