(* ===== verification/Ledger.thy ===== *)
theory Ledger imports Flow_Edge begin

text \<open>
  message-nexus/src/ledger.rs: receipts. Each grade a recipient reaches is appended to the rows of
  its message and told to every subscriber of that message. The file is in the crate's sources
  but not among the modules of lib.rs; the store it appends to (\<open>KeepsLedger\<close>) and the clock's
  stamp (\<open>StampsLedger\<close>) are not in the repository and are parameters. What the code relies on
  of the store is \<open>ledger_contract\<close>.
\<close>

section \<open>Receipts\<close>

text \<open>Flow's and Message's enumerations, as far as the code names them.\<close>

datatype delivery_rejection = RecipientWorking | ComposerOccupied | NotDelivered | Other_Rejection string

datatype grade =
    Grade_Submitted
  | Grade_Parked
  | Grade_Transported
  | Grade_Presented
  | Grade_Uncertain
  | Grade_Refused delivery_rejection
  | Other_Grade string

datatype interrupt_witness = NotRequested | Other_Witness string

record receipt =
  rc_flow_id :: string
  rc_witness :: interrupt_witness
  rc_grade :: grade

text \<open>The stamp is a 64-bit number; a sequence is an \<open>i64\<close>.\<close>

record receipt_record =
  rr_message_id :: string
  rr_sequence :: int
  rr_flow_id :: string
  rr_delivery_id :: string
  rr_witness :: interrupt_witness
  rr_grade :: grade
  rr_stamped_at :: "64 word"

datatype priority = Priority_HardAbrupt | Priority_MiddleAbrupt | Priority_Soft

record message_record =
  mr_message_id :: string
  mr_sender :: string
  mr_content :: string
  mr_priority :: priority
  mr_flow_ids :: "string list"

record addressee =
  ad_message_id :: string
  ad_flow_id :: string

record grading =
  gr_delivery_id :: string
  gr_witness :: interrupt_witness
  gr_grade :: grade

record submission =
  sub_message_id :: string
  sub_receipts :: "receipt list"

definition receipt_of :: "receipt_record \<Rightarrow> receipt" where
  "receipt_of r = \<lparr>rc_flow_id = rr_flow_id r, rc_witness = rr_witness r, rc_grade = rr_grade r\<rparr>"

section \<open>The store and the world\<close>

record ('s, 'e) ledger_api =
  lg_message :: "'s \<Rightarrow> string \<Rightarrow> 'e + message_record option"
  lg_receipts :: "'s \<Rightarrow> string \<Rightarrow> 'e + receipt_record list"
  lg_append :: "'s \<Rightarrow> receipt_record \<Rightarrow> ('e + unit) \<times> 's"
  lg_parks :: "'s \<Rightarrow> 'e + addressee list"

text \<open>
  An observer is the sending half of a channel, a number. \<open>lh_listening\<close> says whether the receiving
  half of one is still there, from what was sent before; \<open>lh_stamp\<close> is the clock at its n-th reading.
\<close>

record ('s, 'e) ledger_host =
  lh_api :: "('s, 'e) ledger_api"
  lh_stamp :: "nat \<Rightarrow> 64 word"
  lh_listening :: "(nat \<times> receipt) list \<Rightarrow> nat \<Rightarrow> bool"

record 's ledger_world =
  lw_store :: 's
  lw_observers :: "string \<Rightarrow> nat list option"
  lw_count :: nat
  lw_clock :: nat
  lw_channels :: nat
  lw_sent :: "(nat \<times> receipt) list"

definition stamp_now :: "('s, 'e, 'h) ledger_host_scheme \<Rightarrow> ('s, 'z) ledger_world_scheme \<Rightarrow>
    64 word \<times> ('s, 'z) ledger_world_scheme" where
  "stamp_now h w = (lh_stamp h (lw_clock w), w\<lparr>lw_clock := Suc (lw_clock w)\<rparr>)"

section \<open>Operations\<close>

text \<open>\<open>format!("{:x}")\<close> and \<open>{:03x}\<close>.\<close>

definition hex_digit :: "nat \<Rightarrow> char" where
  "hex_digit n = (if n < 10 then digit n else char_of (87 + n))"

fun hex :: "nat \<Rightarrow> string" where
  "hex n = (if n < 16 then [hex_digit n] else hex (n div 16) @ [hex_digit (n mod 16)])"

declare hex.simps [simp del]

definition hex3 :: "nat \<Rightarrow> string" where
  "hex3 n = replicate (3 - length (hex n)) (CHR ''0'') @ hex n"

text \<open>The counter of the code is an atomic integer; wrapping at a multiple of 4096 changes nothing here.\<close>

definition new_message_id :: "('s, 'e, 'h) ledger_host_scheme \<Rightarrow> ('s, 'z) ledger_world_scheme \<Rightarrow>
    string \<times> ('s, 'z) ledger_world_scheme" where
  "new_message_id h w =
     (let count = lw_count w; (stamp, w1) = stamp_now h (w\<lparr>lw_count := Suc count\<rparr>)
      in (''m-'' @ hex (unat stamp) @ hex3 (count mod 0x1000), w1))"

text \<open>\<open>iter().rev().find(...)\<close>: the last row of a recipient.\<close>

definition last_for :: "string \<Rightarrow> receipt_record list \<Rightarrow> receipt_record option" where
  "last_for flow_id receipts = find (\<lambda>receipt. rr_flow_id receipt = flow_id) (rev receipts)"

definition latest_receipts :: "('s, 'e, 'h) ledger_host_scheme \<Rightarrow> string \<Rightarrow> ('s, 'z) ledger_world_scheme \<Rightarrow>
    'e + receipt_record list" where
  "latest_receipts h message_id w =
     sum_bind (lg_message (lh_api h) (lw_store w) message_id) (\<lambda>found.
       case found of
         None \<Rightarrow> Inr []
       | Some message \<Rightarrow>
           sum_bind (lg_receipts (lh_api h) (lw_store w) message_id) (\<lambda>receipts.
             Inr (List.map_filter (\<lambda>flow_id. last_for flow_id receipts) (mr_flow_ids message))))"

definition latest_receipt :: "('s, 'e, 'h) ledger_host_scheme \<Rightarrow> addressee \<Rightarrow> ('s, 'z) ledger_world_scheme \<Rightarrow>
    'e + receipt_record option" where
  "latest_receipt h a w =
     sum_bind (lg_receipts (lh_api h) (lw_store w) (ad_message_id a)) (\<lambda>receipts.
       Inr (last_for (ad_flow_id a) receipts))"

text \<open>\<open>retain\<close> with a send per observer: the ones whose receiver is gone are dropped.\<close>

fun tell_observers :: "('s, 'e, 'h) ledger_host_scheme \<Rightarrow> receipt \<Rightarrow> nat list \<Rightarrow> (nat \<times> receipt) list \<Rightarrow>
    nat list \<times> (nat \<times> receipt) list" where
  "tell_observers h r [] sent = ([], sent)"
| "tell_observers h r (observer # rest) sent =
     (if lh_listening h sent observer
      then (case tell_observers h r rest (sent @ [(observer, r)]) of (kept, sent') \<Rightarrow> (observer # kept, sent'))
      else tell_observers h r rest sent)"

definition tell_receipt :: "('s, 'e, 'h) ledger_host_scheme \<Rightarrow> string \<Rightarrow> receipt \<Rightarrow> ('s, 'z) ledger_world_scheme \<Rightarrow>
    ('s, 'z) ledger_world_scheme" where
  "tell_receipt h message_id r w =
     (case lw_observers w message_id of
        None \<Rightarrow> w
      | Some listening \<Rightarrow>
          (case tell_observers h r listening (lw_sent w) of (kept, sent) \<Rightarrow>
             w\<lparr>lw_observers := (lw_observers w)(message_id \<mapsto> kept), lw_sent := sent\<rparr>))"

text \<open>\<open>i64::try_from(usize)\<close>, the largest \<open>i64\<close> where it does not fit.\<close>

definition sequence_after :: "receipt_record list \<Rightarrow> int" where
  "sequence_after receipts = (if length receipts < 2 ^ 63 then int (length receipts) else 2 ^ 63 - 1)"

definition record_grade :: "('s, 'e, 'h) ledger_host_scheme \<Rightarrow> addressee \<Rightarrow> grading \<Rightarrow> ('s, 'z) ledger_world_scheme \<Rightarrow>
    ('e + receipt) \<times> ('s, 'z) ledger_world_scheme" where
  "record_grade h a g w =
     (case lg_receipts (lh_api h) (lw_store w) (ad_message_id a) of
        Inl e \<Rightarrow> (Inl e, w)
      | Inr receipts \<Rightarrow>
          (let (stamp, w1) = stamp_now h w;
               row = \<lparr>rr_message_id = ad_message_id a, rr_sequence = sequence_after receipts, rr_flow_id = ad_flow_id a,
                      rr_delivery_id = gr_delivery_id g, rr_witness = gr_witness g, rr_grade = gr_grade g,
                      rr_stamped_at = stamp\<rparr>
           in case lg_append (lh_api h) (lw_store w1) row of
                (Inl e, s) \<Rightarrow> (Inl e, w1\<lparr>lw_store := s\<rparr>)
              | (Inr _, s) \<Rightarrow> (Inr (receipt_of row), tell_receipt h (ad_message_id a) (receipt_of row) (w1\<lparr>lw_store := s\<rparr>))))"

definition submission_of :: "('s, 'e, 'h) ledger_host_scheme \<Rightarrow> string \<Rightarrow> ('s, 'z) ledger_world_scheme \<Rightarrow>
    'e + submission" where
  "submission_of h message_id w =
     sum_bind (latest_receipts h message_id w) (\<lambda>receipts.
       Inr \<lparr>sub_message_id = message_id, sub_receipts = map receipt_of receipts\<rparr>)"

definition subscribe :: "string \<Rightarrow> ('s, 'z) ledger_world_scheme \<Rightarrow> nat \<times> ('s, 'z) ledger_world_scheme" where
  "subscribe message_id w =
     (lw_channels w,
      w\<lparr>lw_channels := Suc (lw_channels w),
        lw_observers := (lw_observers w)(message_id \<mapsto>
          (case lw_observers w message_id of None \<Rightarrow> [] | Some listening \<Rightarrow> listening) @ [lw_channels w])\<rparr>)"

section \<open>What the code relies on of the store\<close>

text \<open>
  \<open>rows s m\<close> are the rows of message \<open>m\<close>, oldest first: a read answers them or fails, an append
  adds its row to the message it names, a failed append changes nothing.
\<close>

definition ledger_contract :: "('s, 'e) ledger_api \<Rightarrow> ('s \<Rightarrow> string \<Rightarrow> receipt_record list) \<Rightarrow> bool" where
  "ledger_contract api rows \<longleftrightarrow>
     (\<forall>s m rs. lg_receipts api s m = Inr rs \<longrightarrow> rs = rows s m) \<and>
     (\<forall>s r s'. lg_append api s r = (Inr (), s') \<longrightarrow>
        rows s' = (rows s)(rr_message_id r := rows s (rr_message_id r) @ [r])) \<and>
     (\<forall>s r e s'. lg_append api s r = (Inl e, s') \<longrightarrow> rows s' = rows s)"

lemma contract_receipts:
  "ledger_contract api rows \<Longrightarrow> lg_receipts api s m = Inr rs \<Longrightarrow> rs = rows s m"
  by (simp add: ledger_contract_def)

lemma contract_append:
  "ledger_contract api rows \<Longrightarrow> lg_append api s r = (Inr u, s') \<Longrightarrow>
   rows s' = (rows s)(rr_message_id r := rows s (rr_message_id r) @ [r])"
  by (simp add: ledger_contract_def)

lemma contract_append_err:
  "ledger_contract api rows \<Longrightarrow> lg_append api s r = (Inl e, s') \<Longrightarrow> rows s' = rows s"
  by (simp add: ledger_contract_def)

lemmas ledger_laws = contract_receipts contract_append contract_append_err

section \<open>Recording\<close>

text \<open>The rows of one recipient of one message.\<close>

definition graded :: "('s \<Rightarrow> string \<Rightarrow> receipt_record list) \<Rightarrow> ('s, 'z) ledger_world_scheme \<Rightarrow> addressee \<Rightarrow>
    receipt_record list" where
  "graded rows w a = filter (\<lambda>r. rr_flow_id r = ad_flow_id a) (rows (lw_store w) (ad_message_id a))"

definition row_for :: "addressee \<Rightarrow> grading \<Rightarrow> receipt_record \<Rightarrow> bool" where
  "row_for a g r \<longleftrightarrow> rr_message_id r = ad_message_id a \<and> rr_flow_id r = ad_flow_id a \<and>
     rr_delivery_id r = gr_delivery_id g \<and> rr_witness r = gr_witness g \<and> rr_grade r = gr_grade g"

lemma find_rev: "find P (rev xs) = (if filter P xs = [] then None else Some (last (filter P xs)))"
proof (induction xs rule: rev_induct)
  case (snoc x xs)
  then show ?case by simp
qed simp

lemma latest_receipt_graded:
  assumes "ledger_contract (lh_api h) rows" and "latest_receipt h a w = Inr latest"
  shows "latest = (if graded rows w a = [] then None else Some (last (graded rows w a)))"
  using assms contract_receipts [of "lh_api h" rows]
  by (cases "lg_receipts (lh_api h) (lw_store w) (ad_message_id a)")
     (auto simp: latest_receipt_def last_for_def find_rev graded_def)

lemma tell_receipt_store [simp]: "lw_store (tell_receipt h m r w) = lw_store w"
  by (simp add: tell_receipt_def split: option.splits prod.splits)

text \<open>What a recording leaves, whatever comes of it.\<close>

lemma record_gradeE:
  assumes "ledger_contract (lh_api h) rows" and "record_grade h a g w = (res, w')"
  obtains (recorded) row s where "res = Inr (receipt_of row)" and "row_for a g row"
      and "rr_sequence row = sequence_after (rows (lw_store w) (ad_message_id a))"
      and "rr_stamped_at row = lh_stamp h (lw_clock w)"
      and "w' = tell_receipt h (ad_message_id a) (receipt_of row) (w\<lparr>lw_clock := Suc (lw_clock w), lw_store := s\<rparr>)"
      and "rows s = (rows (lw_store w))(ad_message_id a := rows (lw_store w) (ad_message_id a) @ [row])"
  | (failed) e n s where "res = Inl e" and "w' = w\<lparr>lw_clock := n, lw_store := s\<rparr>" and "rows s = rows (lw_store w)"
proof (cases "lg_receipts (lh_api h) (lw_store w) (ad_message_id a)")
  case (Inl e)
  with assms show thesis by (intro failed [where e = e and n = "lw_clock w" and s = "lw_store w"]) (auto simp: record_grade_def)
next
  case (Inr rs)
  define row where "row = \<lparr>rr_message_id = ad_message_id a, rr_sequence = sequence_after rs, rr_flow_id = ad_flow_id a,
                      rr_delivery_id = gr_delivery_id g, rr_witness = gr_witness g, rr_grade = gr_grade g,
                      rr_stamped_at = lh_stamp h (lw_clock w)\<rparr>"
  obtain r s where ap: "lg_append (lh_api h) (lw_store w) row = (r, s)" by fastforce
  have rs: "rs = rows (lw_store w) (ad_message_id a)" using assms(1) Inr by (rule contract_receipts)
  show thesis
  proof (cases r)
    case (Inl e)
    with ap Inr assms(2) have "res = Inl e" "w' = w\<lparr>lw_clock := Suc (lw_clock w), lw_store := s\<rparr>"
      by (auto simp: record_grade_def stamp_now_def row_def Let_def)
    with contract_append_err [OF assms(1)] ap Inl show thesis by (intro failed [where e = e and n = "Suc (lw_clock w)" and s = s]) auto
  next
    case (Inr u)
    with ap \<open>lg_receipts _ _ _ = _\<close> assms(2)
    have "res = Inr (receipt_of row)" and
      "w' = tell_receipt h (ad_message_id a) (receipt_of row) (w\<lparr>lw_clock := Suc (lw_clock w), lw_store := s\<rparr>)"
      by (auto simp: record_grade_def stamp_now_def row_def Let_def)
    moreover have "rows s = (rows (lw_store w))(ad_message_id a := rows (lw_store w) (ad_message_id a) @ [row])"
      using contract_append [OF assms(1)] ap Inr by (auto simp: row_def)
    ultimately show thesis by (intro recorded [where row = row and s = s]) (auto simp: row_for_def row_def rs)
  qed
qed


text \<open>
  The log a delivery works against: the grades a recipient reached, its latest one, and recording
  another. It is the interface of delivery.rs.
\<close>

locale grade_log =
  fixes latest :: "addressee \<Rightarrow> 'w \<Rightarrow> 'e + receipt_record option"
    and enter :: "addressee \<Rightarrow> grading \<Rightarrow> 'w \<Rightarrow> ('e + receipt) \<times> 'w"
    and ok :: "'w \<Rightarrow> bool"
    and grades :: "'w \<Rightarrow> addressee \<Rightarrow> receipt_record list"
  assumes latest_last: "ok w \<Longrightarrow> latest a w = Inr l \<Longrightarrow> l = (if grades w a = [] then None else Some (last (grades w a)))"
    and enter_done: "ok w \<Longrightarrow> enter a g w = (Inr r, w') \<Longrightarrow>
          ok w' \<and> (\<exists>row. row_for a g row \<and> r = receipt_of row \<and> grades w' = (grades w)(a := grades w a @ [row]))"
    and enter_failed: "ok w \<Longrightarrow> enter a g w = (Inl e, w') \<Longrightarrow> ok w' \<and> grades w' = grades w"
begin

lemma entered_is_latest:
  "ok w \<Longrightarrow> enter a g w = (Inr r, w') \<Longrightarrow> latest a w' = Inr l \<Longrightarrow>
   \<exists>row. l = Some row \<and> row_for a g row \<and> r = receipt_of row"
  using enter_done latest_last by fastforce

lemma enter_appends:
  assumes "ok w"
  shows "ok (snd (enter a g w)) \<and> (\<exists>new. grades (snd (enter a g w)) = (grades w)(a := grades w a @ new) \<and>
     (new = [] \<or> (\<exists>row. new = [row] \<and> row_for a g row)))"
proof (cases "enter a g w")
  case (Pair res w')
  show ?thesis
  proof (cases res)
    case (Inl e)
    with Pair enter_failed [OF assms, of a g] show ?thesis by (intro conjI exI [of _ "[]"]) auto
  next
    case (Inr r)
    with Pair enter_done [OF assms, of a g r w'] obtain row
      where "ok w'" "row_for a g row" "grades w' = (grades w)(a := grades w a @ [row])" by blast
    with Pair show ?thesis by (intro conjI exI [of _ "[row]"]) auto
  qed
qed

lemma enter_grows: "ok w \<Longrightarrow> prefix (grades w b) (grades (snd (enter a g w)) b)"
  using enter_appends [of w a g] by auto

lemma enter_elsewhere: "ok w \<Longrightarrow> b \<noteq> a \<Longrightarrow> grades (snd (enter a g w)) b = grades w b"
  using enter_appends [of w a g] by auto

end

lemma record_grade_done:
  assumes "ledger_contract (lh_api h) rows" and "record_grade h a g w = (Inr r, w')"
  shows "\<exists>row. row_for a g row \<and> r = receipt_of row \<and> graded rows w' = (graded rows w)(a := graded rows w a @ [row])"
  using assms by (rule record_gradeE) (auto simp: graded_def fun_eq_iff row_for_def)

lemma record_grade_failed:
  assumes "ledger_contract (lh_api h) rows" and "record_grade h a g w = (Inl e, w')"
  shows "graded rows w' = graded rows w"
  using assms by (rule record_gradeE) (auto simp: graded_def fun_eq_iff)


definition ledger_ok :: "('s, 'e, 'h) ledger_host_scheme \<Rightarrow> ('s \<Rightarrow> string \<Rightarrow> receipt_record list) \<Rightarrow>
    ('s, 'z) ledger_world_scheme \<Rightarrow> bool" where
  "ledger_ok h rows _ \<longleftrightarrow> ledger_contract (lh_api h) rows"

interpretation grading: grade_log "latest_receipt h" "record_grade h" "ledger_ok h rows" "graded rows" for h rows
  by unfold_locales
     (auto simp: ledger_ok_def dest: latest_receipt_graded record_grade_done record_grade_failed)

section \<open>Observers\<close>

text \<open>What one channel has been sent, and the observers a message has.\<close>

definition channel_heard :: "('s, 'z) ledger_world_scheme \<Rightarrow> nat \<Rightarrow> receipt list" where
  "channel_heard w c = map snd (filter (\<lambda>p. fst p = c) (lw_sent w))"

definition listeners :: "('s, 'z) ledger_world_scheme \<Rightarrow> string \<Rightarrow> nat list" where
  "listeners w m = (case lw_observers w m of None \<Rightarrow> [] | Some os \<Rightarrow> os)"

text \<open>Channels are given out in order, no observer is registered twice or under two messages.\<close>

definition channels_ok :: "('s, 'z) ledger_world_scheme \<Rightarrow> bool" where
  "channels_ok w \<longleftrightarrow>
     (\<forall>m. distinct (listeners w m) \<and> (\<forall>c \<in> set (listeners w m). c < lw_channels w)) \<and>
     (\<forall>m n. m \<noteq> n \<longrightarrow> set (listeners w m) \<inter> set (listeners w n) = {}) \<and>
     (\<forall>p \<in> set (lw_sent w). fst p < lw_channels w)"

lemma tell_observers_spec:
  assumes "distinct os" and "tell_observers h r os sent = (kept, sent')"
  shows "sent' = sent @ map (\<lambda>c. (c, r)) kept \<and> subseq kept os"
  using assms
proof (induction os arbitrary: sent kept sent')
  case (Cons x os)
  show ?case
  proof (cases "lh_listening h sent x")
    case True
    with Cons.prems obtain ks where "tell_observers h r os (sent @ [(x, r)]) = (ks, sent')" and "kept = x # ks"
      by (auto split: prod.splits)
    with Cons.IH Cons.prems(1) show ?thesis by fastforce
  next
    case False
    with Cons.IH Cons.prems show ?thesis by (auto intro: list_emb_Cons)
  qed
qed simp

lemma tell_observers_all:
  "c \<in> set os \<Longrightarrow> \<forall>sent. lh_listening h sent c \<Longrightarrow> c \<in> set (fst (tell_observers h r os sent))"
proof (induction os arbitrary: sent)
  case (Cons x os)
  show ?case
  proof (cases "c \<in> set os")
    case True
    with Cons have "c \<in> set (fst (tell_observers h r os sent))" for sent by blast
    then show ?thesis by (auto simp: case_prod_beta)
  next
    case False
    with Cons.prems show ?thesis by (auto simp: case_prod_beta)
  qed
qed simp

lemma tell_receipt_fields:
  assumes "distinct (listeners w m)"
  shows "\<exists>kept. subseq kept (listeners w m) \<and> listeners (tell_receipt h m r w) = (listeners w)(m := kept) \<and>
     lw_sent (tell_receipt h m r w) = lw_sent w @ map (\<lambda>c. (c, r)) kept \<and>
     (\<forall>c \<in> set (listeners w m). (\<forall>sent. lh_listening h sent c) \<longrightarrow> c \<in> set kept) \<and>
     lw_channels (tell_receipt h m r w) = lw_channels w"
proof (cases "lw_observers w m")
  case None
  then have "listeners w m = []" by (simp add: listeners_def)
  with None show ?thesis by (intro exI [of _ "[]"]) (auto simp: tell_receipt_def)
next
  case (Some os)
  obtain kept sent' where t: "tell_observers h r os (lw_sent w) = (kept, sent')" by fastforce
  from Some have os: "listeners w m = os" by (simp add: listeners_def)
  with t tell_observers_spec [OF _ t] tell_observers_all [of _ os h r "lw_sent w"] assms Some show ?thesis
    by (intro exI [of _ kept]) (auto simp: tell_receipt_def listeners_def fun_eq_iff)
qed

text \<open>What happens to a ledger: grades, subscriptions and new message ids, in any order.\<close>

inductive ledger_step :: "('s, 'e, 'h) ledger_host_scheme \<Rightarrow> ('s, 'z) ledger_world_scheme \<Rightarrow>
    ('s, 'z) ledger_world_scheme \<Rightarrow> bool" for h where
  grades: "record_grade h a g w = (r, w') \<Longrightarrow> ledger_step h w w'"
| subscribes: "subscribe m w = (c, w') \<Longrightarrow> ledger_step h w w'"
| names: "new_message_id h w = (i, w') \<Longrightarrow> ledger_step h w w'"

text \<open>
  Channel \<open>c\<close> subscribed to \<open>m\<close> when it had \<open>n\<close> rows: what it heard are receipts of the rows since,
  in order, and all of them as long as it is registered.
\<close>

definition follows :: "('s \<Rightarrow> string \<Rightarrow> receipt_record list) \<Rightarrow> nat \<Rightarrow> string \<Rightarrow> nat \<Rightarrow> ('s, 'z) ledger_world_scheme \<Rightarrow> bool" where
  "follows rows c m n w \<longleftrightarrow>
     c < lw_channels w \<and> (\<forall>m'. m' \<noteq> m \<longrightarrow> c \<notin> set (listeners w m')) \<and> n \<le> length (rows (lw_store w) m) \<and>
     prefix (channel_heard w c) (map receipt_of (drop n (rows (lw_store w) m))) \<and>
     (c \<in> set (listeners w m) \<longrightarrow> channel_heard w c = map receipt_of (drop n (rows (lw_store w) m)))"

lemma channel_heard_append:
  "distinct kept \<Longrightarrow> lw_sent w' = lw_sent w @ map (\<lambda>c. (c, r)) kept \<Longrightarrow>
   channel_heard w' c = channel_heard w c @ (if c \<in> set kept then [r] else [])"
proof -
  assume sent: "lw_sent w' = lw_sent w @ map (\<lambda>c. (c, r)) kept" and "distinct kept"
  have "filter (\<lambda>x. x = c) kept = (if c \<in> set kept then [c] else [])"
    using \<open>distinct kept\<close> by (induction kept) auto
  then have "map snd (filter (\<lambda>p. fst p = c) (map (\<lambda>c. (c, r)) kept)) = (if c \<in> set kept then [r] else [])"
    by (simp add: filter_map comp_def)
  with sent show ?thesis by (simp add: channel_heard_def)
qed

lemma same_channels:
  "lw_observers w' = lw_observers w \<Longrightarrow> lw_channels w' = lw_channels w \<Longrightarrow> lw_sent w' = lw_sent w \<Longrightarrow>
   channels_ok w' = channels_ok w \<and> listeners w' = listeners w \<and> channel_heard w' = channel_heard w"
  by (simp add: channels_ok_def listeners_def channel_heard_def fun_eq_iff)

lemma subseq_keeps: "subseq xs ys \<Longrightarrow> set xs \<subseteq> set ys \<and> (distinct ys \<longrightarrow> distinct xs)"
  by (auto simp: subseq_conv_nths dest: in_set_nthsD)

lemma tell_receipt_channels:
  assumes "channels_ok w"
  shows "channels_ok (tell_receipt h m r w)"
proof -
  obtain kept where k: "subseq kept (listeners w m)" "listeners (tell_receipt h m r w) = (listeners w)(m := kept)"
    "lw_sent (tell_receipt h m r w) = lw_sent w @ map (\<lambda>c. (c, r)) kept"
    "lw_channels (tell_receipt h m r w) = lw_channels w"
    using tell_receipt_fields [of w m h r] assms by (auto simp: channels_ok_def)
  have sub: "set kept \<subseteq> set (listeners w m)" using subseq_keeps [OF k(1)] by simp
  have dist: "distinct kept" using subseq_keeps [OF k(1)] assms by (simp add: channels_ok_def)
  show ?thesis
    using assms sub dist unfolding channels_ok_def k by (auto; blast)
qed

lemma subscribe_fields:
  assumes "subscribe m w = (c, w')"
  shows "listeners w' = (listeners w)(m := listeners w m @ [lw_channels w])" "lw_channels w' = Suc (lw_channels w)"
    "lw_sent w' = lw_sent w" "lw_store w' = lw_store w" "channel_heard w' = channel_heard w" "c = lw_channels w"
  using assms by (auto simp: subscribe_def listeners_def channel_heard_def fun_eq_iff)

lemma subscribe_channels:
  assumes "subscribe m w = (c, w')" and ok: "channels_ok w"
  shows "channels_ok w'"
proof -
  note w' = subscribe_fields [OF assms(1)]
  have fresh: "lw_channels w \<notin> set (listeners w n)" for n using ok by (auto simp: channels_ok_def)
  have one: "distinct (listeners w' n) \<and> (\<forall>c \<in> set (listeners w' n). c < lw_channels w')" for n
  proof -
    have "distinct (listeners w n) \<and> (\<forall>c \<in> set (listeners w n). c < lw_channels w)"
      using ok by (simp add: channels_ok_def)
    with fresh [of n] show ?thesis by (auto simp: w' less_Suc_eq)
  qed
  have two: "set (listeners w' n) \<inter> set (listeners w' k) = {}" if "n \<noteq> k" for n k
  proof -
    have "set (listeners w n) \<inter> set (listeners w k) = {}"
      using ok that by (simp add: channels_ok_def)
    with that fresh [of n] fresh [of k] show ?thesis by (auto simp: w')
  qed
  have "\<forall>p \<in> set (lw_sent w'). fst p < lw_channels w'"
    using ok by (auto simp: w' channels_ok_def less_Suc_eq)
  with one two show ?thesis unfolding channels_ok_def by blast
qed

lemma ledger_step_follows:
  assumes "ledger_step h w w'" and contract: "ledger_contract (lh_api h) rows" and ok: "channels_ok w"
  shows "channels_ok w' \<and> (\<forall>c m n. follows rows c m n w \<longrightarrow> follows rows c m n w') \<and>
     (\<forall>c m. (\<forall>sent. lh_listening h sent c) \<and> c \<in> set (listeners w m) \<longrightarrow> c \<in> set (listeners w' m)) \<and>
     (\<forall>m. prefix (rows (lw_store w) m) (rows (lw_store w') m))"
  using assms(1)
proof cases
  case (grades a g r)
  show ?thesis using contract grades
  proof (cases rule: record_gradeE)
    case (recorded row s)
    let ?m = "ad_message_id a" and ?w1 = "w\<lparr>lw_clock := Suc (lw_clock w), lw_store := s\<rparr>"
    have same: "channels_ok ?w1 = channels_ok w" "listeners ?w1 = listeners w" "channel_heard ?w1 = channel_heard w"
      using same_channels [of ?w1 w] by simp_all
    with ok have "distinct (listeners ?w1 ?m)" by (simp add: channels_ok_def)
    from tell_receipt_fields [OF this, of h "receipt_of row"] same obtain kept where
      k: "subseq kept (listeners w ?m)" "listeners w' = (listeners w)(?m := kept)"
        "lw_sent w' = lw_sent w @ map (\<lambda>c. (c, receipt_of row)) kept" "lw_channels w' = lw_channels w"
        "\<And>c. c \<in> set (listeners w ?m) \<Longrightarrow> \<forall>sent. lh_listening h sent c \<Longrightarrow> c \<in> set kept"
      unfolding recorded(5) by auto
    have dist: "distinct kept" using subseq_keeps [OF k(1)] ok by (simp add: channels_ok_def)
    have sub: "set kept \<subseteq> set (listeners w ?m)" using subseq_keeps [OF k(1)] by simp
    have rows: "rows (lw_store w') = (rows (lw_store w))(?m := rows (lw_store w) ?m @ [row])"
      using recorded by simp
    have h: "channel_heard w' c = channel_heard w c @ (if c \<in> set kept then [receipt_of row] else [])" for c
      using dist k(3) by (rule channel_heard_append)
    have "follows rows c m n w'" if "follows rows c m n w" for c m n
      using that sub unfolding follows_def k h rows by (cases "m = ?m") (auto simp: prefix_def)
    moreover have "channels_ok w'"
      unfolding recorded(5) by (rule tell_receipt_channels) (simp add: same ok)
    ultimately show ?thesis using k rows by (auto simp: prefix_def)
  next
    case (failed e n s)
    then have "channels_ok w' = channels_ok w \<and> listeners w' = listeners w \<and> channel_heard w' = channel_heard w"
      by (intro same_channels) auto
    with failed ok show ?thesis by (simp add: follows_def)
  qed
next
  case (subscribes m c)
  note w' = subscribe_fields [OF subscribes]
  have "channels_ok w'" using subscribes ok by (rule subscribe_channels)
  moreover have "follows rows c m' n w'" if "follows rows c m' n w" for c m' n
    using that unfolding follows_def w' by auto
  ultimately show ?thesis using w' by auto
next
  case (names i)
  then have "lw_observers w' = lw_observers w" "lw_channels w' = lw_channels w" "lw_sent w' = lw_sent w" "lw_store w' = lw_store w"
    by (auto simp: new_message_id_def stamp_now_def Let_def)
  moreover from this(1-3) have "channels_ok w' = channels_ok w \<and> listeners w' = listeners w \<and> channel_heard w' = channel_heard w"
    by (rule same_channels)
  ultimately show ?thesis using ok by (simp add: follows_def)
qed


lemma ledger_run_follows:
  assumes "(ledger_step h)\<^sup>*\<^sup>* w w'" and "ledger_contract (lh_api h) rows" and "channels_ok w"
  shows "channels_ok w' \<and> (\<forall>c m n. follows rows c m n w \<longrightarrow> follows rows c m n w') \<and>
     (\<forall>c m. (\<forall>sent. lh_listening h sent c) \<and> c \<in> set (listeners w m) \<longrightarrow> c \<in> set (listeners w' m)) \<and>
     (\<forall>m. prefix (rows (lw_store w) m) (rows (lw_store w') m))"
  using assms(1)
proof (induction rule: rtranclp_induct)
  case base
  show ?case using assms(3) by simp
next
  case (step u v)
  then have "channels_ok u" by simp
  from ledger_step_follows [OF step.hyps(2) assms(2) this] step.IH show ?case
    by (meson prefix_order.trans)
qed

definition fresh_ledger :: "'s \<Rightarrow> nat \<Rightarrow> nat \<Rightarrow> 's ledger_world" where
  "fresh_ledger s made ticks = \<lparr>lw_store = s, lw_observers = (\<lambda>_. None), lw_count = made, lw_clock = ticks,
     lw_channels = 0, lw_sent = []\<rparr>"

lemma fresh_channels_ok: "channels_ok (fresh_ledger s made ticks)"
  by (simp add: fresh_ledger_def channels_ok_def listeners_def)

lemma subscribed_follows:
  assumes "channels_ok w" and "subscribe m w = (c, w')"
  shows "channels_ok w' \<and> follows rows c m (length (rows (lw_store w) m)) w' \<and> c \<in> set (listeners w' m)"
proof -
  note w' = subscribe_fields [OF assms(2)]
  have "channel_heard w c = []" "\<And>m. c \<notin> set (listeners w m)"
    using assms(1) by (auto simp: channels_ok_def w'(6) channel_heard_def filter_empty_conv)
  with subscribe_channels [OF assms(2,1)] show ?thesis
    by (simp add: follows_def w')
qed

lemma observed_run:
  assumes "ledger_contract (lh_api h) rows" and "(ledger_step h)\<^sup>*\<^sup>* (fresh_ledger s made ticks) w0"
    and "subscribe m w0 = (c, w1)" and "(ledger_step h)\<^sup>*\<^sup>* w1 w2"
  shows "prefix (rows (lw_store w0) m) (rows (lw_store w2) m)"
    and "prefix (channel_heard w2 c) (map receipt_of (drop (length (rows (lw_store w0) m)) (rows (lw_store w2) m)))"
    and "c \<in> set (listeners w2 m) \<or> (\<forall>sent. lh_listening h sent c) \<Longrightarrow>
         channel_heard w2 c = map receipt_of (drop (length (rows (lw_store w0) m)) (rows (lw_store w2) m))"
proof -
  have ok0: "channels_ok w0"
    using ledger_run_follows [OF assms(2,1) fresh_channels_ok] by (rule conjunct1)
  note sub = subscribed_follows [OF ok0 assms(3), of rows]
  have store: "lw_store w1 = lw_store w0" using assms(3) by (auto simp: subscribe_def)
  note run = ledger_run_follows [OF assms(4,1) conjunct1 [OF sub]]
  show "prefix (rows (lw_store w0) m) (rows (lw_store w2) m)"
    using run store by simp
  have "follows rows c m (length (rows (lw_store w0) m)) w2" using run sub by blast
  then show "prefix (channel_heard w2 c) (map receipt_of (drop (length (rows (lw_store w0) m)) (rows (lw_store w2) m)))"
    and "c \<in> set (listeners w2 m) \<or> (\<forall>sent. lh_listening h sent c) \<Longrightarrow>
         channel_heard w2 c = map receipt_of (drop (length (rows (lw_store w0) m)) (rows (lw_store w2) m))"
    using run sub by (auto simp: follows_def)
qed

section \<open>Message ids\<close>

definition hex_value :: "string \<Rightarrow> nat" where
  "hex_value ds = foldl (\<lambda>n c. 16 * n + (if of_char c < (58 :: nat) then of_char c - 48 else of_char c - 87)) 0 ds"

lemma of_char_hex_digit: "n < 16 \<Longrightarrow> of_char (hex_digit n) = (if n < 10 then 48 + n else 87 + n)"
  by (simp add: hex_digit_def digit_def)

lemma hex_value_hex: "hex_value (hex n) = n"
proof (induction n rule: hex.induct)
  case (1 n)
  show ?case
  proof (cases "n < 16")
    case True
    then show ?thesis by (subst hex.simps) (simp add: hex_value_def of_char_hex_digit)
  next
    case False
    with 1 have "hex_value (hex (n div 16)) = n div 16" by simp
    with False show ?thesis
      by (subst hex.simps) (simp add: hex_value_def of_char_hex_digit)
  qed
qed

lemma hex_value_zeros: "hex_value (replicate k (CHR ''0'') @ ds) = hex_value ds"
  by (induction k) (simp_all add: hex_value_def)

lemma hex_length: "n < 16 ^ Suc k \<Longrightarrow> length (hex n) \<le> Suc k"
proof (induction k arbitrary: n)
  case 0
  then show ?case by (subst hex.simps) simp
next
  case (Suc k)
  then have "n div 16 < 16 ^ Suc k" by (simp add: div_less_iff_less_mult)
  then have "length (hex (n div 16)) \<le> Suc k" by (rule Suc.IH)
  then show ?case by (subst hex.simps) simp
qed

lemma hex3_length: "n < 4096 \<Longrightarrow> length (hex3 n) = 3"
  using hex_length [of n 2] by (simp add: hex3_def)

lemma hex_digit_char: "hex_digit n \<noteq> CHR '':''" if "n < 16"
proof
  assume "hex_digit n = CHR '':''"
  then have "(of_char (hex_digit n) :: nat) = of_char (CHR '':'')" by (rule arg_cong)
  then show False by (simp add: of_char_hex_digit that split: if_splits)
qed

lemma hex_clean: "CHR '':'' \<notin> set (hex n)"
proof (induction n rule: hex.induct)
  case (1 n)
  have "CHR '':'' \<noteq> hex_digit (n mod 16)" "n < 16 \<Longrightarrow> CHR '':'' \<noteq> hex_digit n"
    using hex_digit_char [of "n mod 16"] hex_digit_char [of n] by auto
  with 1 show ?case by (subst hex.simps) auto
qed

lemma message_id_text:
  "fst (new_message_id h w) = ''m-'' @ hex (unat (lh_stamp h (lw_clock w))) @ hex3 (lw_count w mod 4096)"
  by (simp add: new_message_id_def stamp_now_def Let_def)

lemma message_id_parts:
  assumes "''m-'' @ hex a @ hex3 b = ''m-'' @ hex c @ hex3 d" and "b < 4096" and "d < 4096"
  shows "a = c \<and> b = d"
proof -
  have "length (hex3 b) = length (hex3 d)" using assms(2,3) by (simp add: hex3_length)
  with assms(1) have "hex a = hex c" and "hex3 b = hex3 d" by auto
  then show ?thesis
    by (metis hex3_def hex_value_hex hex_value_zeros)
qed


text \<open>The hexadecimal stamp and the padded count run together without a separator and never collide.\<close>

lemma message_ids_equal:
  "fst (new_message_id h w) = fst (new_message_id h' w') \<longleftrightarrow>
     lh_stamp h (lw_clock w) = lh_stamp h' (lw_clock w') \<and> lw_count w mod 4096 = lw_count w' mod 4096"
proof
  assume "fst (new_message_id h w) = fst (new_message_id h' w')"
  then have "unat (lh_stamp h (lw_clock w)) = unat (lh_stamp h' (lw_clock w')) \<and> lw_count w mod 4096 = lw_count w' mod 4096"
    unfolding message_id_text by (rule message_id_parts) simp_all
  then show "lh_stamp h (lw_clock w) = lh_stamp h' (lw_clock w') \<and> lw_count w mod 4096 = lw_count w' mod 4096"
    by (auto intro: unsigned_word_eqI)
qed (simp add: message_id_text)

lemma hex3_clean: "CHR '':'' \<notin> set (hex3 n)"
  using hex_clean [of n] by (auto simp: hex3_def)

lemma message_id_clean: "CHR '':'' \<notin> set (fst (new_message_id h w))"
  using hex_clean hex3_clean by (auto simp: message_id_text)

section \<open>A store in memory\<close>

text \<open>Messages and rows as two lists, the store of the witnesses.\<close>

type_synonym memory = "message_record list \<times> receipt_record list"

definition memory_rows :: "memory \<Rightarrow> string \<Rightarrow> receipt_record list" where
  "memory_rows s m = filter (\<lambda>r. rr_message_id r = m) (snd s)"

definition memory_ledger :: "(memory, string) ledger_api" where
  "memory_ledger = \<lparr>lg_message = \<lambda>s m. Inr (find (\<lambda>r. mr_message_id r = m) (fst s)),
     lg_receipts = \<lambda>s m. Inr (memory_rows s m),
     lg_append = \<lambda>s r. (Inr (), (fst s, snd s @ [r])),
     lg_parks = \<lambda>s. Inr (map (\<lambda>r. \<lparr>ad_message_id = rr_message_id r, ad_flow_id = rr_flow_id r\<rparr>) (snd s))\<rparr>"

lemma memory_contract: "ledger_contract memory_ledger memory_rows"
  by (auto simp: ledger_contract_def memory_ledger_def memory_rows_def fun_eq_iff)

definition memory_host :: "(memory, string) ledger_host" where
  "memory_host = \<lparr>lh_api = memory_ledger, lh_stamp = of_nat, lh_listening = \<lambda>_ _. True\<rparr>"

lemma memory_host_contract: "ledger_contract (lh_api memory_host) memory_rows"
  by (simp add: memory_host_def memory_contract)

section \<open>One operation after the other\<close>

text \<open>What a subscriber hears. From a nexus just started, after any grades, subscriptions and
  new messages, a message is subscribed to; after any more of them the rows the message had are
  all still there in their order, what the subscriber was sent are receipts of the rows appended
  since, oldest first and without a gap, and it was sent every one of them if it is still
  registered. One whose receiver is never gone is.\<close>

lemma observer_hears_everything:
  assumes "ledger_contract (lh_api h) rows" and "(ledger_step h)\<^sup>*\<^sup>* (fresh_ledger s made ticks) w0"
    and "subscribe m w0 = (c, w1)" and "(ledger_step h)\<^sup>*\<^sup>* w1 w2"
  shows "prefix (rows (lw_store w0) m) (rows (lw_store w2) m) \<and>
     (let new = map receipt_of (drop (length (rows (lw_store w0) m)) (rows (lw_store w2) m))
      in prefix (channel_heard w2 c) new \<and>
         (c \<in> set (listeners w2 m) \<or> (\<forall>sent. lh_listening h sent c) \<longrightarrow> channel_heard w2 c = new))"
  using observed_run [OF assms] unfolding Let_def by blast

lemma observer_hears_everything_witness:
  "let a = \<lparr>ad_message_id = ''m-1'', ad_flow_id = ''f''\<rparr>;
       parked = \<lparr>gr_delivery_id = ''d'', gr_witness = NotRequested, gr_grade = Grade_Parked\<rparr>;
       w0 = snd (record_grade memory_host a parked (fresh_ledger ([], []) 0 5));
       (c, w1) = subscribe ''m-1'' w0;
       w2 = snd (record_grade memory_host a (parked\<lparr>gr_grade := Grade_Presented\<rparr>) w1)
   in prefix (channel_heard w2 c) [\<lparr>rc_flow_id = ''f'', rc_witness = NotRequested, rc_grade = Grade_Presented\<rparr>] \<and>
      channel_heard w2 c = [\<lparr>rc_flow_id = ''f'', rc_witness = NotRequested, rc_grade = Grade_Presented\<rparr>]"
proof -
  let ?a = "\<lparr>ad_message_id = ''m-1'', ad_flow_id = ''f''\<rparr>"
  let ?g = "\<lparr>gr_delivery_id = ''d'', gr_witness = NotRequested, gr_grade = Grade_Parked\<rparr>"
  let ?w0 = "snd (record_grade memory_host ?a ?g (fresh_ledger ([], []) 0 5))"
  let ?w1 = "snd (subscribe ''m-1'' ?w0)"
  let ?w2 = "snd (record_grade memory_host ?a (?g\<lparr>gr_grade := Grade_Presented\<rparr>) ?w1)"
  have "(ledger_step memory_host)\<^sup>*\<^sup>* (fresh_ledger ([], []) 0 5) ?w0" and "(ledger_step memory_host)\<^sup>*\<^sup>* ?w1 ?w2"
    by (intro r_into_rtranclp ledger_step.grades [OF prod.collapse [symmetric]])+
  from observer_hears_everything [OF memory_host_contract this(1) prod.collapse [symmetric] this(2)]
  show ?thesis
    by (simp add: Let_def case_prod_beta record_grade_def memory_host_def memory_ledger_def memory_rows_def
        subscribe_def stamp_now_def fresh_ledger_def tell_receipt_def receipt_of_def)
qed

end
