(* ===== verification/Recorders.thy ===== *)
theory Recorders imports Ledger "HOL-Library.Multiset" begin

text \<open>
  ledger.rs with several threads. \<open>record_grade\<close> holds the lock of the store while it reads the rows
  and appends its own, and takes the lock of the observers only after it gave that one back: here
  it is cut in between, so that other recordings and subscriptions come there.
\<close>

section \<open>A recording in its two halves\<close>

definition append_grade :: "('s, 'e, 'h) ledger_host_scheme \<Rightarrow> addressee \<Rightarrow> grading \<Rightarrow> ('s, 'z) ledger_world_scheme \<Rightarrow>
    ('e + receipt_record) \<times> ('s, 'z) ledger_world_scheme" where
  "append_grade h a g w =
     (case lg_receipts (lh_api h) (lw_store w) (ad_message_id a) of
        Inl e \<Rightarrow> (Inl e, w)
      | Inr receipts \<Rightarrow>
          (let (stamp, w1) = stamp_now h w;
               row = \<lparr>rr_message_id = ad_message_id a, rr_sequence = sequence_after receipts, rr_flow_id = ad_flow_id a,
                      rr_delivery_id = gr_delivery_id g, rr_witness = gr_witness g, rr_grade = gr_grade g,
                      rr_stamped_at = stamp\<rparr>
           in case lg_append (lh_api h) (lw_store w1) row of
                (Inl e, s) \<Rightarrow> (Inl e, w1\<lparr>lw_store := s\<rparr>)
              | (Inr _, s) \<Rightarrow> (Inr row, w1\<lparr>lw_store := s\<rparr>)))"

definition tell_row :: "('s, 'e, 'h) ledger_host_scheme \<Rightarrow> receipt_record \<Rightarrow> ('s, 'z) ledger_world_scheme \<Rightarrow>
    ('s, 'z) ledger_world_scheme" where
  "tell_row h row w = tell_receipt h (rr_message_id row) (receipt_of row) w"

lemma record_halves:
  "record_grade h a g w =
     (case append_grade h a g w of
        (Inl e, w1) \<Rightarrow> (Inl e, w1)
      | (Inr row, w1) \<Rightarrow> (Inr (receipt_of row), tell_row h row w1))"
  by (simp add: record_grade_def append_grade_def tell_row_def Let_def split: sum.split prod.split)

lemma append_gradeE:
  assumes "ledger_contract (lh_api h) rows" and "append_grade h a g w = (res, w')"
  obtains (appended) row s where "res = Inr row" and "row_for a g row"
      and "rr_sequence row = sequence_after (rows (lw_store w) (ad_message_id a))"
      and "w' = w\<lparr>lw_clock := Suc (lw_clock w), lw_store := s\<rparr>"
      and "rows s = (rows (lw_store w))(ad_message_id a := rows (lw_store w) (ad_message_id a) @ [row])"
  | (failed) e n s where "res = Inl e" and "w' = w\<lparr>lw_clock := n, lw_store := s\<rparr>" and "rows s = rows (lw_store w)"
proof (cases "lg_receipts (lh_api h) (lw_store w) (ad_message_id a)")
  case (Inl e)
  with assms show thesis by (intro failed [where e = e and n = "lw_clock w" and s = "lw_store w"]) (auto simp: append_grade_def)
next
  case (Inr rs)
  let ?row = "\<lparr>rr_message_id = ad_message_id a, rr_sequence = sequence_after rs, rr_flow_id = ad_flow_id a,
    rr_delivery_id = gr_delivery_id g, rr_witness = gr_witness g, rr_grade = gr_grade g,
    rr_stamped_at = lh_stamp h (lw_clock w)\<rparr>"
  obtain r s where ap: "lg_append (lh_api h) (lw_store w) ?row = (r, s)" by fastforce
  have rs: "rs = rows (lw_store w) (ad_message_id a)" using assms(1) Inr by (rule contract_receipts)
  show thesis
  proof (cases r)
    case (Inl e)
    with ap \<open>lg_receipts _ _ _ = _\<close> assms(2) contract_append_err [OF assms(1)] show thesis
      by (intro failed [where e = e and n = "Suc (lw_clock w)" and s = s]) (auto simp: append_grade_def stamp_now_def)
  next
    case (Inr u)
    with ap \<open>lg_receipts _ _ _ = _\<close> assms(2) contract_append [OF assms(1)] rs show thesis
      by (intro appended [where row = ?row and s = s]) (auto simp: append_grade_def stamp_now_def row_for_def)
  qed
qed

section \<open>Threads\<close>

text \<open>\<open>rs_telling\<close>: a row per thread that appended it and has not told it yet, in the order of the appends.\<close>

record 's recorders =
  rs_world :: "'s ledger_world"
  rs_telling :: "receipt_record list"

inductive recorder_step :: "('s, 'e, 'h) ledger_host_scheme \<Rightarrow> 's recorders \<Rightarrow> 's recorders \<Rightarrow> bool" for h where
  appends: "append_grade h a g (rs_world s) = (Inr row, w) \<Longrightarrow>
    recorder_step h s (s\<lparr>rs_world := w, rs_telling := rs_telling s @ [row]\<rparr>)"
| fails: "append_grade h a g (rs_world s) = (Inl e, w) \<Longrightarrow> recorder_step h s (s\<lparr>rs_world := w\<rparr>)"
| tells: "rs_telling s = before @ row # after \<Longrightarrow>
    recorder_step h s (s\<lparr>rs_world := tell_row h row (rs_world s), rs_telling := before @ after\<rparr>)"
| subscribes: "subscribe m (rs_world s) = (c, w) \<Longrightarrow> recorder_step h s (s\<lparr>rs_world := w\<rparr>)"
| names: "new_message_id h (rs_world s) = (i, w) \<Longrightarrow> recorder_step h s (s\<lparr>rs_world := w\<rparr>)"

text \<open>A run, with the states it steps from.\<close>

inductive recorder_run :: "('s, 'e, 'h) ledger_host_scheme \<Rightarrow> 's recorders \<Rightarrow> 's recorders list \<Rightarrow> 's recorders \<Rightarrow> bool" for h where
  none: "recorder_run h s [] s"
| more: "recorder_run h s us t \<Longrightarrow> recorder_step h t u \<Longrightarrow> recorder_run h s (us @ [t]) u"

text \<open>What happens one operation after the other happens here too.\<close>

lemma ledger_step_recorders:
  assumes "ledger_step h w w'"
  shows "\<exists>us. recorder_run h \<lparr>rs_world = w, rs_telling = ts\<rparr> us \<lparr>rs_world = w', rs_telling = ts\<rparr>"
proof -
  let ?s = "\<lparr>rs_world = w, rs_telling = ts\<rparr>"
  have one: "recorder_step h ?s t \<Longrightarrow> \<exists>us. recorder_run h ?s us t" for t
    using recorder_run.more [OF recorder_run.none] by blast
  show ?thesis using assms
  proof cases
    case (grades a g r)
    obtain res w1 where ap: "append_grade h a g w = (res, w1)" by fastforce
    show ?thesis
    proof (cases res)
      case (Inl e)
      with ap grades have "w1 = w'" by (simp add: record_halves)
      with one [OF recorder_step.fails [of h a g ?s e w1]] ap Inl show ?thesis by simp
    next
      case (Inr row)
      let ?t = "?s\<lparr>rs_world := w1, rs_telling := ts @ [row]\<rparr>"
      have "recorder_step h ?s ?t" using recorder_step.appends [of h a g ?s row w1] ap Inr by simp
      moreover have "recorder_step h ?t (?t\<lparr>rs_world := tell_row h row w1, rs_telling := ts @ []\<rparr>)"
        using recorder_step.tells [of ?t ts row "[]" h] by simp
      ultimately have "recorder_run h ?s ([] @ [?s] @ [?t]) (?t\<lparr>rs_world := tell_row h row w1, rs_telling := ts @ []\<rparr>)"
        using recorder_run.more [OF recorder_run.more [OF recorder_run.none]] by simp
      moreover have "w' = tell_row h row w1" using ap grades Inr by (simp add: record_halves)
      ultimately show ?thesis by auto
    qed
  next
    case (subscribes m c)
    with one [OF recorder_step.subscribes [of m ?s c w' h]] show ?thesis by simp
  next
    case (names i)
    with one [OF recorder_step.names [of h ?s i w']] show ?thesis by simp
  qed
qed

section \<open>What an observer hears\<close>

definition pending :: "string \<Rightarrow> 's recorders \<Rightarrow> receipt_record list" where
  "pending m s = filter (\<lambda>r. rr_message_id r = m) (rs_telling s)"

definition rows_of :: "('s \<Rightarrow> string \<Rightarrow> receipt_record list) \<Rightarrow> 's recorders \<Rightarrow> string \<Rightarrow> receipt_record list" where
  "rows_of rows s m = rows (lw_store (rs_world s)) m"

text \<open>No two threads are between append and telling with a row for the same recipient.\<close>

definition one_each :: "'s recorders \<Rightarrow> bool" where
  "one_each s \<longleftrightarrow> distinct (map (\<lambda>r. (rr_message_id r, rr_flow_id r)) (rs_telling s))"

definition to_recipient :: "string \<Rightarrow> receipt_record list \<Rightarrow> receipt list" where
  "to_recipient f rs = map receipt_of (filter (\<lambda>r. rr_flow_id r = f) rs)"

definition heard_from :: "string \<Rightarrow> receipt list \<Rightarrow> receipt list" where
  "heard_from f heard = filter (\<lambda>r. rc_flow_id r = f) heard"

lemma to_recipient_simps [simp]:
  "to_recipient f [] = []" "to_recipient f (xs @ ys) = to_recipient f xs @ to_recipient f ys"
  "to_recipient f (r # xs) = (if rr_flow_id r = f then [receipt_of r] else []) @ to_recipient f xs"
  "heard_from f [] = []" "heard_from f (hs @ gs) = heard_from f hs @ heard_from f gs"
  "heard_from f (x # hs) = (if rc_flow_id x = f then [x] else []) @ heard_from f hs"
  "rc_flow_id (receipt_of r) = rr_flow_id r"
  by (simp_all add: to_recipient_def heard_from_def receipt_of_def)

text \<open>
  Channel \<open>c\<close> subscribed to \<open>m\<close> when it had \<open>n\<close> rows, and those of \<open>base\<close> were still to be told: what
  it heard and will hear of the rows there are is \<open>base\<close> and the rows since.
\<close>

definition receipts :: "receipt_record list \<Rightarrow> receipt multiset" where
  "receipts rs = mset (map receipt_of rs)"

lemma receipts_simps [simp]:
  "receipts [] = {#}" "receipts (xs @ ys) = receipts xs + receipts ys" "receipts (x # xs) = add_mset (receipt_of x) (receipts xs)"
  by (simp_all add: receipts_def)

definition hears :: "('s \<Rightarrow> string \<Rightarrow> receipt_record list) \<Rightarrow> nat \<Rightarrow> string \<Rightarrow> nat \<Rightarrow> receipt_record list \<Rightarrow> 's recorders \<Rightarrow> bool" where
  "hears rows c m n base s \<longleftrightarrow>
     (let heard = mset (channel_heard (rs_world s) c) + receipts (pending m s);
          due = receipts (base @ drop n (rows_of rows s m))
      in heard \<subseteq># due \<and> (c \<in> set (listeners (rs_world s) m) \<longrightarrow> heard = due))"

definition hears_in_order :: "('s \<Rightarrow> string \<Rightarrow> receipt_record list) \<Rightarrow> nat \<Rightarrow> string \<Rightarrow> nat \<Rightarrow> receipt_record list \<Rightarrow> 's recorders \<Rightarrow> bool" where
  "hears_in_order rows c m n base s \<longleftrightarrow>
     (c \<in> set (listeners (rs_world s) m) \<longrightarrow>
        (\<forall>f. heard_from f (channel_heard (rs_world s) c) @ to_recipient f (pending m s) =
             to_recipient f (base @ drop n (rows_of rows s m))))"

text \<open>Where a channel is registered, and the numbers of the rows since.\<close>

definition placed :: "nat \<Rightarrow> string \<Rightarrow> ('s, 'z) ledger_world_scheme \<Rightarrow> bool" where
  "placed c m w \<longleftrightarrow> channels_ok w \<and> c < lw_channels w \<and> (\<forall>m'. m' \<noteq> m \<longrightarrow> c \<notin> set (listeners w m'))"

definition numbered :: "('s \<Rightarrow> string \<Rightarrow> receipt_record list) \<Rightarrow> string \<Rightarrow> nat \<Rightarrow> 's recorders \<Rightarrow> bool" where
  "numbered rows m n s \<longleftrightarrow> n \<le> length (rows_of rows s m) \<and>
     (\<forall>i. n \<le> i \<and> i < length (rows_of rows s m) \<longrightarrow>
        rr_sequence (rows_of rows s m ! i) = sequence_after (take i (rows_of rows s m)))"


lemma tell_row_heard:
  assumes placed: "placed c m w" and w': "w' = tell_row h row w"
  shows "placed c m w'" and "lw_store w' = lw_store w"
    and "rr_message_id row \<noteq> m \<Longrightarrow> channel_heard w' c = channel_heard w c \<and> listeners w' m = listeners w m"
    and "rr_message_id row = m \<Longrightarrow>
      channel_heard w' c = channel_heard w c @ (if c \<in> set (listeners w' m) then [receipt_of row] else [])"
    and "c \<in> set (listeners w' m) \<Longrightarrow> c \<in> set (listeners w m)"
    and "\<forall>sent. lh_listening h sent c \<Longrightarrow> c \<in> set (listeners w m) \<Longrightarrow> c \<in> set (listeners w' m)"
proof -
  let ?k = "rr_message_id row"
  have ok: "channels_ok w" using placed by (simp add: placed_def)
  then have "distinct (listeners w ?k)" by (simp add: channels_ok_def)
  from tell_receipt_fields [OF this, of h "receipt_of row"] obtain kept where
    k: "subseq kept (listeners w ?k)" "listeners w' = (listeners w)(?k := kept)"
      "lw_sent w' = lw_sent w @ map (\<lambda>c. (c, receipt_of row)) kept" "lw_channels w' = lw_channels w"
      "\<And>c. c \<in> set (listeners w ?k) \<Longrightarrow> \<forall>sent. lh_listening h sent c \<Longrightarrow> c \<in> set kept"
    unfolding w' tell_row_def by auto
  have sub: "set kept \<subseteq> set (listeners w ?k)" and dist: "distinct kept"
    using subseq_keeps [OF k(1)] ok by (simp_all add: channels_ok_def)
  have heard: "channel_heard w' c = channel_heard w c @ (if c \<in> set kept then [receipt_of row] else [])"
    using dist k(3) by (rule channel_heard_append)
  have "channels_ok w'" unfolding w' tell_row_def using ok by (rule tell_receipt_channels)
  with placed sub show "placed c m w'" by (auto simp: placed_def k)
  show "lw_store w' = lw_store w" by (simp add: w' tell_row_def)
  show "channel_heard w' c = channel_heard w c \<and> listeners w' m = listeners w m" if "?k \<noteq> m"
    using that placed sub by (auto simp: placed_def heard k)
  show "channel_heard w' c = channel_heard w c @ (if c \<in> set (listeners w' m) then [receipt_of row] else [])" if "?k = m"
    using that by (simp add: heard k)
  show "c \<in> set (listeners w' m) \<Longrightarrow> c \<in> set (listeners w m)"
    using sub by (auto simp: k split: if_splits)
  show "\<forall>sent. lh_listening h sent c \<Longrightarrow> c \<in> set (listeners w m) \<Longrightarrow> c \<in> set (listeners w' m)"
    using k(5) by (auto simp: k(2))
qed

text \<open>A step that only touches the clock, the count and what the channels of others are.\<close>

definition overheard :: "('s \<Rightarrow> string \<Rightarrow> receipt_record list) \<Rightarrow> nat \<Rightarrow> string \<Rightarrow> 's recorders \<Rightarrow> 's recorders \<Rightarrow> bool" where
  "overheard rows c m s t \<longleftrightarrow> placed c m (rs_world t) \<and> channel_heard (rs_world t) c = channel_heard (rs_world s) c \<and>
     (c \<in> set (listeners (rs_world t) m) \<longleftrightarrow> c \<in> set (listeners (rs_world s) m))"

lemma overheard_same:
  "placed c m (rs_world s) \<Longrightarrow> lw_observers (rs_world t) = lw_observers (rs_world s) \<Longrightarrow>
   lw_channels (rs_world t) = lw_channels (rs_world s) \<Longrightarrow> lw_sent (rs_world t) = lw_sent (rs_world s) \<Longrightarrow> overheard rows c m s t"
  using same_channels [of "rs_world t" "rs_world s"] by (simp add: overheard_def placed_def)

text \<open>The three ways of a step, as one observer sees them.\<close>

lemma recorder_stepE:
  assumes "recorder_step h s t" and "ledger_contract (lh_api h) rows" and "placed c m (rs_world s)"
  obtains (row) r where "overheard rows c m s t" and "rs_telling t = rs_telling s @ [r]"
      and "rows_of rows t = (rows_of rows s)(rr_message_id r := rows_of rows s (rr_message_id r) @ [r])"
      and "rr_sequence r = sequence_after (rows_of rows s (rr_message_id r))"
  | (told) before r after where "rs_telling s = before @ r # after" and "rs_telling t = before @ after"
      and "rs_world t = tell_row h r (rs_world s)"
  | (idle) "overheard rows c m s t" and "rs_telling t = rs_telling s" and "rows_of rows t = rows_of rows s"
  using assms(1)
proof cases
  case (appends a g r w)
  show thesis
    using assms(2) appends(2)
  proof (cases rule: append_gradeE)
    case (appended r' st)
    with appends show thesis
      by (intro row [of r]) (auto simp: rows_of_def fun_eq_iff row_for_def intro: overheard_same [OF assms(3)])
  qed simp
next
  case (fails a g e w)
  show thesis
    using assms(2) fails(2)
  proof (cases rule: append_gradeE)
    case (failed e' n st)
    with fails show thesis by (intro idle) (auto simp: rows_of_def fun_eq_iff intro: overheard_same [OF assms(3)])
  qed simp
next
  case (tells before r after)
  then show thesis by (intro told) auto
next
  case (subscribes m' c' w)
  note w = subscribe_fields [OF subscribes(2)]
  have "channels_ok w" using assms(3) subscribe_channels [OF subscribes(2)] by (simp add: placed_def)
  with assms(3) have "overheard rows c m s t"
    by (auto simp: overheard_def placed_def subscribes(1) w)
  with subscribes w show thesis by (intro idle) (auto simp: rows_of_def fun_eq_iff)
next
  case (names i w)
  then have "lw_observers w = lw_observers (rs_world s)" "lw_channels w = lw_channels (rs_world s)"
    "lw_sent w = lw_sent (rs_world s)" "lw_store w = lw_store (rs_world s)"
    by (auto simp: new_message_id_def stamp_now_def Let_def)
  with names show thesis by (intro idle overheard_same [OF assms(3)]) (auto simp: rows_of_def fun_eq_iff)
qed

lemma hears_step:
  assumes "recorder_step h s t" and "ledger_contract (lh_api h) rows" and "placed c m (rs_world s)"
    and n: "numbered rows m n s" and hears: "hears rows c m n base s"
  shows "placed c m (rs_world t) \<and> numbered rows m n t \<and> hears rows c m n base t \<and>
    prefix (rows_of rows s m) (rows_of rows t m) \<and>
    ((\<forall>sent. lh_listening h sent c) \<and> c \<in> set (listeners (rs_world s) m) \<longrightarrow> c \<in> set (listeners (rs_world t) m))"
  using assms(1-3)
proof (cases rule: recorder_stepE)
  case (row r)
  from n have le: "n \<le> length (rows_of rows s m)" by (simp add: numbered_def)
  have "hears rows c m n base t"
    using hears row le by (auto simp: hears_def overheard_def pending_def Let_def)
  moreover have "numbered rows m n t"
    using n row by (auto simp: numbered_def nth_append less_Suc_eq)
  ultimately show ?thesis using row by (auto simp: overheard_def)
next
  case (told before r after)
  note w = tell_row_heard [OF assms(3) told(3)]
  have rows: "rows_of rows t = rows_of rows s" by (simp add: rows_of_def fun_eq_iff w)
  have "hears rows c m n base t"
  proof (cases "rr_message_id r = m")
    case True
    have sub: "mset (channel_heard (rs_world s) c) + receipts (pending m t) \<subseteq># mset (channel_heard (rs_world s) c) + receipts (pending m s)"
      using True told by (simp add: pending_def)
    show ?thesis
    proof (cases "c \<in> set (listeners (rs_world t) m)")
      case True
      with hears told w(4) [OF \<open>rr_message_id r = m\<close>] w(5) rows \<open>rr_message_id r = m\<close> show ?thesis
        by (simp add: hears_def pending_def Let_def)
    next
      case False
      with w(4) [OF \<open>rr_message_id r = m\<close>] have "channel_heard (rs_world t) c = channel_heard (rs_world s) c" by simp
      moreover have "mset (channel_heard (rs_world s) c) + receipts (pending m s) \<subseteq># receipts (base @ drop n (rows_of rows s m))"
        using hears by (simp add: hears_def Let_def)
      from subset_mset.order_trans [OF sub this] have "mset (channel_heard (rs_world s) c) + receipts (pending m t) \<subseteq>#
        receipts (base @ drop n (rows_of rows s m))" .
      ultimately show ?thesis using rows False by (simp add: hears_def Let_def)
    qed
  next
    case False
    with hears told w(3) rows show ?thesis by (simp add: hears_def pending_def)
  qed
  with w rows n show ?thesis by (auto simp: numbered_def)
next
  case idle
  with n hears show ?thesis by (simp add: hears_def overheard_def numbered_def pending_def)
qed

lemma hears_in_order_step:
  assumes "recorder_step h s t" and "ledger_contract (lh_api h) rows" and "placed c m (rs_world s)"
    and n: "numbered rows m n s" and hears: "hears_in_order rows c m n base s" and one: "one_each s"
  shows "hears_in_order rows c m n base t"
  using assms(1-3)
proof (cases rule: recorder_stepE)
  case (row r)
  from n have "n \<le> length (rows_of rows s m)" by (simp add: numbered_def)
  with hears row show ?thesis
    by (auto simp: hears_in_order_def overheard_def pending_def)
next
  case (told before r after)
  note w = tell_row_heard [OF assms(3) told(3)]
  have rows: "rows_of rows t = rows_of rows s" by (simp add: rows_of_def fun_eq_iff w)
  show ?thesis
  proof (cases "rr_message_id r = m")
    case True
    have first: "to_recipient (rr_flow_id r) (filter (\<lambda>r. rr_message_id r = m) before) = []"
    proof -
      have "(m, rr_flow_id r) \<notin> (\<lambda>r. (rr_message_id r, rr_flow_id r)) ` set before"
        using one True by (simp add: one_each_def told(1))
      then show ?thesis by (auto simp: to_recipient_def filter_empty_conv)
    qed
    show ?thesis unfolding hears_in_order_def
    proof (intro impI allI)
      fix f
      assume reg: "c \<in> set (listeners (rs_world t) m)"
      with w(5) hears have "heard_from f (channel_heard (rs_world s) c) @ to_recipient f (pending m s) =
        to_recipient f (base @ drop n (rows_of rows s m))" by (simp add: hears_in_order_def)
      with reg first w(4) [OF True] rows True told show "heard_from f (channel_heard (rs_world t) c) @ to_recipient f (pending m t) =
        to_recipient f (base @ drop n (rows_of rows t m))"
        by (cases "rr_flow_id r = f") (auto simp: pending_def)
    qed
  next
    case False
    with hears told w(3) rows show ?thesis by (simp add: hears_in_order_def pending_def)
  qed
next
  case idle
  with hears show ?thesis by (simp add: hears_in_order_def overheard_def pending_def)
qed


lemma recorder_step_channels:
  assumes "recorder_step h s t" and "ledger_contract (lh_api h) rows" and ok: "channels_ok (rs_world s)"
  shows "channels_ok (rs_world t)"
  using assms(1)
proof cases
  case (appends a g r w)
  show ?thesis using assms(2) appends(2)
    by (cases rule: append_gradeE) (use appends(1) ok same_channels [of w "rs_world s"] in auto)
next
  case (fails a g e w)
  show ?thesis using assms(2) fails(2)
    by (cases rule: append_gradeE) (use fails(1) ok same_channels [of w "rs_world s"] in auto)
next
  case (tells before r after)
  with ok show ?thesis by (simp add: tell_row_def tell_receipt_channels)
next
  case (subscribes m c w)
  with subscribe_channels [OF subscribes(2) ok] show ?thesis by simp
next
  case (names i w)
  then have "lw_observers w = lw_observers (rs_world s)" "lw_channels w = lw_channels (rs_world s)"
    "lw_sent w = lw_sent (rs_world s)"
    by (auto simp: new_message_id_def stamp_now_def Let_def)
  with same_channels [of w "rs_world s"] ok names show ?thesis by simp
qed

lemma recorder_run_channels:
  "recorder_run h s us t \<Longrightarrow> ledger_contract (lh_api h) rows \<Longrightarrow> channels_ok (rs_world s) \<Longrightarrow> channels_ok (rs_world t)"
  by (induction rule: recorder_run.induct) (auto intro: recorder_step_channels)

definition observes :: "('s \<Rightarrow> string \<Rightarrow> receipt_record list) \<Rightarrow> nat \<Rightarrow> string \<Rightarrow> nat \<Rightarrow> receipt_record list \<Rightarrow> 's recorders \<Rightarrow> bool" where
  "observes rows c m n base s \<longleftrightarrow> placed c m (rs_world s) \<and> numbered rows m n s \<and> hears rows c m n base s"

lemma recorder_run_hears:
  assumes "recorder_run h s us t" and contract: "ledger_contract (lh_api h) rows" and "observes rows c m n base s"
  shows "observes rows c m n base t \<and> prefix (rows_of rows s m) (rows_of rows t m) \<and>
    ((\<forall>sent. lh_listening h sent c) \<and> c \<in> set (listeners (rs_world s) m) \<longrightarrow> c \<in> set (listeners (rs_world t) m)) \<and>
    (hears_in_order rows c m n base s \<and> (\<forall>u \<in> set us. one_each u) \<longrightarrow> hears_in_order rows c m n base t)"
  using assms(1,3)
proof (induction rule: recorder_run.induct)
  case (more s us t u)
  then have t: "placed c m (rs_world t)" "numbered rows m n t" "hears rows c m n base t" by (auto simp: observes_def)
  from hears_step [OF more.hyps(2) contract t] hears_in_order_step [OF more.hyps(2) contract t(1,2)] more.IH [OF more.prems]
  show ?case by (auto simp: observes_def intro: prefix_order.trans)
qed simp

lemma subscribed_observes:
  assumes "subscribe m (rs_world s) = (c, w)" and ok: "channels_ok (rs_world s)"
  shows "observes rows c m (length (rows_of rows s m)) (pending m s) (s\<lparr>rs_world := w\<rparr>) \<and>
    hears_in_order rows c m (length (rows_of rows s m)) (pending m s) (s\<lparr>rs_world := w\<rparr>) \<and>
    c \<in> set (listeners w m) \<and> rows_of rows (s\<lparr>rs_world := w\<rparr>) = rows_of rows s"
proof -
  note w = subscribe_fields [OF assms(1)]
  have none: "channel_heard (rs_world s) c = []" "\<And>m. c \<notin> set (listeners (rs_world s) m)"
    using ok by (auto simp: channels_ok_def w(6) channel_heard_def filter_empty_conv)
  have rows: "rows_of rows (s\<lparr>rs_world := w\<rparr>) = rows_of rows s" by (simp add: rows_of_def fun_eq_iff w)
  have "placed c m w" using subscribe_channels [OF assms(1) ok] none by (auto simp: placed_def w)
  then show ?thesis
    unfolding observes_def hears_def hears_in_order_def numbered_def rows
    using none(1) by (simp add: w pending_def)
qed

section \<open>Properties\<close>

definition start_recorders :: "'s \<Rightarrow> nat \<Rightarrow> nat \<Rightarrow> 's recorders" where
  "start_recorders s made ticks = \<lparr>rs_world = fresh_ledger s made ticks, rs_telling = []\<rparr>"

lemma observers_hear:
  assumes "ledger_contract (lh_api h) rows" and "recorder_run h (start_recorders st made ticks) vs s"
    and "subscribe m (rs_world s) = (c, w)" and "recorder_run h (s\<lparr>rs_world := w\<rparr>) us t"
  defines "n \<equiv> length (rows_of rows s m)"
  shows "observes rows c m n (pending m s) t" and "prefix (rows_of rows s m) (rows_of rows t m)"
    and "(\<forall>sent. lh_listening h sent c) \<Longrightarrow> c \<in> set (listeners (rs_world t) m)"
    and "\<forall>u \<in> set us. one_each u \<Longrightarrow> hears_in_order rows c m n (pending m s) t"
proof -
  have "channels_ok (rs_world s)"
    using recorder_run_channels [OF assms(2,1)] by (simp add: start_recorders_def fresh_channels_ok)
  from subscribed_observes [OF assms(3) this, of rows]
  have sub: "observes rows c m n (pending m s) (s\<lparr>rs_world := w\<rparr>)" "hears_in_order rows c m n (pending m s) (s\<lparr>rs_world := w\<rparr>)"
    "c \<in> set (listeners w m)" "rows_of rows (s\<lparr>rs_world := w\<rparr>) = rows_of rows s"
    by (simp_all add: n_def)
  from recorder_run_hears [OF assms(4,1) sub(1)] sub(2-4)
  show "observes rows c m n (pending m s) t" and "prefix (rows_of rows s m) (rows_of rows t m)"
    and "(\<forall>sent. lh_listening h sent c) \<Longrightarrow> c \<in> set (listeners (rs_world t) m)"
    and "\<forall>u \<in> set us. one_each u \<Longrightarrow> hears_in_order rows c m n (pending m s) t" by simp_all
qed


text \<open>Two threads, two recipients of one message: the second row is told first.\<close>

definition recorded_by :: "string \<Rightarrow> string \<Rightarrow> memory recorders \<Rightarrow> memory recorders" where
  "recorded_by f d s =
     (case append_grade memory_host \<lparr>ad_message_id = ''m'', ad_flow_id = f\<rparr>
         \<lparr>gr_delivery_id = d, gr_witness = NotRequested, gr_grade = Grade_Parked\<rparr> (rs_world s) of
        (Inr row, w) \<Rightarrow> s\<lparr>rs_world := w, rs_telling := rs_telling s @ [row]\<rparr>
      | (Inl _, w) \<Rightarrow> s\<lparr>rs_world := w\<rparr>)"

definition parked_row :: "string \<Rightarrow> string \<Rightarrow> int \<Rightarrow> receipt_record" where
  "parked_row f d n = \<lparr>rr_message_id = ''m'', rr_sequence = n, rr_flow_id = f, rr_delivery_id = d,
     rr_witness = NotRequested, rr_grade = Grade_Parked, rr_stamped_at = of_int n\<rparr>"

lemma recorded_step: "recorder_step memory_host s (recorded_by f d s)"
  unfolding recorded_by_def by (auto split: prod.split sum.split intro: recorder_step.appends recorder_step.fails)


end
