(* ===== verification/Delivery.thy ===== *)
theory Delivery imports Ledger begin

text \<open>
  message-nexus/src/delivery.rs: delivery through Flow, and parking. The file is in the crate's
  sources but not among the modules of lib.rs; the ledger's store, Flow's edge
  (\<open>CallsFlowMeta\<close>, \<open>ObservesFlowAgent\<close>) and its streams of agent states are parameters. A thread
  the code spawns is a task noted in the world; a task runs as one step.
\<close>

section \<open>Flow's types\<close>

record letter =
  let_message_id :: string
  let_sender :: string
  let_content :: string

datatype flow_letter = Letter_HardAbrupt letter | Letter_MiddleAbrupt letter | Letter_Soft letter

record delivery_request =
  dr_delivery_id :: string
  dr_flow_id :: string
  dr_message :: flow_letter

datatype delivery_grade = Delivery_Transported | Delivery_Presented | Delivery_Uncertain

record delivery =
  dl_witness :: interrupt_witness
  dl_grade :: delivery_grade

datatype agent_state = Agent_Idle | Agent_Done | Agent_Gone | Other_State string

type_synonym deliver_outcome = "edge_failure + (delivery_rejection + delivery)"

section \<open>The world\<close>

text \<open>
  \<open>dh_deliver\<close> is Flow's answer to a request from everything it was asked before, \<open>dh_observe\<close> the
  n-th opening of a stream, \<open>dh_next_state\<close> the n-th read of any stream (\<open>None\<close> when it has ended),
  \<open>dh_closer\<close> whether the handle of a stream can be copied.
\<close>

record ('s, 'e) delivery_host = "('s, 'e) ledger_host" +
  dh_edge :: "'s \<Rightarrow> 'e + string"
  dh_state_invariant :: 'e
  dh_deliver :: "(delivery_request \<times> deliver_outcome) list \<Rightarrow> string \<Rightarrow> delivery_request \<Rightarrow> deliver_outcome"
  dh_observe :: "nat \<Rightarrow> string \<Rightarrow> string \<Rightarrow> edge_failure + nat"
  dh_closer :: "nat \<Rightarrow> bool"
  dh_next_state :: "nat \<Rightarrow> nat \<Rightarrow> agent_state option"

datatype task = Watch_Task addressee | Settle_Task addressee string

record 's delivery_world = "'s ledger_world" +
  dw_watches :: "addressee \<Rightarrow> nat option"
  dw_asked :: "(delivery_request \<times> deliver_outcome) list"
  dw_opened :: nat
  dw_reads :: nat
  dw_threads :: "task list"
  dw_shut :: "nat list"
  dw_said :: "string list"

section \<open>Requests, ids and grades\<close>

definition flow_message :: "message_record \<Rightarrow> flow_letter" where
  "flow_message m =
     (let l = \<lparr>let_message_id = mr_message_id m, let_sender = mr_sender m, let_content = mr_content m\<rparr>
      in case mr_priority m of
           Priority_HardAbrupt \<Rightarrow> Letter_HardAbrupt l
         | Priority_MiddleAbrupt \<Rightarrow> Letter_MiddleAbrupt l
         | Priority_Soft \<Rightarrow> Letter_Soft l)"

definition delivery_request_of :: "message_record \<Rightarrow> string \<Rightarrow> string \<Rightarrow> delivery_request" where
  "delivery_request_of m did flow_id =
     \<lparr>dr_delivery_id = did, dr_flow_id = flow_id, dr_message = flow_message m\<rparr>"

definition delivery_id :: "addressee \<Rightarrow> 64 word \<Rightarrow> string" where
  "delivery_id a n = ad_message_id a @ '':'' @ ad_flow_id a @ '':'' @ decimal (unat n)"

text \<open>\<open>str::parse::<u64>\<close>: an optional plus sign, digits, and the value in range.\<close>

definition parse_u64 :: "string \<Rightarrow> 64 word option" where
  "parse_u64 s =
     (case parse_nat (case s of c # ds \<Rightarrow> if c = CHR ''+'' then ds else s | [] \<Rightarrow> s) of
        None \<Rightarrow> None
      | Some n \<Rightarrow> if n < 2 ^ 64 then Some (of_nat n) else None)"

definition attempt :: "string \<Rightarrow> 64 word" where
  "attempt s = (case parse_u64 (last (split_by (\<lambda>c. c = CHR '':'') s)) of None \<Rightarrow> 0 | Some n \<Rightarrow> n)"

definition grading_of :: "deliver_outcome \<Rightarrow> string \<Rightarrow> grading" where
  "grading_of outcome did =
     (let (witness, g) =
        (case outcome of
           Inr (Inr d) \<Rightarrow>
             (dl_witness d,
              case dl_grade d of
                Delivery_Transported \<Rightarrow> Grade_Transported
              | Delivery_Presented \<Rightarrow> Grade_Presented
              | Delivery_Uncertain \<Rightarrow> Grade_Uncertain)
         | Inr (Inl RecipientWorking) \<Rightarrow> (NotRequested, Grade_Parked)
         | Inr (Inl ComposerOccupied) \<Rightarrow> (NotRequested, Grade_Parked)
         | Inr (Inl rejection) \<Rightarrow> (NotRequested, Grade_Refused rejection)
         | Inl Unreachable \<Rightarrow> (NotRequested, Grade_Refused NotDelivered)
         | Inl (Edge_Refused _) \<Rightarrow> (NotRequested, Grade_Refused NotDelivered)
         | Inl Broken \<Rightarrow> (NotRequested, Grade_Uncertain)
         | Inl Unexpected \<Rightarrow> (NotRequested, Grade_Uncertain))
      in \<lparr>gr_delivery_id = did, gr_witness = witness, gr_grade = g\<rparr>)"

section \<open>Delivering\<close>

text \<open>One Deliver over the configured edge, as \<open>settle\<close> and \<open>land_parked\<close> make it.\<close>

definition ask_flow :: "('s, 'e) delivery_host \<Rightarrow> delivery_request \<Rightarrow> 's delivery_world \<Rightarrow>
    deliver_outcome \<times> 's delivery_world" where
  "ask_flow h request w =
     (case dh_edge h (lw_store w) of
        Inl _ \<Rightarrow> (Inl Unreachable, w)
      | Inr path \<Rightarrow>
          (let outcome = dh_deliver h (dw_asked w) path request
           in (outcome, w\<lparr>dw_asked := dw_asked w @ [(request, outcome)]\<rparr>)))"

definition watch_parked :: "addressee \<Rightarrow> 's delivery_world \<Rightarrow> 's delivery_world" where
  "watch_parked a w = w\<lparr>dw_threads := dw_threads w @ [Watch_Task a]\<rparr>"

definition is_parked :: "receipt_record option \<Rightarrow> bool" where
  "is_parked latest = (case latest of None \<Rightarrow> False | Some l \<Rightarrow> rr_grade l = Grade_Parked)"

definition settle :: "('s, 'e) delivery_host \<Rightarrow> addressee \<Rightarrow> string \<Rightarrow> 's delivery_world \<Rightarrow>
    ('e + receipt) \<times> 's delivery_world" where
  "settle h a did w =
     (case lg_message (lh_api h) (lw_store w) (ad_message_id a) of
        Inl e \<Rightarrow> (Inl e, w)
      | Inr None \<Rightarrow> (Inl (dh_state_invariant h), w)
      | Inr (Some message) \<Rightarrow>
          (case ask_flow h (delivery_request_of message did (ad_flow_id a)) w of (outcome, w1) \<Rightarrow>
             let g = grading_of outcome did
             in case latest_receipt h a w1 of
                  Inl e \<Rightarrow> (Inl e, w1)
                | Inr latest \<Rightarrow>
                    if gr_grade g = Grade_Parked \<and> is_parked latest
                    then (Inr (case latest of
                                 Some l \<Rightarrow> receipt_of l
                               | None \<Rightarrow> \<lparr>rc_flow_id = ad_flow_id a, rc_witness = NotRequested, rc_grade = Grade_Parked\<rparr>), w1)
                    else (case record_grade h a g w1 of
                            (Inl e, w2) \<Rightarrow> (Inl e, w2)
                          | (Inr r, w2) \<Rightarrow> (Inr r, if gr_grade g = Grade_Parked then watch_parked a w2 else w2))))"

fun resume_parks :: "('s, 'e) delivery_host \<Rightarrow> addressee list \<Rightarrow> 's delivery_world \<Rightarrow>
    ('e + unit) \<times> 's delivery_world" where
  "resume_parks h [] w = (Inr (), w)"
| "resume_parks h (a # rest) w =
     (case latest_receipt h a w of
        Inl e \<Rightarrow> (Inl e, w)
      | Inr None \<Rightarrow> resume_parks h rest w
      | Inr (Some latest) \<Rightarrow>
          (case rr_grade latest of
             Grade_Parked \<Rightarrow> resume_parks h rest (watch_parked a w)
           | Grade_Submitted \<Rightarrow>
               resume_parks h rest (w\<lparr>dw_threads := dw_threads w @ [Settle_Task a (rr_delivery_id latest)]\<rparr>)
           | _ \<Rightarrow> resume_parks h rest w))"

definition resume :: "('s, 'e) delivery_host \<Rightarrow> 's delivery_world \<Rightarrow> ('e + unit) \<times> 's delivery_world" where
  "resume h w =
     (case lg_parks (lh_api h) (lw_store w) of
        Inl e \<Rightarrow> (Inl e, w)
      | Inr parks \<Rightarrow> resume_parks h parks w)"

section \<open>Delivery ids\<close>

lemma last_split_by:
  "\<forall>c \<in> set w. \<not> p c \<Longrightarrow> p x \<Longrightarrow> last (split_by p (pre @ x # w)) = w"
proof (induction pre)
  case Nil
  then show ?case by (simp add: split_by_clean)
next
  case (Cons y pre)
  moreover have "\<exists>y z ys. split_by p (pre @ x # w) = y # z # ys" using Cons.prems
  proof (induction pre)
    case (Cons y pre)
    then show ?case by (auto split: list.splits)
  qed (simp add: split_by_clean)
  ultimately show ?case by (auto split: list.splits)
qed

lemma decimal_no_colon: "CHR '':'' \<notin> set (decimal n)"
  using decimal_digits [of n] digit_not_sign by (auto simp: list_all_iff)

lemma parse_u64_decimal: "parse_u64 (decimal (unat n)) = Some n"
proof -
  obtain c ds where d: "decimal (unat n) = c # ds" and "is_digit c" using decimal_Cons by blast
  then have "c \<noteq> CHR ''+''" using digit_not_sign by auto
  moreover have "unat n < 2 ^ 64" using unsigned_less [of n] by simp
  moreover have "parse_nat (c # ds) = Some (unat n)" by (simp flip: d)
  ultimately show ?thesis by (simp add: parse_u64_def d)
qed

lemma attempt_delivery_id: "attempt (delivery_id a n) = n"
proof -
  have "last (split_by (\<lambda>c. c = CHR '':'') ((ad_message_id a @ '':'' @ ad_flow_id a) @ CHR '':'' # decimal (unat n)))
      = decimal (unat n)"
    using decimal_no_colon by (intro last_split_by) auto
  then show ?thesis by (simp add: attempt_def delivery_id_def parse_u64_decimal)
qed

lemma split_at_first: "c \<notin> set xs \<Longrightarrow> c \<notin> set ys \<Longrightarrow> xs @ c # us = ys @ c # vs \<Longrightarrow> xs = ys \<and> us = vs"
  by (induction xs arbitrary: ys) (auto simp: Cons_eq_append_conv append_eq_Cons_conv)

lemma delivery_id_inj:
  assumes "CHR '':'' \<notin> set (ad_message_id a)" and "CHR '':'' \<notin> set (ad_message_id b)"
  shows "delivery_id a n = delivery_id b k \<longleftrightarrow> a = b \<and> n = k"
proof
  assume eq: "delivery_id a n = delivery_id b k"
  then have "n = k" by (metis attempt_delivery_id)
  from eq have "ad_message_id a = ad_message_id b \<and>
      ad_flow_id a @ CHR '':'' # decimal (unat n) = ad_flow_id b @ CHR '':'' # decimal (unat k)"
    by (intro split_at_first [of "CHR '':''"] assms) (simp add: delivery_id_def)
  moreover from this have "ad_flow_id a = ad_flow_id b"
    using \<open>n = k\<close> by simp
  ultimately show "a = b \<and> n = k" using \<open>n = k\<close> by simp
qed simp

section \<open>Every operation only adds grades\<close>

text \<open>The recordings change the ledger's part of the world alone.\<close>

lemma record_grade_delivery_fields [simp]:
  "dw_asked (snd (record_grade h a g w)) = dw_asked w" "dw_threads (snd (record_grade h a g w)) = dw_threads w"
  "dw_watches (snd (record_grade h a g w)) = dw_watches w" "dw_reads (snd (record_grade h a g w)) = dw_reads w"
  by (simp_all add: record_grade_def stamp_now_def tell_receipt_def Let_def split: sum.splits prod.splits option.splits)

lemma graded_fields [simp]:
  "graded rows (w\<lparr>dw_asked := x\<rparr>) = graded rows w" "graded rows (w\<lparr>dw_threads := y\<rparr>) = graded rows w"
  "graded rows (w\<lparr>dw_watches := v\<rparr>) = graded rows w" "graded rows (w\<lparr>dw_opened := i\<rparr>) = graded rows w"
  "graded rows (w\<lparr>dw_reads := i\<rparr>) = graded rows w" "graded rows (w\<lparr>dw_said := n\<rparr>) = graded rows w"
  "graded rows (w\<lparr>dw_shut := s\<rparr>) = graded rows w"
  by (simp_all add: graded_def fun_eq_iff)

text \<open>No recipient is recorded parked twice in a row.\<close>

definition parked_once :: "receipt_record list \<Rightarrow> bool" where
  "parked_once rs \<longleftrightarrow> successively (\<lambda>x y. \<not> (x = Grade_Parked \<and> y = Grade_Parked)) (map rr_grade rs)"

lemma parked_once_snoc:
  "parked_once rs \<Longrightarrow> \<not> (rs \<noteq> [] \<and> rr_grade (last rs) = Grade_Parked \<and> rr_grade r = Grade_Parked) \<Longrightarrow>
   parked_once (rs @ [r])"
  by (auto simp: parked_once_def successively_append_iff last_map)

definition moves :: "('s \<Rightarrow> string \<Rightarrow> receipt_record list) \<Rightarrow> addressee \<Rightarrow> 's delivery_world \<Rightarrow> 's delivery_world \<Rightarrow> bool" where
  "moves rows a w w' \<longleftrightarrow>
     (\<exists>new ts. graded rows w' = (graded rows w)(a := graded rows w a @ new) \<and>
        (parked_once (graded rows w a) \<longrightarrow> parked_once (graded rows w a @ new)) \<and>
        dw_threads w' = dw_threads w @ ts \<and>
        (new \<noteq> [] \<and> rr_grade (last new) = Grade_Parked \<longrightarrow> Watch_Task a \<in> set ts))"

lemma moves_idle: "graded rows w' = graded rows w \<Longrightarrow> dw_threads w' = dw_threads w @ ts \<Longrightarrow> moves rows a w w'"
  unfolding moves_def by (intro exI [of _ "[]"] exI [of _ ts]) auto

lemma ask_flowE:
  assumes "ask_flow h q w = (outcome, w')"
  obtains (no_edge) "outcome = Inl Unreachable" and "w' = w" and "\<exists>e. dh_edge h (lw_store w) = Inl e"
  | (asked) path where "outcome = dh_deliver h (dw_asked w) path q" and "dh_edge h (lw_store w) = Inr path"
      and "w' = w\<lparr>dw_asked := dw_asked w @ [(q, outcome)]\<rparr>"
  using assms by (auto simp: ask_flow_def Let_def split: sum.splits)

text \<open>A grade that is not a second parking.\<close>

lemma record_moves:
  assumes "ledger_contract (lh_api h) rows" and "record_grade h a g w = (res, w1)"
    and "\<not> (graded rows w a \<noteq> [] \<and> rr_grade (last (graded rows w a)) = Grade_Parked \<and> gr_grade g = Grade_Parked)"
    and "w' = w1\<lparr>dw_threads := dw_threads w1 @ ts\<rparr>"
    and "gr_grade g = Grade_Parked \<longrightarrow> (\<exists>e. res = Inl e) \<or> Watch_Task a \<in> set ts"
  shows "moves rows a w w'"
proof -
  have ok: "ledger_ok h rows w" using assms(1) by (simp add: ledger_ok_def)
  have threads: "dw_threads w1 = dw_threads w"
    using record_grade_delivery_fields(2) [of h a g w] assms(2) by simp
  show ?thesis
  proof (cases res)
    case (Inl e)
    with grading.enter_failed [OF ok, of a g] assms(2) show ?thesis
      by (intro moves_idle) (auto simp: assms(4) threads)
  next
    case (Inr x)
    with grading.enter_done [OF ok, of a g] assms(2) obtain row where row: "row_for a g row"
      "graded rows w1 = (graded rows w)(a := graded rows w a @ [row])" by blast
    then have "parked_once (graded rows w a) \<longrightarrow> parked_once (graded rows w a @ [row])"
      using assms(3) by (auto simp: row_for_def intro: parked_once_snoc)
    with row Inr assms(5) show ?thesis
      unfolding moves_def by (intro exI [of _ "[row]"] exI [of _ ts]) (auto simp: assms(4) threads row_for_def)
  qed
qed


lemma latest_fields [simp]:
  "latest_receipt h a (w\<lparr>dw_asked := x\<rparr>) = latest_receipt h a w"
  by (simp add: latest_receipt_def)

lemma latest_graded:
  assumes "ledger_contract (lh_api h) rows" and "latest_receipt h a w = Inr latest"
  shows "is_parked latest \<longleftrightarrow> graded rows w a \<noteq> [] \<and> rr_grade (last (graded rows w a)) = Grade_Parked"
  using latest_receipt_graded [OF assms] by (simp add: is_parked_def)

text \<open>What a settlement comes to. \<open>Inl\<close> before Flow was asked, and the three ends after.\<close>

lemma settleE:
  assumes "settle h a did w = (res, w')"
  obtains (unasked) e where "res = Inl e" and "w' = w"
  | (unread) message outcome e where "lg_message (lh_api h) (lw_store w) (ad_message_id a) = Inr (Some message)"
      and "ask_flow h (delivery_request_of message did (ad_flow_id a)) w = (outcome, w')" and "res = Inl e"
  | (parked_again) message outcome l where "lg_message (lh_api h) (lw_store w) (ad_message_id a) = Inr (Some message)"
      and "ask_flow h (delivery_request_of message did (ad_flow_id a)) w = (outcome, w')"
      and "gr_grade (grading_of outcome did) = Grade_Parked" and "latest_receipt h a w' = Inr (Some l)"
      and "rr_grade l = Grade_Parked" and "res = Inr (receipt_of l)"
  | (graded) message outcome w1 w2 latest where "lg_message (lh_api h) (lw_store w) (ad_message_id a) = Inr (Some message)"
      and "ask_flow h (delivery_request_of message did (ad_flow_id a)) w = (outcome, w1)"
      and "latest_receipt h a w1 = Inr latest"
      and "\<not> (gr_grade (grading_of outcome did) = Grade_Parked \<and> is_parked latest)"
      and "record_grade h a (grading_of outcome did) w1 = (res, w2)"
      and "w' = (if gr_grade (grading_of outcome did) = Grade_Parked \<and> (\<exists>r. res = Inr r) then watch_parked a w2 else w2)"
proof (cases "lg_message (lh_api h) (lw_store w) (ad_message_id a)")
  case (Inl e)
  with assms show thesis by (intro unasked) (auto simp: settle_def)
next
  case (Inr m)
  show thesis
  proof (cases m)
    case None
    with Inr assms show thesis by (intro unasked) (auto simp: settle_def)
  next
    case (Some message)
    obtain outcome w1 where ask: "ask_flow h (delivery_request_of message did (ad_flow_id a)) w = (outcome, w1)" by fastforce
    note m = Inr [unfolded Some]
    show thesis
    proof (cases "latest_receipt h a w1")
      case (Inl e)
      with m ask assms show thesis by (intro unread [of message]) (auto simp: settle_def Let_def)
    next
      case (Inr latest)
      show thesis
      proof (cases "gr_grade (grading_of outcome did) = Grade_Parked \<and> is_parked latest")
        case True
        then obtain l where "latest = Some l" "rr_grade l = Grade_Parked"
          by (auto simp: is_parked_def split: option.splits)
        with True m ask Inr assms show thesis by (intro parked_again [of message]) (auto simp: settle_def Let_def)
      next
        case False
        obtain r w2 where rec: "record_grade h a (grading_of outcome did) w1 = (r, w2)" by fastforce
        from m ask Inr False rec assms have
          "res = r \<and> w' = (if gr_grade (grading_of outcome did) = Grade_Parked \<and> (\<exists>x. r = Inr x) then watch_parked a w2 else w2)"
          by (cases r) (auto simp: settle_def Let_def)
        with m ask Inr False rec show thesis by (intro graded [of message outcome w1 latest]) auto
      qed
    qed
  qed
qed

lemma ask_flow_graded: "ask_flow h q w = (outcome, w') \<Longrightarrow>
    graded rows w' = graded rows w \<and> dw_threads w' = dw_threads w \<and> dw_watches w' = dw_watches w \<and> dw_reads w' = dw_reads w"
  by (erule ask_flowE) simp_all

lemma settle_moves:
  assumes contract: "ledger_contract (lh_api h) rows" and "settle h a did w = (res, w')"
  shows "moves rows a w w'"
  using assms(2)
proof (cases rule: settleE)
  case (unasked e)
  then show ?thesis by (intro moves_idle [of _ _ _ "[]"]) simp_all
next
  case (unread message outcome e)
  with ask_flow_graded [OF unread(2), of rows] show ?thesis by (intro moves_idle [of _ _ _ "[]"]) simp_all
next
  case (parked_again message outcome l)
  with ask_flow_graded [OF parked_again(2), of rows] show ?thesis by (intro moves_idle [of _ _ _ "[]"]) simp_all
next
  case (graded message outcome w1 w2 latest)
  let ?g = "grading_of outcome did"
  have g: "graded rows w1 = graded rows w" "dw_threads w1 = dw_threads w"
    using ask_flow_graded [OF graded(2)] by simp_all
  have "\<not> (graded rows w1 a \<noteq> [] \<and> rr_grade (last (graded rows w1 a)) = Grade_Parked \<and> gr_grade ?g = Grade_Parked)"
    using graded(4) latest_graded [OF contract graded(3)] by blast
  from record_moves [OF contract graded(5) this,
      of w' "if gr_grade ?g = Grade_Parked \<and> (\<exists>r. res = Inr r) then [Watch_Task a] else []"]
  have "moves rows a w1 w'"
    using graded(6) by (cases res) (auto simp: watch_parked_def)
  with g show ?thesis by (simp add: moves_def)
qed

lemma row_receipt: "row_for a g r \<Longrightarrow> receipt_of r = \<lparr>rc_flow_id = ad_flow_id a, rc_witness = gr_witness g, rc_grade = gr_grade g\<rparr>"
  by (simp add: row_for_def receipt_of_def)

text \<open>What is asked of Flow in a settlement, and what the answer of \<open>settle\<close> says.\<close>

lemma ask_flow_asks:
  "ask_flow h q w = (outcome, w') \<Longrightarrow>
   \<exists>asks. dw_asked w' = dw_asked w @ asks \<and> (asks = [] \<and> outcome = Inl Unreachable \<or> asks = [(q, outcome)])"
  by (erule ask_flowE) auto

lemma settle_spec:
  assumes contract: "ledger_contract (lh_api h) rows" and "settle h a did w = (res, w')"
  shows "\<exists>asks. dw_asked w' = dw_asked w @ asks \<and>
     (asks = [] \<or> (\<exists>message outcome. asks = [(delivery_request_of message did (ad_flow_id a), outcome)] \<and>
        lg_message (lh_api h) (lw_store w) (ad_message_id a) = Inr (Some message))) \<and>
     (case res of
        Inl e \<Rightarrow> graded rows w' = graded rows w
      | Inr r \<Rightarrow> graded rows w' a \<noteq> [] \<and> r = receipt_of (last (graded rows w' a)) \<and>
          (\<exists>outcome. rc_grade r = gr_grade (grading_of outcome did) \<and>
             (asks = [] \<and> outcome = Inl Unreachable \<or> asks \<noteq> [] \<and> outcome = snd (last asks))))"
  using assms(2)
proof (cases rule: settleE)
  case (unasked e)
  then show ?thesis by (intro exI [of _ "[]"]) simp
next
  case (unread message outcome e)
  with ask_flow_asks [OF unread(2)] ask_flow_graded [OF unread(2), of rows] show ?thesis by auto
next
  case (parked_again message outcome l)
  have "graded rows w' a \<noteq> [] \<and> l = last (graded rows w' a)"
    using latest_receipt_graded [OF contract parked_again(4)] by (auto split: if_splits)
  moreover have "rc_grade (receipt_of l) = gr_grade (grading_of outcome did)"
    using parked_again(3,5) by (simp add: receipt_of_def)
  ultimately show ?thesis
    using ask_flow_asks [OF parked_again(2)] parked_again(1,6) by fastforce
next
  case (graded message outcome w1 w2 latest)
  have ok: "ledger_ok h rows w1" using contract by (simp add: ledger_ok_def)
  have w': "dw_asked w' = dw_asked w1" "graded rows w' = graded rows w2"
    using graded(6) record_grade_delivery_fields(1) [of h a "grading_of outcome did" w1] graded(5)
    by (auto simp: watch_parked_def)
  have w1: "graded rows w1 = graded rows w" using ask_flow_graded [OF graded(2)] by simp
  obtain asks where asks: "dw_asked w1 = dw_asked w @ asks"
    "asks = [] \<and> outcome = Inl Unreachable \<or> asks = [(delivery_request_of message did (ad_flow_id a), outcome)]"
    using ask_flow_asks [OF graded(2)] by blast
  show ?thesis
  proof (cases res)
    case (Inl e)
    with grading.enter_failed [OF ok, of a "grading_of outcome did"] graded(1,5) w' w1 asks show ?thesis by auto
  next
    case (Inr r)
    with grading.enter_done [OF ok, of a "grading_of outcome did"] graded(5) obtain row where
      "row_for a (grading_of outcome did) row" "r = receipt_of row" "graded rows w2 = (graded rows w1)(a := graded rows w1 a @ [row])"
      by blast
    with Inr graded(1) w' asks show ?thesis
      by (intro exI [of _ asks]) (auto simp: row_receipt)
  qed
qed

section \<open>A Flow in memory\<close>

text \<open>
  The Flow of the witnesses: the recipient is working at the first Deliver and takes the second; a
  stream shows it idle once and ends.
\<close>

definition memory_flow :: "(memory, string) delivery_host" where
  "memory_flow =
     \<lparr>lh_api = memory_ledger, lh_stamp = of_nat, lh_listening = \<lambda>_ _. True,
      dh_edge = \<lambda>_. Inr ''/flow'', dh_state_invariant = ''StateInvariant'',
      dh_deliver = \<lambda>asked _ _. if asked = [] then Inr (Inl RecipientWorking)
        else Inr (Inr \<lparr>dl_witness = NotRequested, dl_grade = Delivery_Presented\<rparr>),
      dh_observe = \<lambda>n _ _. Inr n, dh_closer = \<lambda>_. True,
      dh_next_state = \<lambda>n _. if n = 0 then Some Agent_Idle else None\<rparr>"

definition memory_nexus :: "message_record list \<Rightarrow> memory delivery_world" where
  "memory_nexus messages =
     \<lparr>lw_store = (messages, []), lw_observers = (\<lambda>_. None), lw_count = 0, lw_clock = 0, lw_channels = 0, lw_sent = [],
      dw_watches = (\<lambda>_. None), dw_asked = [], dw_opened = 0, dw_reads = 0, dw_threads = [], dw_shut = [], dw_said = []\<rparr>"

definition hello :: message_record where
  "hello = \<lparr>mr_message_id = ''m-1'', mr_sender = ''s'', mr_content = ''hello'', mr_priority = Priority_Soft, mr_flow_ids = [''f'']\<rparr>"

definition friend :: addressee where
  "friend = \<lparr>ad_message_id = ''m-1'', ad_flow_id = ''f''\<rparr>"

lemma memory_flow_contract: "ledger_contract (lh_api memory_flow) memory_rows"
  by (simp add: memory_flow_def memory_contract)

text \<open>After the first settlement the recipient is parked.\<close>

lemma memory_settled:
  "settle memory_flow friend ''d'' (memory_nexus [hello]) =
     (Inr \<lparr>rc_flow_id = ''f'', rc_witness = NotRequested, rc_grade = Grade_Parked\<rparr>,
      (memory_nexus [hello])\<lparr>lw_clock := 1,
        lw_store := ([hello], [\<lparr>rr_message_id = ''m-1'', rr_sequence = 0, rr_flow_id = ''f'', rr_delivery_id = ''d'',
          rr_witness = NotRequested, rr_grade = Grade_Parked, rr_stamped_at = 0\<rparr>]),
        dw_asked := [(\<lparr>dr_delivery_id = ''d'', dr_flow_id = ''f'',
          dr_message = Letter_Soft \<lparr>let_message_id = ''m-1'', let_sender = ''s'', let_content = ''hello''\<rparr>\<rparr>, Inr (Inl RecipientWorking))],
        dw_threads := [Watch_Task friend]\<rparr>)"
  by (simp add: settle_def memory_flow_def memory_nexus_def hello_def friend_def memory_ledger_def memory_rows_def ask_flow_def
      delivery_request_of_def flow_message_def grading_of_def latest_receipt_def last_for_def record_grade_def stamp_now_def
      sequence_after_def tell_receipt_def receipt_of_def watch_parked_def is_parked_def Let_def)

lemma memory_parked:
  "graded memory_rows (snd (settle memory_flow friend ''d'' (memory_nexus [hello]))) friend =
     [\<lparr>rr_message_id = ''m-1'', rr_sequence = 0, rr_flow_id = ''f'', rr_delivery_id = ''d'',
       rr_witness = NotRequested, rr_grade = Grade_Parked, rr_stamped_at = 0\<rparr>]"
  by (simp only: memory_settled snd_conv) (simp add: graded_def memory_rows_def memory_nexus_def friend_def)

section \<open>Properties\<close>

text \<open>C38. Names of deliveries. The attempt read from a delivery id is the one it was made for,
  whatever text the ids around it hold. For messages the Nexus named, two delivery ids are the
  same text exactly if the recipient and the attempt are the same and so is the message, that is
  the clock gave both names the same stamp and their counts agree modulo 4096: the parts run
  together without ever colliding, and no two of up to 4096 names in a row are equal, whatever
  the clock does.\<close>

theorem delivery_ids:
  "attempt (delivery_id a n) = n \<and>
   (delivery_id \<lparr>ad_message_id = fst (new_message_id h w), ad_flow_id = f\<rparr> n =
      delivery_id \<lparr>ad_message_id = fst (new_message_id h' w'), ad_flow_id = f'\<rparr> k \<longleftrightarrow>
    lh_stamp h (lw_clock w) = lh_stamp h' (lw_clock w') \<and> lw_count w mod 4096 = lw_count w' mod 4096 \<and> f = f' \<and> n = k)"
  using delivery_id_inj [of "\<lparr>ad_message_id = fst (new_message_id h w), ad_flow_id = f\<rparr>"
      "\<lparr>ad_message_id = fst (new_message_id h' w'), ad_flow_id = f'\<rparr>" n k]
  by (auto simp: attempt_delivery_id message_id_clean message_ids_equal)

text \<open>C29. A settlement asks Flow at most once: to deliver the stored message under the given id
  to that recipient, and only if there is such a message. When it answers, the answer is the
  receipt of the recipient's last row, with the grade Flow's outcome has, or the one of an
  unreachable Flow if there is no edge; when it fails no grade was recorded for anyone.\<close>

theorem settle_answers:
  assumes "ledger_contract (lh_api h) rows" and "settle h a did w = (res, w')"
  shows "\<exists>asks. dw_asked w' = dw_asked w @ asks \<and>
     (asks = [] \<or> (\<exists>message outcome. asks = [(delivery_request_of message did (ad_flow_id a), outcome)] \<and>
        lg_message (lh_api h) (lw_store w) (ad_message_id a) = Inr (Some message))) \<and>
     (case res of
        Inl e \<Rightarrow> graded rows w' = graded rows w
      | Inr r \<Rightarrow> graded rows w' a \<noteq> [] \<and> r = receipt_of (last (graded rows w' a)) \<and>
          (\<exists>outcome. rc_grade r = gr_grade (grading_of outcome did) \<and>
             (asks = [] \<and> outcome = Inl Unreachable \<or> asks \<noteq> [] \<and> outcome = snd (last asks))))"
  using assms by (rule settle_spec)

lemma settle_answers_witness:
  "let s = settle memory_flow friend ''d'' (memory_nexus [hello])
   in fst s = Inr (receipt_of (last (graded memory_rows (snd s) friend))) \<and> length (dw_asked (snd s)) = 1"
proof -
  let ?s = "settle memory_flow friend ''d'' (memory_nexus [hello])"
  have s: "settle memory_flow friend ''d'' (memory_nexus [hello]) = (fst ?s, snd ?s)" by simp
  have "\<exists>r. fst ?s = Inr r" "length (dw_asked (snd ?s)) = 1" by (simp_all add: memory_settled)
  with settle_answers [OF memory_flow_contract s] show ?thesis by (auto simp: Let_def)
qed

end
