(* ===== verification/Parking.thy ===== *)
theory Parking imports Delivery begin

text \<open>
  message-nexus/src/delivery.rs, \<open>WatchesParkedRecipient\<close>: the thread that watches a parked recipient
  and delivers when it comes to rest, and the operations of delivery.rs together, from a resume
  on.
\<close>

section \<open>Watching a parked recipient\<close>

definition land_parked :: "('s, 'e) delivery_host \<Rightarrow> addressee \<Rightarrow> 's delivery_world \<Rightarrow> bool \<times> 's delivery_world" where
  "land_parked h a w =
     (case latest_receipt h a w of
        Inr (Some latest) \<Rightarrow>
          if rr_grade latest \<noteq> Grade_Parked then (False, w)
          else (case lg_message (lh_api h) (lw_store w) (ad_message_id a) of
                  Inr (Some message) \<Rightarrow>
                    (case ask_flow h (delivery_request_of message (rr_delivery_id latest) (ad_flow_id a)) w of (outcome, w1) \<Rightarrow>
                       let g = grading_of outcome (rr_delivery_id latest)
                       in if gr_grade g = Grade_Parked then (True, w1)
                          else (False, snd (record_grade h a g w1)))
                | _ \<Rightarrow> (False, w))
      | _ \<Rightarrow> (False, w))"

definition forget_watch :: "addressee \<Rightarrow> 's delivery_world \<Rightarrow> 's delivery_world" where
  "forget_watch a w = w\<lparr>dw_watches := (dw_watches w)(a := None)\<rparr>"

definition close_watch :: "addressee \<Rightarrow> 's delivery_world \<Rightarrow> 's delivery_world" where
  "close_watch a w =
     (case dw_watches w a of
        None \<Rightarrow> w
      | Some stream \<Rightarrow> (forget_watch a w)\<lparr>dw_shut := dw_shut w @ [stream]\<rparr>)"

definition cannot_observe :: "addressee \<Rightarrow> string" where
  "cannot_observe a = ''message-nexus: cannot observe '' @ ad_flow_id a @ ''; '' @ ad_message_id a @ '' stays parked''"

text \<open>
  The two nested loops of \<open>run_watch\<close> as one: a round either opens a stream or reads a state from
  the open one; \<open>heard\<close> is the code's flag.
\<close>

datatype phase = Opening | Watching nat bool

definition at_rest :: "agent_state \<Rightarrow> bool" where
  "at_rest s \<longleftrightarrow> s = Agent_Idle \<or> s = Agent_Done \<or> s = Agent_Gone"

definition open_watch :: "('s, 'e) delivery_host \<Rightarrow> addressee \<Rightarrow> 's delivery_world \<Rightarrow>
    's delivery_world + phase \<times> 's delivery_world" where
  "open_watch h a w =
     (case dh_edge h (lw_store w) of
        Inl _ \<Rightarrow> Inl w
      | Inr path \<Rightarrow>
          (let w1 = w\<lparr>dw_opened := Suc (dw_opened w)\<rparr>
           in case dh_observe h (dw_opened w) path (ad_flow_id a) of
                Inl _ \<Rightarrow> Inl (w1\<lparr>dw_said := dw_said w1 @ [cannot_observe a]\<rparr>)
              | Inr stream \<Rightarrow>
                  Inr (Watching stream False,
                       if dh_closer h stream then w1\<lparr>dw_watches := (dw_watches w1)(a \<mapsto> stream)\<rparr> else w1)))"

definition watch_read :: "('s, 'e) delivery_host \<Rightarrow> addressee \<Rightarrow> nat \<Rightarrow> bool \<Rightarrow> 's delivery_world \<Rightarrow>
    's delivery_world + phase \<times> 's delivery_world" where
  "watch_read h a stream heard w =
     (let w1 = w\<lparr>dw_reads := Suc (dw_reads w)\<rparr>
      in case dh_next_state h (dw_reads w) stream of
           Some state \<Rightarrow>
             if \<not> at_rest state then Inr (Watching stream True, w1)
             else (case land_parked h a w1 of (again, w2) \<Rightarrow>
                     if \<not> again then Inl (forget_watch a w2) else Inr (Watching stream True, w2))
         | None \<Rightarrow>
             let w2 = forget_watch a w1;
                 still_parked = (case latest_receipt h a w2 of Inl _ \<Rightarrow> False | Inr latest \<Rightarrow> is_parked latest)
             in if \<not> heard \<or> \<not> still_parked then Inl w2 else Inr (Opening, w2))"

definition park_round :: "('s, 'e) delivery_host \<Rightarrow> addressee \<Rightarrow> phase \<times> 's delivery_world \<Rightarrow>
    's delivery_world + phase \<times> 's delivery_world" where
  "park_round h a st =
     (case st of
        (Opening, w) \<Rightarrow> open_watch h a w
      | (Watching stream heard, w) \<Rightarrow> watch_read h a stream heard w)"

definition run_watch :: "('s, 'e) delivery_host \<Rightarrow> addressee \<Rightarrow> 's delivery_world \<Rightarrow> 's delivery_world option" where
  "run_watch h a w = iterate (park_round h a) (Opening, w)"

section \<open>The watch\<close>

lemma land_parkedE:
  assumes "land_parked h a w = (again, w')"
  obtains (idle) "\<not> again" and "w' = w"
  | (kept) latest q outcome where "again" and "latest_receipt h a w = Inr (Some latest)" and "rr_grade latest = Grade_Parked"
      and "dr_delivery_id q = rr_delivery_id latest" and "dr_flow_id q = ad_flow_id a"
      and "gr_grade (grading_of outcome (rr_delivery_id latest)) = Grade_Parked"
      and "ask_flow h q w = (outcome, w')"
  | (landed) latest q outcome w1 where "\<not> again" and "latest_receipt h a w = Inr (Some latest)" and "rr_grade latest = Grade_Parked"
      and "dr_delivery_id q = rr_delivery_id latest" and "dr_flow_id q = ad_flow_id a"
      and "gr_grade (grading_of outcome (rr_delivery_id latest)) \<noteq> Grade_Parked"
      and "ask_flow h q w = (outcome, w1)"
      and "w' = snd (record_grade h a (grading_of outcome (rr_delivery_id latest)) w1)"
proof (cases "\<exists>latest message. latest_receipt h a w = Inr (Some latest) \<and> rr_grade latest = Grade_Parked \<and>
    lg_message (lh_api h) (lw_store w) (ad_message_id a) = Inr (Some message)")
  case True
  then obtain latest message where l: "latest_receipt h a w = Inr (Some latest)" "rr_grade latest = Grade_Parked"
    and m: "lg_message (lh_api h) (lw_store w) (ad_message_id a) = Inr (Some message)" by blast
  let ?q = "delivery_request_of message (rr_delivery_id latest) (ad_flow_id a)"
  obtain outcome w1 where ask: "ask_flow h ?q w = (outcome, w1)" by fastforce
  have q: "dr_delivery_id ?q = rr_delivery_id latest" "dr_flow_id ?q = ad_flow_id a"
    by (simp_all add: delivery_request_of_def)
  show thesis
  proof (cases "gr_grade (grading_of outcome (rr_delivery_id latest)) = Grade_Parked")
    case True
    with l m ask assms q show thesis by (intro kept [of latest ?q outcome]) (auto simp: land_parked_def Let_def)
  next
    case False
    with l m ask assms q show thesis by (intro landed [of latest ?q outcome w1]) (auto simp: land_parked_def Let_def)
  qed
next
  case False
  with assms have "again = False \<and> w' = w"
    unfolding land_parked_def by (auto split: sum.splits option.splits if_splits)
  then show thesis by (intro idle) auto
qed


text \<open>
  Where a watch of recipient \<open>a\<close> begun in \<open>w0\<close> may be: its requests carry the delivery id the
  recipient is parked under, and while it goes on each answer was another parking.
\<close>

definition parked_id :: "('s \<Rightarrow> string \<Rightarrow> receipt_record list) \<Rightarrow> addressee \<Rightarrow> 's delivery_world \<Rightarrow> string option" where
  "parked_id rows a w =
     (let rs = graded rows w a
      in if rs \<noteq> [] \<and> rr_grade (last rs) = Grade_Parked then Some (rr_delivery_id (last rs)) else None)"

definition own_ask :: "addressee \<Rightarrow> string option \<Rightarrow> delivery_request \<times> deliver_outcome \<Rightarrow> bool" where
  "own_ask a pid x \<longleftrightarrow> Some (dr_delivery_id (fst x)) = pid \<and> dr_flow_id (fst x) = ad_flow_id a"

definition parks_again :: "deliver_outcome \<Rightarrow> bool" where
  "parks_again outcome \<longleftrightarrow> gr_grade (grading_of outcome []) = Grade_Parked"

lemma parks_again_iff: "gr_grade (grading_of outcome did) = Grade_Parked \<longleftrightarrow> parks_again outcome"
  by (simp add: parks_again_def grading_of_def Let_def case_prod_beta)

definition waiting :: "('s \<Rightarrow> string \<Rightarrow> receipt_record list) \<Rightarrow> addressee \<Rightarrow> 's delivery_world \<Rightarrow> 's delivery_world \<Rightarrow> bool" where
  "waiting rows a w0 w \<longleftrightarrow>
     graded rows w = graded rows w0 \<and> dw_threads w = dw_threads w0 \<and>
     (\<forall>b. b \<noteq> a \<longrightarrow> dw_watches w b = dw_watches w0 b) \<and>
     (\<exists>asks. dw_asked w = dw_asked w0 @ asks \<and> (\<forall>x \<in> set asks. own_ask a (parked_id rows a w0) x \<and> parks_again (snd x)))"

definition watch_over :: "('s \<Rightarrow> string \<Rightarrow> receipt_record list) \<Rightarrow> addressee \<Rightarrow> 's delivery_world \<Rightarrow> 's delivery_world \<Rightarrow> bool" where
  "watch_over rows a w0 w \<longleftrightarrow>
     dw_threads w = dw_threads w0 \<and> (\<forall>b. b \<noteq> a \<longrightarrow> dw_watches w b = dw_watches w0 b) \<and>
     (\<exists>asks new. dw_asked w = dw_asked w0 @ asks \<and>
        (\<forall>x \<in> set asks. own_ask a (parked_id rows a w0) x) \<and> (\<forall>x \<in> set (butlast asks). parks_again (snd x)) \<and>
        graded rows w = (graded rows w0)(a := graded rows w0 a @ new) \<and>
        (new \<noteq> [] \<longrightarrow> (\<exists>row did outcome. new = [row] \<and> parked_id rows a w0 = Some did \<and>
            row_for a (grading_of outcome did) row \<and> \<not> parks_again outcome \<and>
            (outcome = Inl Unreachable \<or> asks \<noteq> [] \<and> outcome = snd (last asks)))))"

lemma waiting_over: "waiting rows a w0 w \<Longrightarrow> watch_over rows a w0 w"
  unfolding waiting_def watch_over_def
  by (elim conjE exE, intro conjI, simp, simp, rule_tac x = asks in exI, rule_tac x = "[]" in exI)
     (auto dest: in_set_butlastD)

lemma waiting_change:
  "waiting rows a w0 w \<Longrightarrow> graded rows w' = graded rows w \<Longrightarrow> dw_threads w' = dw_threads w \<Longrightarrow>
   \<forall>b. b \<noteq> a \<longrightarrow> dw_watches w' b = dw_watches w b \<Longrightarrow> dw_asked w' = dw_asked w \<Longrightarrow> waiting rows a w0 w'"
  by (simp add: waiting_def)

lemma watch_over_change:
  "watch_over rows a w0 w \<Longrightarrow> graded rows w' = graded rows w \<Longrightarrow> dw_threads w' = dw_threads w \<Longrightarrow>
   \<forall>b. b \<noteq> a \<longrightarrow> dw_watches w' b = dw_watches w b \<Longrightarrow> dw_asked w' = dw_asked w \<Longrightarrow> watch_over rows a w0 w'"
  by (simp add: watch_over_def)

lemma latest_parked_id:
  assumes "ledger_contract (lh_api h) rows" and "waiting rows a w0 w"
    and "latest_receipt h a w = Inr (Some latest)" and "rr_grade latest = Grade_Parked"
  shows "parked_id rows a w0 = Some (rr_delivery_id latest)"
  using latest_receipt_graded [OF assms(1,3)] assms(2,4)
  by (auto simp: waiting_def parked_id_def split: if_splits)

lemma land_parked_waits:
  assumes contract: "ledger_contract (lh_api h) rows" and waits: "waiting rows a w0 w" and "land_parked h a w = (again, w')"
  shows "(again \<longrightarrow> waiting rows a w0 w') \<and> watch_over rows a w0 w'"
  using assms(3)
proof (cases rule: land_parkedE)
  case idle
  with waits waiting_over show ?thesis by blast
next
  case (kept latest q outcome)
  have pid: "parked_id rows a w0 = Some (rr_delivery_id latest)"
    using latest_parked_id [OF contract waits kept(2,3)] .
  have "waiting rows a w0 w'" using kept(7)
  proof (cases rule: ask_flowE)
    case no_edge
    with waits show ?thesis by simp
  next
    case (asked path)
    obtain asks where "dw_asked w = dw_asked w0 @ asks"
      "\<forall>x \<in> set asks. own_ask a (parked_id rows a w0) x \<and> parks_again (snd x)"
      using waits by (auto simp: waiting_def)
    then have "dw_asked w' = dw_asked w0 @ (asks @ [(q, outcome)])"
      "\<forall>x \<in> set (asks @ [(q, outcome)]). own_ask a (parked_id rows a w0) x \<and> parks_again (snd x)"
      using asked kept(4-6) pid by (auto simp: own_ask_def parks_again_iff)
    then show ?thesis using waits asked unfolding waiting_def by auto
  qed
  then show ?thesis using waiting_over by blast
next
  case (landed latest q outcome w1)
  let ?did = "rr_delivery_id latest"
  have pid: "parked_id rows a w0 = Some ?did"
    using latest_parked_id [OF contract waits landed(2,3)] .
  obtain asks where asks: "dw_asked w = dw_asked w0 @ asks"
    "\<forall>x \<in> set asks. own_ask a (parked_id rows a w0) x \<and> parks_again (snd x)"
    using waits by (auto simp: waiting_def)
  obtain more where more: "dw_asked w1 = dw_asked w0 @ asks @ more" "more = [] \<and> outcome = Inl Unreachable \<or> more = [(q, outcome)]"
    using landed(7) by (cases rule: ask_flowE) (auto simp: asks(1))
  have w1: "graded rows w1 = graded rows w0" "dw_threads w1 = dw_threads w0" "dw_watches w1 = dw_watches w"
    using ask_flow_graded [OF landed(7), of rows] waits by (simp_all add: waiting_def)
  have ok: "ledger_ok h rows w1" using contract by (simp add: ledger_ok_def)
  obtain new where new: "graded rows w' = (graded rows w0)(a := graded rows w0 a @ new)"
    "new = [] \<or> (\<exists>row. new = [row] \<and> row_for a (grading_of outcome ?did) row)"
    using grading.enter_appends [OF ok, of a "grading_of outcome ?did"] w1(1) landed(8) by auto
  have "\<forall>x \<in> set (asks @ more). own_ask a (parked_id rows a w0) x"
    using asks(2) more(2) landed(4,5) pid by (auto simp: own_ask_def)
  moreover have "\<forall>x \<in> set (butlast (asks @ more)). parks_again (snd x)"
    using asks(2) more(2) by (auto simp: butlast_append dest: in_set_butlastD)
  moreover have "outcome = Inl Unreachable \<or> asks @ more \<noteq> [] \<and> outcome = snd (last (asks @ more))"
    using more(2) by auto
  moreover have "\<not> parks_again outcome" using landed(6) by (simp add: parks_again_iff)
  ultimately have "watch_over rows a w0 w'"
    unfolding watch_over_def
    using new pid more(1) landed(8) w1 waits
    by (intro conjI exI [of _ "asks @ more"] exI [of _ new]) (auto simp: waiting_def)
  with landed(1) show ?thesis by blast
qed

lemma forget_watch_fields [simp]:
  "graded rows (forget_watch a w) = graded rows w" "dw_threads (forget_watch a w) = dw_threads w"
  "dw_asked (forget_watch a w) = dw_asked w" "b \<noteq> a \<Longrightarrow> dw_watches (forget_watch a w) b = dw_watches w b"
  "dw_watches (forget_watch a w) a = None" "dw_reads (forget_watch a w) = dw_reads w"
  by (simp_all add: forget_watch_def)

lemma park_round_waits:
  assumes contract: "ledger_contract (lh_api h) rows" and "waiting rows a w0 (snd st)"
  shows "(\<forall>st'. park_round h a st = Inr st' \<longrightarrow> waiting rows a w0 (snd st')) \<and>
     (\<forall>w'. park_round h a st = Inl w' \<longrightarrow> watch_over rows a w0 w')"
proof (cases st)
  case (Pair p w)
  note waits = assms(2) [unfolded Pair snd_conv]
  show ?thesis
  proof (cases p)
    case Opening
    with Pair waits show ?thesis
      by (auto simp: park_round_def open_watch_def Let_def split: sum.splits if_splits
          intro: waiting_change waiting_over [OF waiting_change])
  next
    case (Watching s got)
    let ?w1 = "w\<lparr>dw_reads := Suc (dw_reads w)\<rparr>"
    have w1: "waiting rows a w0 ?w1" using waits by (rule waiting_change) simp_all
    obtain again w2 where land: "land_parked h a ?w1 = (again, w2)" by fastforce
    from land_parked_waits [OF contract w1 land] have l: "again \<Longrightarrow> waiting rows a w0 w2" "watch_over rows a w0 w2" by auto
    have "watch_over rows a w0 (forget_watch a w2)" using l(2) by (rule watch_over_change) simp_all
    moreover have "waiting rows a w0 (forget_watch a ?w1)" using w1 by (rule waiting_change) simp_all
    moreover note waiting_over [OF this]
    ultimately show ?thesis using Pair Watching w1 land l
      by (auto simp: park_round_def watch_read_def Let_def split: option.splits if_splits)
  qed
qed

lemma run_watch_over:
  assumes contract: "ledger_contract (lh_api h) rows" and "run_watch h a w = Some w'"
  shows "watch_over rows a w w'"
  using assms(2) unfolding run_watch_def
proof (rule iterate_invariant [where I = "\<lambda>st. waiting rows a w (snd st)"])
  show "waiting rows a w (snd (Opening, w))" by (simp add: waiting_def)
qed (use park_round_waits [OF contract] in blast)+

text \<open>A watch that has returned is not registered any more.\<close>

lemma land_parked_fields:
  "dw_watches (snd (land_parked h a w)) = dw_watches w" "dw_reads (snd (land_parked h a w)) = dw_reads w"
proof -
  obtain again w' where land: "land_parked h a w = (again, w')" by fastforce
  then have "dw_watches w' = dw_watches w \<and> dw_reads w' = dw_reads w"
  proof (cases rule: land_parkedE)
    case (kept latest q outcome)
    then show ?thesis using ask_flow_graded [OF kept(7), of undefined] by simp
  next
    case (landed latest q outcome w1)
    then show ?thesis using ask_flow_graded [OF landed(7), of undefined] by simp
  qed simp
  with land show "dw_watches (snd (land_parked h a w)) = dw_watches w" "dw_reads (snd (land_parked h a w)) = dw_reads w"
    by simp_all
qed

lemma run_watch_forgets:
  assumes "run_watch h a w = Some w'"
  shows "dw_watches w' a = None \<or> dw_watches w' a = dw_watches w a"
  using assms unfolding run_watch_def
proof (rule iterate_invariant
    [where I = "\<lambda>st. fst st = Opening \<longrightarrow> dw_watches (snd st) a = None \<or> dw_watches (snd st) a = dw_watches w a"])
  fix st st' :: "phase \<times> 'a delivery_world"
  assume "park_round h a st = Inr st'"
  then show "fst st' = Opening \<longrightarrow> dw_watches (snd st') a = None \<or> dw_watches (snd st') a = dw_watches w a"
    by (auto simp: park_round_def open_watch_def watch_read_def Let_def
        split: prod.splits phase.splits sum.splits option.splits if_splits)
next
  fix st w2
  assume "fst st = Opening \<longrightarrow> dw_watches (snd st) a = None \<or> dw_watches (snd st) a = dw_watches w a"
    and "park_round h a st = Inl w2"
  then show "dw_watches w2 a = None \<or> dw_watches w2 a = dw_watches w a"
    by (auto simp: park_round_def open_watch_def watch_read_def Let_def
        split: prod.splits phase.splits sum.splits option.splits if_splits)
qed simp

text \<open>How far a watch is from its end, when no stream has a state after the \<open>n\<close>-th read.\<close>

definition watch_left :: "nat \<Rightarrow> phase \<times> 's delivery_world \<Rightarrow> nat" where
  "watch_left n st =
     4 * (n - dw_reads (snd st)) + (case fst st of Opening \<Rightarrow> 2 | Watching _ got \<Rightarrow> if got then 3 else 1)"

lemma park_round_nearer:
  assumes quiet: "\<forall>i s. n \<le> i \<longrightarrow> dh_next_state h i s = None" and round: "park_round h a st = Inr st'"
  shows "watch_left n st' < watch_left n st"
proof (cases st)
  case (Pair p w)
  show ?thesis
  proof (cases p)
    case Opening
    with Pair round show ?thesis
      by (auto simp: park_round_def open_watch_def watch_left_def Let_def split: sum.splits if_splits)
  next
    case (Watching s got)
    let ?w1 = "w\<lparr>dw_reads := Suc (dw_reads w)\<rparr>"
    show ?thesis
    proof (cases "dh_next_state h (dw_reads w) s")
      case None
      with Pair Watching round have "st' = (Opening, forget_watch a ?w1)" and got
        by (auto simp: park_round_def watch_read_def Let_def split: if_splits)
      with Pair Watching show ?thesis by (simp add: watch_left_def)
    next
      case (Some state)
      then have "dw_reads w < n" using quiet by (metis not_less option.distinct(1))
      moreover have "fst st' = Watching s True \<and> dw_reads (snd st') = Suc (dw_reads w)"
        using Pair Watching round Some land_parked_fields(2) [of h a ?w1]
        by (auto simp: park_round_def watch_read_def Let_def split: if_splits prod.splits)
      ultimately show ?thesis using Pair Watching by (auto simp: watch_left_def)
    qed
  qed
qed

lemma run_watch_ends:
  assumes "\<forall>i s. n \<le> i \<longrightarrow> dh_next_state h i s = None"
  shows "\<exists>w'. run_watch h a w = Some w'"
  unfolding run_watch_def
  by (rule iterate_measure [where m = "watch_left n"]) (rule park_round_nearer [OF assms])

section \<open>Resuming\<close>

text \<open>The task a recipient's latest grade asks for.\<close>

definition task_for :: "('s \<Rightarrow> string \<Rightarrow> receipt_record list) \<Rightarrow> 's delivery_world \<Rightarrow> addressee \<Rightarrow> task option" where
  "task_for rows w a =
     (let rs = graded rows w a
      in if rs = [] then None
         else case rr_grade (last rs) of
                Grade_Parked \<Rightarrow> Some (Watch_Task a)
              | Grade_Submitted \<Rightarrow> Some (Settle_Task a (rr_delivery_id (last rs)))
              | _ \<Rightarrow> None)"

lemma resume_parks_tasks:
  assumes contract: "ledger_contract (lh_api h) rows"
  shows "resume_parks h parks w = (res, w') \<Longrightarrow>
    \<exists>ts. w' = w\<lparr>dw_threads := dw_threads w @ ts\<rparr> \<and> prefix ts (List.map_filter (task_for rows w) parks) \<and>
      (res = Inr () \<longrightarrow> ts = List.map_filter (task_for rows w) parks)"
proof (induction parks arbitrary: w)
  case Nil
  then show ?case by (intro exI [of _ "[]"]) (simp add: List.map_filter_def)
next
  case (Cons a parks)
  show ?case
  proof (cases "latest_receipt h a w")
    case (Inl e)
    with Cons.prems show ?thesis by (intro exI [of _ "[]"]) auto
  next
    case (Inr latest)
    note l = latest_receipt_graded [OF contract Inr]
    have same: "task_for rows (w\<lparr>dw_threads := x\<rparr>) = task_for rows w" for x
      by (simp add: task_for_def fun_eq_iff)
    define t where "t = (case task_for rows w a of None \<Rightarrow> [] | Some t \<Rightarrow> [t])"
    have "resume_parks h parks (w\<lparr>dw_threads := dw_threads w @ t\<rparr>) = (res, w')"
      using Cons.prems Inr l
      by (auto simp: t_def task_for_def Let_def watch_parked_def split: if_splits grade.splits)
    from Cons.IH [OF this] obtain ts where
      "w' = w\<lparr>dw_threads := dw_threads w @ t @ ts\<rparr>" "prefix ts (List.map_filter (task_for rows w) parks)"
      "res = Inr () \<longrightarrow> ts = List.map_filter (task_for rows w) parks"
      by (auto simp: same)
    moreover have "List.map_filter (task_for rows w) (a # parks) = t @ List.map_filter (task_for rows w) parks"
      by (simp add: t_def List.map_filter_def split: option.splits)
    ultimately show ?thesis by (intro exI [of _ "t @ ts"]) auto
  qed
qed

lemma resume_tasks:
  assumes "ledger_contract (lh_api h) rows" and "resume h w = (Inr (), w')"
  shows "\<exists>parks. lg_parks (lh_api h) (lw_store w) = Inr parks \<and>
     w' = w\<lparr>dw_threads := dw_threads w @ List.map_filter (task_for rows w) parks\<rparr>"
  using assms(2) resume_parks_tasks [OF assms(1), of _ w "Inr ()" w'] by (auto simp: resume_def split: sum.splits)

section \<open>A nexus at work\<close>

text \<open>
  A settlement, a watch from its start to its return, the end of a watch by a Withdraw, an Observe
  subscription, and a grade recorded by the code that accepts messages, which parks nobody.
\<close>

inductive delivery_step :: "('s, 'e) delivery_host \<Rightarrow> 's delivery_world \<Rightarrow> 's delivery_world \<Rightarrow> bool" for h where
  settles: "settle h a did w = (res, w') \<Longrightarrow> delivery_step h w w'"
| watches: "run_watch h a w = Some w' \<Longrightarrow> delivery_step h w w'"
| closes: "close_watch a w = w' \<Longrightarrow> delivery_step h w w'"
| observes: "subscribe m w = (c, w') \<Longrightarrow> delivery_step h w w'"
| submits: "record_grade h a g w = (res, w') \<Longrightarrow> gr_grade g \<noteq> Grade_Parked \<Longrightarrow> delivery_step h w w'"

text \<open>Nobody is recorded parked twice in a row, and for whoever is parked a watch was started.\<close>

definition parks_ok :: "('s \<Rightarrow> string \<Rightarrow> receipt_record list) \<Rightarrow> 's delivery_world \<Rightarrow> bool" where
  "parks_ok rows w \<longleftrightarrow>
     (\<forall>a. parked_once (graded rows w a) \<and> (parked_id rows a w \<noteq> None \<longrightarrow> Watch_Task a \<in> set (dw_threads w)))"

lemma watch_over_moves: "watch_over rows a w w' \<Longrightarrow> moves rows a w w'"
proof -
  assume "watch_over rows a w w'"
  then obtain new where threads: "dw_threads w' = dw_threads w"
    and graded: "graded rows w' = (graded rows w)(a := graded rows w a @ new)"
    and new: "new \<noteq> [] \<Longrightarrow> \<exists>row did outcome. new = [row] \<and> row_for a (grading_of outcome did) row \<and> \<not> parks_again outcome"
    unfolding watch_over_def by blast
  have "new = [] \<or> (\<exists>row. new = [row] \<and> rr_grade row \<noteq> Grade_Parked)"
    using new by (metis parks_again_iff row_for_def)
  then show ?thesis
    using threads graded unfolding moves_def by (intro exI [of _ new] exI [of _ "[]"]) (auto intro: parked_once_snoc)
qed

lemma moves_parks_ok: "moves rows a w w' \<Longrightarrow> parks_ok rows w \<Longrightarrow> parks_ok rows w'"
proof -
  assume "moves rows a w w'" and ok: "parks_ok rows w"
  then obtain new ts where m: "graded rows w' = (graded rows w)(a := graded rows w a @ new)"
    "parked_once (graded rows w a) \<longrightarrow> parked_once (graded rows w a @ new)" "dw_threads w' = dw_threads w @ ts"
    "new \<noteq> [] \<and> rr_grade (last new) = Grade_Parked \<longrightarrow> Watch_Task a \<in> set ts"
    unfolding moves_def by blast
  show ?thesis
    unfolding parks_ok_def
  proof (intro allI)
    fix b
    have "parked_once (graded rows w b) \<and> (parked_id rows b w \<noteq> None \<longrightarrow> Watch_Task b \<in> set (dw_threads w))"
      using ok by (simp add: parks_ok_def)
    with m show "parked_once (graded rows w' b) \<and> (parked_id rows b w' \<noteq> None \<longrightarrow> Watch_Task b \<in> set (dw_threads w'))"
      by (cases "b = a"; cases "new = []") (auto simp: parked_id_def Let_def last_append split: if_splits)
  qed
qed

lemma delivery_step_parks_ok:
  assumes contract: "ledger_contract (lh_api h) rows" and "delivery_step h w w'" and ok: "parks_ok rows w"
  shows "parks_ok rows w'"
  using assms(2)
proof cases
  case (settles a did res)
  from moves_parks_ok [OF settle_moves [OF contract settles] ok] show ?thesis .
next
  case (watches a)
  from moves_parks_ok [OF watch_over_moves [OF run_watch_over [OF contract watches]] ok] show ?thesis .
next
  case (closes a)
  then have "graded rows w' = graded rows w" "dw_threads w' = dw_threads w"
    by (auto simp: close_watch_def split: option.splits)
  with ok show ?thesis by (simp add: parks_ok_def parked_id_def)
next
  case (observes m c)
  then have "graded rows w' = graded rows w" "dw_threads w' = dw_threads w"
    by (auto simp: subscribe_def graded_def fun_eq_iff)
  with ok show ?thesis by (simp add: parks_ok_def parked_id_def)
next
  case (submits a g res)
  from record_moves [OF contract submits(1), of w' "[]"] submits(2) have "moves rows a w w'" by simp
  from moves_parks_ok [OF this ok] show ?thesis .
qed

text \<open>What is relied on of the store's list of parks: every recipient whose last row is Parked is there.\<close>

definition lists_parked :: "('s, 'e) ledger_api \<Rightarrow> ('s \<Rightarrow> string \<Rightarrow> receipt_record list) \<Rightarrow> bool" where
  "lists_parked api rows \<longleftrightarrow>
     (\<forall>s parks a. lg_parks api s = Inr parks \<longrightarrow>
        (let rs = filter (\<lambda>r. rr_flow_id r = ad_flow_id a) (rows s (ad_message_id a))
         in rs \<noteq> [] \<and> rr_grade (last rs) = Grade_Parked \<longrightarrow> a \<in> set parks))"

lemma resume_parks_ok:
  assumes contract: "ledger_contract (lh_api h) rows" and "resume h w = (Inr (), w')"
    and once: "\<forall>a. parked_once (graded rows w a)" and listed: "lists_parked (lh_api h) rows"
  shows "parks_ok rows w'"
proof -
  obtain parks where p: "lg_parks (lh_api h) (lw_store w) = Inr parks"
    "w' = w\<lparr>dw_threads := dw_threads w @ List.map_filter (task_for rows w) parks\<rparr>"
    using resume_tasks [OF contract assms(2)] by blast
  have "Watch_Task a \<in> set (dw_threads w')" if "parked_id rows a w \<noteq> None" for a
  proof -
    from that have g: "graded rows w a \<noteq> []" "rr_grade (last (graded rows w a)) = Grade_Parked"
      by (auto simp: parked_id_def Let_def split: if_splits)
    with listed p(1) have "a \<in> set parks" by (simp add: lists_parked_def graded_def Let_def)
    moreover have "task_for rows w a = Some (Watch_Task a)" using g by (simp add: task_for_def)
    ultimately show ?thesis by (force simp: p(2) List.map_filter_def)
  qed
  moreover have "graded rows w' = graded rows w" by (simp add: p(2))
  ultimately show ?thesis using once by (simp add: parks_ok_def parked_id_def)
qed

lemma parked_stay_watched:
  assumes "ledger_contract (lh_api h) rows" and "lists_parked (lh_api h) rows"
    and "\<forall>a. parked_once (graded rows w0 a)" and "resume h w0 = (Inr (), w1)" and "(delivery_step h)\<^sup>*\<^sup>* w1 w2"
  shows "parks_ok rows w2"
  using assms(5)
proof (induction rule: rtranclp_induct)
  case base
  show ?case using resume_parks_ok [OF assms(1,4,3,2)] .
next
  case (step u v)
  show ?case using delivery_step_parks_ok [OF assms(1) step.hyps(2) step.IH] .
qed

lemma memory_flow_lists: "lists_parked (lh_api memory_flow) memory_rows"
proof -
  have "a \<in> set parks" if parks: "lg_parks memory_ledger s = Inr parks"
    and some: "filter (\<lambda>r. rr_flow_id r = ad_flow_id a) (memory_rows s (ad_message_id a)) \<noteq> []" for s parks and a :: addressee
  proof -
    obtain r where "r \<in> set (snd s)" "rr_message_id r = ad_message_id a" "rr_flow_id r = ad_flow_id a"
      using some by (auto simp: memory_rows_def filter_empty_conv)
    then have "\<lparr>ad_message_id = ad_message_id a, ad_flow_id = ad_flow_id a\<rparr> \<in> set parks"
      using parks by (force simp: memory_ledger_def)
    then show ?thesis by (cases a) simp
  qed
  then show ?thesis by (auto simp: lists_parked_def memory_flow_def Let_def)
qed

text \<open>Its watch opens a stream, sees it idle, and delivers under the same id.\<close>

lemma memory_watched:
  "\<exists>w'. run_watch memory_flow friend (snd (settle memory_flow friend ''d'' (memory_nexus [hello]))) = Some w' \<and>
     map (\<lambda>r. (rr_delivery_id r, rr_grade r)) (graded memory_rows w' friend) =
       [(''d'', Grade_Parked), (''d'', Grade_Presented)]"
  unfolding run_watch_def memory_settled snd_conv
  by (rule exI, rule conjI, subst iterate.simps,
      simp add: park_round_def open_watch_def memory_flow_def Let_def, subst iterate.simps,
      simp add: park_round_def watch_read_def at_rest_def land_parked_def memory_ledger_def memory_rows_def memory_nexus_def
        hello_def friend_def latest_receipt_def last_for_def ask_flow_def grading_of_def record_grade_def stamp_now_def
        tell_receipt_def forget_watch_def delivery_request_of_def flow_message_def Let_def)
     (simp add: graded_def memory_rows_def friend_def)

section \<open>Properties\<close>





end
