(* ===== verification/Spec2Isabelle.thy ===== *)
theory Spec2Isabelle imports End_To_End Handlers Recorders Parking begin

text \<open>
  Message: a Nexus that takes typed Sends from agents, identifies their sender by the kernel's
  peer credentials, and delivers them through Flow; two command-line clients; and an MCP
  adapter that serves Sends to a harness over standard input and output. This development
  models the program under src/crates, and beside it the delivery ledger whose two files lie in
  the crate without being compiled, and proves what makes each part correct. This theory only
  gathers the others; the properties stand in the theory of the component they are about, each
  after a text that numbers it.
\<close>

section \<open>The program and its theories\<close>

text \<open>
  One process, message-nexus, holds a store with one record and two sockets. A connection on
  the ordinary socket brings one query: a Configure, a Send or an observation; one on the meta
  socket brings the owner's Configure. A Send goes to Flow as up to five exchanges, each a
  connection of its own, and a queued one is followed by a status stream that is relayed to
  the client. The clients and the adapter are peers of the ordinary socket.

  \<^item> \<open>Prelude\<close>: effects as functions from a world to a result and the next world, with the \<open>?\<close>
    operator (\<open>io_bind\<close>); loops that may not return (\<open>iterate\<close>); \<open>Vec::swap_remove\<close> and the loop
    that reaps workers, which two servers share.
  \<^item> \<open>Text\<close>: the string operations of the standard library the code uses.
  \<^item> \<open>Wire\<close>: the values exchanged with Flow and with clients, as far as the code names them.
  \<^item> \<open>Frame\<close> (message-nexus/src/frame.rs): the operating system as an oracle over the calls made so
    far; \<open>write_frame\<close> and \<open>read_frame\<close>; the length prefix at its 32 bits.
  \<^item> \<open>Peer\<close> (peer.rs): a process identity from a pid and \<open>/proc\<close>.
  \<^item> \<open>Defaults\<close> (message-defaults/src/lib.rs, configuration.rs): the anchors, the paths derived from
    them and the configuration a new store is seeded with.
  \<^item> \<open>Store\<close> (store.rs, generated/memory.rs): recognising a file, opening, seeding, reading and
    replacing the record.
  \<^item> \<open>Flow_Edge\<close> (flow_edge.rs): the typed operations on Flow and the subscription.
  \<^item> \<open>Service\<close> (service.rs): \<open>configure\<close>, \<open>serve_query\<close>, \<open>accept_send\<close>, \<open>observe_sends\<close> and the
    translation of refusals.
  \<^item> \<open>Listener\<close> (listener.rs, the \<open>answer_*\<close> handlers): one connection, the relay of a status stream
    and the thread that watches the client.
  \<^item> \<open>Nexus\<close> (nexus.rs): opening, and the life of the configuration over queries and restarts.
  \<^item> \<open>Handlers\<close> (nexus.rs, \<open>store\<close>; service.rs, \<open>configure\<close> cut at its lock): the handlers of all
    connections at the same time, under the mutex of the store.
  \<^item> \<open>Serve\<close> (listener.rs, \<open>Socket::bind\<close> and \<open>serve\<close>; main.rs): binding, the poll loop with its
    workers, shutdown, the process.
  \<^item> \<open>Clients\<close> (message/src/main.rs, message-meta/src/main.rs): the two clients, \<open>main\<close> included.
  \<^item> \<open>Mcp_Call\<close> (message-mcp-send/src/main.rs, \<open>CallRequest::run\<close>): one tool call.
  \<^item> \<open>Mcp_Session\<close> (the same file, \<open>Adapter\<close> and \<open>Sender::run\<close>): the checks of a request and the
    session, a transition system in which lines and workers interleave.
  \<^item> \<open>End_To_End\<close>: the bytes a handler of the Nexus writes on a connection, followed to what the
    client prints and to what a tool call reports; a session and the runs of its workers together.
  \<^item> \<open>Ledger\<close> (message-nexus/src/ledger.rs): the rows of grades of a message, its observers, the ids
    of messages.
  \<^item> \<open>Recorders\<close> (the same file): \<open>record_grade\<close> by several threads, cut between the lock of the store
    and that of the observers.
  \<^item> \<open>Delivery\<close> (delivery.rs): delivery ids, the grade an outcome of Flow is, \<open>settle\<close> and \<open>resume\<close>.
  \<^item> \<open>Parking\<close> (the same file): the watch of a parked recipient, and all operations together.
    Neither ledger.rs nor delivery.rs is declared in lib.rs: the four theories stand beside the
    compiled program, and nothing else rests on them.
\<close>

section \<open>How the code is translated\<close>

text \<open>
  A Rust \<open>Result\<close> is a sum with \<open>Inl\<close> for \<open>Err\<close>; a panic does not occur in the modelled code
  but where \<open>Handlers\<close> lets a handler panic. A struct is a record, an enum a datatype with the source's variants. A stream
  is a number, and what a system call answers is a function of every call made before it, so
  that a theorem holds for any peer, failure and interleaving with other processes. A
  computation returns the next world beside its result; a world has the calls made, and
  transcripts (contacts with Flow, lines written, replies read) that only theorems read.

  A \<open>loop\<close> that depends on a peer is \<open>iterate\<close> of its body, a partial function whose \<open>None\<close>
  means that it never returns; no fuel is used anywhere. That such a loop returns is a theorem
  under the hypothesis \<open>feeds\<close>: the connection brings finitely many bytes (for a watch: its
  streams have finitely many states). Loops over lists and
  over the frames of a store are structural or have a measure.

  Threads. A connection of the Nexus and a tool call of the adapter each run in a thread whose
  state is its own; what they share is the store's record, the two flags and the table of
  active calls. The record is replaced in one transaction, and \<open>nexus_run\<close> interleaves whole
  queries in any order. That this is enough is proved: \<open>handler_step\<close> cuts every handler where it
  takes the lock, reads, replaces and gives the lock back, lets the handlers interleave and panic
  there, and \<open>handlers_linearize\<close> leads each such run back to a \<open>nexus_run\<close>.
  The flags are oracles to a call, asked at every load. The table is the state of the session's
  transition system, where a worker's accesses are steps between the lines of the loop.
\<close>

section \<open>What the lemmas show\<close>

text \<open>
  \<^item> Sends: Flow is asked to deliver at most once per Send, under a lock that is held and given
    back; every Send is a run of an abstract protocol (\<open>send_protocol\<close>); reports are honest.
  \<^item> Streams: a relay forwards each status once, unchanged and in order, stops where it must and
    returns; the clients and the Nexus agree on where a conversation ends.
  \<^item> Configuration: the record after any run is what the answered successes determine; after
    the owner's Configure no ordinary one succeeds; a store is never reseeded. Interleaved under the
    lock of the store the handlers take effect one after another, once each, and a handler that
    waits for the lock can always still be answered.
  \<^item> The server: a socket is only taken over from nobody; the loop stops for the stated reasons
    only and then has joined every worker; every worker ends.
  \<^item> The adapter: one final line per call, results only for conversations read to their end;
    bounded tables, unique request ids, no lost cancellation, no identity but the harness's.
  \<^item> End to end: the client prints, and a tool call reports, exactly what the handler told;
    over a session each id is answered once, whatever the interleaving of the workers.
  \<^item> The ledger: rows are only appended, an observer hears exactly the receipts since it
    subscribed, also when threads record at once, though then in row order for each recipient only, names never collide but for a clock that stood still; a settlement asks Flow at
    most once, a watch never again after an outcome that may have typed; nobody is parked twice
    in a row, and nobody parked is left without a watch.

  Interfaces are locales, interpreted on the model: \<open>careful_effects\<close> and \<open>stable_effects\<close> (relations
  that system calls keep, four times), \<open>length_prefix\<close>, \<open>flow_channel\<close> (what an exchange with Flow
  leaves in the transcript), \<open>keeps_standard\<close> (a store of one record), \<open>grade_log\<close> (the ledger as a
  delivery uses it) and \<open>crew\<close> (a server and its workers, for the Nexus and for the adapter).
\<close>

section \<open>Not modelled\<close>

text \<open>
  \<^item> The packages the code calls are parameters: the rkyv archives, the datom codec and its
    rendering, redb and sema-engine (with a stated contract), serde_json, and Flow itself.
  \<^item> The types, the store and the Flow edge that ledger.rs and delivery.rs name are not in the
    repository: their types are records of the fields and datatypes of the variants the two files
    use, with one more variant for the rest, and their operations are parameters, under the
    contracts \<open>ledger_contract\<close> and \<open>lists_parked\<close>. Threads interleave within a recording
    (\<open>Recorders\<close>); in \<open>Delivery\<close> and \<open>Parking\<close> a thread runs as one step.
  \<^item> The types of generated/operation.rs: they are generated from an ethos file and no module names
    them, so there is no code a theorem about them could be about. build.rs, which only compares
    the generated files with their sources.
  \<^item> The signal mask and signalfd are one answer of the system. A panic, and the lock it poisons, occur
    only where a handler holds the lock of the store; the other mutexes are never poisoned.
  \<^item> White space is the ASCII one; paths are bytes; an error of the system is its kind and text.
\<close>

end
